(* ===== verification/Nxt_Prelude.thy ===== *)
theory Nxt_Prelude
  imports Main "HOL-Library.Word"
begin

text \<open>
  Shared vocabulary of the development: the machine types of the C sources as words, byte
  strings as lists of 8-bit words, the character codes the parsers compare with, the
  \<^verbatim>\<open>nxt_int_t\<close> return codes, and the generic lemmas on bytes, words and lists that the
  component theories share.  The lemmas that carry whole groups of proofs are collected in
  \<open>byte_simps\<close> (case analysis on single bytes) and \<open>word_nat\<close> (moving an inequality or an
  equation on words to \<open>nat\<close>).

  The widths are those of an amd64 build: \<^verbatim>\<open>u_char\<close> 8 bits, \<^verbatim>\<open>nxt_int_t\<close> and
  \<^verbatim>\<open>nxt_uint_t\<close> 32 bits (\<^verbatim>\<open>nxt_types.h\<close> chooses \<^verbatim>\<open>int\<close> there), \<^verbatim>\<open>size_t\<close>,
  \<^verbatim>\<open>off_t\<close> and pointers 64 bits.
\<close>

unbundle bit_operations_syntax

named_theorems byte_simps \<open>decided facts on single bytes\<close>
named_theorems word_nat \<open>words to natural numbers\<close>

section \<open>Types\<close>

type_synonym u_char = "8 word"
type_synonym uint8 = "8 word"
type_synonym uint16 = "16 word"
type_synonym uint32 = "32 word"
type_synonym uint64 = "64 word"
type_synonym size_t = "64 word"
type_synonym nxt_uint_t = "32 word"

text \<open>
  A \<^verbatim>\<open>nxt_str_t\<close> (a length and a start pointer) and a pointer pair \<^verbatim>\<open>p, end\<close> both
  denote a byte sequence; the model carries the sequence itself.
\<close>

type_synonym nxt_str = "u_char list"

definition bytes :: "string \<Rightarrow> nxt_str" where
  "bytes s = map of_char s"

lemma bytes_Nil [simp]: "bytes [] = []"
  by (simp add: bytes_def)

lemma bytes_Cons [simp]: "bytes (c # s) = of_char c # bytes s"
  by (simp add: bytes_def)

lemma length_bytes [simp]: "length (bytes s) = length s"
  by (simp add: bytes_def)

section \<open>Character codes\<close>

abbreviation c_nul :: u_char where "c_nul \<equiv> 0x00"
abbreviation c_bs :: u_char where "c_bs \<equiv> 0x08"
abbreviation c_tab :: u_char where "c_tab \<equiv> 0x09"
abbreviation c_lf :: u_char where "c_lf \<equiv> 0x0A"
abbreviation c_ff :: u_char where "c_ff \<equiv> 0x0C"
abbreviation c_cr :: u_char where "c_cr \<equiv> 0x0D"
abbreviation c_space :: u_char where "c_space \<equiv> 0x20"
abbreviation c_dquote :: u_char where "c_dquote \<equiv> 0x22"
abbreviation c_hash :: u_char where "c_hash \<equiv> 0x23"
abbreviation c_percent :: u_char where "c_percent \<equiv> 0x25"
abbreviation c_asterisk :: u_char where "c_asterisk \<equiv> 0x2A"
abbreviation c_plus :: u_char where "c_plus \<equiv> 0x2B"
abbreviation c_comma :: u_char where "c_comma \<equiv> 0x2C"
abbreviation c_minus :: u_char where "c_minus \<equiv> 0x2D"
abbreviation c_dot :: u_char where "c_dot \<equiv> 0x2E"
abbreviation c_slash :: u_char where "c_slash \<equiv> 0x2F"
abbreviation c_0 :: u_char where "c_0 \<equiv> 0x30"
abbreviation c_1 :: u_char where "c_1 \<equiv> 0x31"
abbreviation c_2 :: u_char where "c_2 \<equiv> 0x32"
abbreviation c_5 :: u_char where "c_5 \<equiv> 0x35"
abbreviation c_9 :: u_char where "c_9 \<equiv> 0x39"
abbreviation c_colon :: u_char where "c_colon \<equiv> 0x3A"
abbreviation c_semicolon :: u_char where "c_semicolon \<equiv> 0x3B"
abbreviation c_equals :: u_char where "c_equals \<equiv> 0x3D"
abbreviation c_question :: u_char where "c_question \<equiv> 0x3F"
abbreviation c_A :: u_char where "c_A \<equiv> 0x41"
abbreviation c_F :: u_char where "c_F \<equiv> 0x46"
abbreviation c_Z :: u_char where "c_Z \<equiv> 0x5A"
abbreviation c_lbracket :: u_char where "c_lbracket \<equiv> 0x5B"
abbreviation c_backslash :: u_char where "c_backslash \<equiv> 0x5C"
abbreviation c_rbracket :: u_char where "c_rbracket \<equiv> 0x5D"
abbreviation c_underscore :: u_char where "c_underscore \<equiv> 0x5F"
abbreviation c_a :: u_char where "c_a \<equiv> 0x61"
abbreviation c_f :: u_char where "c_f \<equiv> 0x66"
abbreviation c_z :: u_char where "c_z \<equiv> 0x7A"
abbreviation c_lbrace :: u_char where "c_lbrace \<equiv> 0x7B"
abbreviation c_rbrace :: u_char where "c_rbrace \<equiv> 0x7D"

section \<open>Return codes\<close>

text \<open>The \<^verbatim>\<open>NXT_*\<close> codes that functions return as \<^verbatim>\<open>nxt_int_t\<close>.\<close>

datatype nxt_rc = NXT_OK | NXT_ERROR | NXT_AGAIN | NXT_DECLINED | NXT_DONE

section \<open>Bytes\<close>

lemma byte_lt [simp]: "unat (x :: u_char) < 256"
  using unsigned_less [of x, where ?'a = nat] by simp

lemma byte_le [simp]: "unat (x :: u_char) \<le> 255"
  using byte_lt [of x] by linarith

text \<open>
  A statement about every byte is a statement about 256 numerals, which the simplifier decides
  one by one: \<open>unfolding byte_table by simp\<close>.
\<close>

definition nibbles :: "u_char list" where
  "nibbles = [0, 1, 2, 3, 4, 5, 6, 7, 8, 9, 10, 11, 12, 13, 14, 15]"

lemma nibbles_complete: "x < 16 \<Longrightarrow> x \<in> set nibbles"
proof -
  assume "x < 16"
  then have "unat x < 16" by (simp add: word_less_nat_alt)
  moreover have "map unat nibbles = [0..<16]"
    by (simp add: nibbles_def upt_conv_Cons)
  then have "unat ` set nibbles = {0..<16}"
    by (metis atLeastLessThan_upt set_map)
  ultimately have "unat x \<in> unat ` set nibbles" by simp
  then show ?thesis by (metis image_iff word_unat_eq_iff)
qed

lemma byte_all_iff:
  "(\<forall>x. P x) \<longleftrightarrow> list_all (\<lambda>h. list_all (\<lambda>l. P (16 * h + l)) nibbles) nibbles"
proof
  assume all: "list_all (\<lambda>h. list_all (\<lambda>l. P (16 * h + l)) nibbles) nibbles"
  show "\<forall>x. P x"
  proof
    fix x :: u_char
    have "unat (x div 16) < 16" "unat (x mod 16) < 16"
      by (simp_all add: unat_div unat_mod div_less_iff_less_mult)
    then have "x div 16 \<in> set nibbles" "x mod 16 \<in> set nibbles"
      by (simp_all add: nibbles_complete word_less_nat_alt)
    with all have "P (16 * (x div 16) + x mod 16)"
      by (auto simp: list_all_iff)
    then show "P x" by (metis mult.commute div_mult_mod_eq)
  qed
qed (simp add: list_all_iff)

lemmas byte_table = byte_all_iff nibbles_def

text \<open>The test \<^verbatim>\<open>(u_char) (c - '0') <= 9\<close>, which the sources use for a decimal digit.\<close>

definition nxt_isdigit :: "u_char \<Rightarrow> bool" where
  "nxt_isdigit c \<longleftrightarrow> c - c_0 \<le> 9"

lemma nxt_isdigit_iff: "nxt_isdigit c \<longleftrightarrow> c_0 \<le> c \<and> c \<le> c_9"
  by (auto simp: nxt_isdigit_def word_le_nat_alt unat_sub_if')

lemma digit_value_le: "nxt_isdigit c \<Longrightarrow> unat (c - c_0) \<le> 9"
  by (simp add: nxt_isdigit_def word_le_nat_alt)

section \<open>Words\<close>

lemmas [word_nat] = word_le_nat_alt word_less_nat_alt word_unat_eq_iff

lemma unat_ucast_byte32 [simp]: "unat (ucast (c :: u_char) :: uint32) = unat c"
  using byte_lt [of c] by (simp add: unsigned_ucast_eq take_bit_nat_eq_self_iff del: byte_lt)

lemma unat_ucast_byte64 [simp]: "unat (ucast (c :: u_char) :: uint64) = unat c"
  using byte_lt [of c] by (simp add: unsigned_ucast_eq take_bit_nat_eq_self_iff del: byte_lt)

lemma uint32_lt: "unat (x :: uint32) < 4294967296"
  using unsigned_less [of x, where ?'a = nat] by simp

lemma uint64_lt: "unat (x :: uint64) < 18446744073709551616"
  using unsigned_less [of x, where ?'a = nat] by simp

text \<open>A word below the sign bit reads the same as a signed and as an unsigned number.\<close>

lemma sint_small:
  fixes w :: "'a::len word"
  assumes "unat w < 2 ^ (LENGTH('a) - 1)"
  shows "sint w = int (unat w)"
proof -
  have "int (unat w) < int (2 ^ (LENGTH('a) - 1))"
    using assms by (rule of_nat_less_iff [THEN iffD2])
  then have *: "uint w < 2 ^ (LENGTH('a) - 1)"
    by simp
  have "signed_take_bit (LENGTH('a) - 1) (uint w) = uint w"
    using * by (intro signed_take_bit_int_eq_self) (auto intro: order_trans [OF _ uint_ge_0])
  then show ?thesis
    by (simp add: sint_uint)
qed

text \<open>One bit of a word, and the case bit of a letter.\<close>

lemma word_split_bit: "(u :: 'a::len word) = (u AND NOT (2 ^ n)) OR (u AND 2 ^ n)"
  by (rule bit_word_eqI) (auto simp: bit_simps)

lemma word_and_pow: "(u :: 'a::len word) AND 2 ^ n = (if bit u n then 2 ^ n else 0)"
  by (rule bit_word_eqI) (auto simp: bit_simps)

lemma and_clear_bit5: "(u :: u_char) AND - 33 = a \<Longrightarrow> u = a \<or> u = a OR 0x20"
  using word_split_bit [of u 5] word_and_pow [of u 5] by (auto split: if_splits)

lemma bit_5_range: "m * 32 \<le> unat c \<Longrightarrow> unat c < (m + 1) * 32 \<Longrightarrow> bit (c :: u_char) 5 \<longleftrightarrow> odd m"
proof -
  assume "m * 32 \<le> unat c" "unat c < (m + 1) * 32"
  then have "unat c div 32 = m" by (metis Suc_eq_plus1 div_nat_eqI mult.commute)
  moreover have "bit c 5 \<longleftrightarrow> bit (unat c) 5" by (simp add: bit_unsigned_iff)
  ultimately show ?thesis by (simp add: bit_iff_odd)
qed

lemma bit_5_arith:
  "\<not> bit (c :: u_char) 5 \<Longrightarrow> c OR 0x20 = c + 0x20"
  "bit (c :: u_char) 5 \<Longrightarrow> c AND NOT 0x20 = c - 0x20"
  using word_plus_and_or [of c "0x20"] word_plus_and_or [of "c AND NOT 0x20" "0x20"] word_split_bit [of c 5] word_and_pow [of c 5]
  by (auto simp: algebra_simps and.assoc split: if_splits)

text \<open>
  Masks and disjoint disjunctions as arithmetic: a bit expression on bytes becomes a \<open>mod\<close> and a
  sum, which linear arithmetic decides.
\<close>

lemma unat_or_high:
  assumes "unat (x :: 'a::len word) < 2 ^ k" and "2 ^ k dvd unat y"
  shows "unat (x OR y) = unat x + unat y"
proof -
  have x: "take_bit k (unat x) = unat x" using assms(1) by (simp add: take_bit_nat_eq_self_iff)
  have y: "take_bit k (unat y) = 0" using assms(2) by (simp add: take_bit_eq_mod)
  have "unat x AND unat y = take_bit k (unat x) AND unat y" by (simp add: x)
  also have "\<dots> = unat x AND take_bit k (unat y)"
    by (rule bit_eqI) (auto simp: bit_simps)
  also have "\<dots> = 0" by (simp add: y)
  finally have "unat x AND unat y = 0" .
  then show ?thesis by (simp add: unsigned_or_eq disjunctive_add_eq_or)
qed

lemma unat_and_mask: "unat (x AND mask k :: 'a::len word) = unat x mod 2 ^ k"
  by (simp only: unsigned_take_bit_eq take_bit_eq_mask [symmetric]) (simp only: take_bit_eq_mod)

lemma unat_drop_bit: "unat (drop_bit n (w :: 'a::len word)) = unat w div 2 ^ n"
  by (subst unat_drop_bit_eq) (rule drop_bit_eq_div)

lemma mask_literals:
  "(0x3F :: 'a::len word) = mask 6" "(0x1F :: 'a::len word) = mask 5"
  "(0x0F :: 'a::len word) = mask 4" "(0x07 :: 'a::len word) = mask 3"
  by (simp_all add: mask_eq_exp_minus_1)

lemma unat_and_literal:
  "unat ((x :: u_char) AND 0x3F) = unat x mod 64" "unat (x AND 0x1F) = unat x mod 32"
  "unat (x AND 0x0F) = unat x mod 16" "unat (x AND 0x07) = unat x mod 8"
  by (simp_all only: mask_literals unat_and_mask) simp_all

lemmas [word_nat] = unat_and_literal unat_sub_if'
  unat_or_high [where k = 6 and 'a = 8] unat_or_high [where k = 5 and 'a = 8]
  unat_or_high [where k = 4 and 'a = 8]

lemma high_bits_clear: "(w :: 'a::len word) < 2 ^ k \<Longrightarrow> k \<le> n \<Longrightarrow> \<not> bit w n"
  by (metis bit_take_bit_iff less_mask_eq not_le take_bit_eq_mask)

section \<open>Lists\<close>

lemma takeWhile_eq_self: "list_all P xs \<Longrightarrow> takeWhile P xs = xs"
  by (induction xs) auto

lemma dropWhile_eq_Nil: "list_all P xs \<Longrightarrow> dropWhile P xs = []"
  by (induction xs) auto

lemma range_mod:
  fixes b m k :: nat
  assumes "m * k \<le> b" and "b < m * k + m"
  shows "b mod m = b - m * k"
proof -
  have "b = (b - m * k) + m * k" using assms(1) by simp
  moreover have "b - m * k < m" using assms by simp
  ultimately show ?thesis by (metis mod_less mod_mult_self2)
qed

lemma take_bit_unat_lt: "take_bit n w = w \<Longrightarrow> unat w < 2 ^ n"
  by (metis take_bit_nat_less_exp unsigned_take_bit_eq)

lemma byte_eqI:
  assumes "bit a 0 = bit b 0" "bit a 1 = bit b 1" "bit a 2 = bit b 2" "bit a 3 = bit b 3"
    "bit a 4 = bit b 4" "bit a 5 = bit b 5" "bit a 6 = bit b 6" "bit a 7 = bit b 7"
  shows "a = (b :: u_char)"
proof (rule bit_word_eqI)
  fix n
  assume "n < LENGTH(8)"
  then have "n = 0 \<or> n = 1 \<or> n = 2 \<or> n = 3 \<or> n = 4 \<or> n = 5 \<or> n = 6 \<or> n = 7" by auto
  then show "bit a n = bit b n" using assms by auto
qed

end
