(* ===== verification/Nxt_Parse.thy ===== *)
theory Nxt_Parse
  imports Nxt_Prelude
begin

text \<open>
  The number parsers of \<^verbatim>\<open>src/nxt_parse.c\<close>.  \<^verbatim>\<open>nxt_int_parse\<close>,
  \<^verbatim>\<open>nxt_size_t_parse\<close> and \<^verbatim>\<open>nxt_off_t_parse\<close> are the same loop over three widths, so
  the loop is one function over any word type, with the cutoff constants as arguments; the
  locale \<open>decimal_cutoff\<close> states what the constants must satisfy, and each of the three
  functions interprets it at its own width and limit.
\<close>

section \<open>The limits\<close>

definition NXT_INT_T_MAX :: nat where
  "NXT_INT_T_MAX = 0x7FFFFFFF"

definition NXT_SIZE_T_MAX :: nat where
  "NXT_SIZE_T_MAX = 0x7FFFFFFFFFFFFFFF"

definition NXT_OFF_T_MAX :: nat where
  "NXT_OFF_T_MAX = 0x7FFFFFFFFFFFFFFF"

section \<open>The decimal loop\<close>

text \<open>
  \<^verbatim>\<open>val >= cutoff && (val > cutoff || c > cutlim)\<close>: the next digit would leave the range.
\<close>

definition dec_overflow :: "'w::len word \<Rightarrow> 'w word \<Rightarrow> 'w word \<Rightarrow> u_char \<Rightarrow> bool" where
  "dec_overflow cutoff cutlim val c \<longleftrightarrow>
     cutoff \<le> val \<and> (cutoff < val \<or> cutlim < ucast c)"

text \<open>
  The \<^verbatim>\<open>do ... while (length != 0)\<close> loop: the value so far in \<open>val\<close>, \<open>-1\<close> for a byte that
  is no digit, \<open>-2\<close> for an overflow; the final \<^verbatim>\<open>return val\<close> converts to the signed type.
\<close>

fun dec_loop :: "'w::len word \<Rightarrow> 'w word \<Rightarrow> nxt_str \<Rightarrow> 'w word \<Rightarrow> int" where
  "dec_loop cutoff cutlim [] val = sint val"
| "dec_loop cutoff cutlim (ch # p) val =
     (let c = ch - c_0 in
      if 9 < c then -1
      else if dec_overflow cutoff cutlim val c then -2
      else dec_loop cutoff cutlim p (val * 10 + ucast c))"

definition nxt_int_parse :: "nxt_str \<Rightarrow> int" where
  "nxt_int_parse p =
     (if length p \<noteq> 0
      then dec_loop (of_nat (NXT_INT_T_MAX div 10)) (of_nat (NXT_INT_T_MAX mod 10)) p (0 :: nxt_uint_t)
      else -1)"

definition nxt_size_t_parse :: "nxt_str \<Rightarrow> int" where
  "nxt_size_t_parse p =
     (if length p \<noteq> 0
      then dec_loop (of_nat (NXT_SIZE_T_MAX div 10)) (of_nat (NXT_SIZE_T_MAX mod 10)) p (0 :: size_t)
      else -1)"

definition nxt_off_t_parse :: "nxt_str \<Rightarrow> int" where
  "nxt_off_t_parse p =
     (if length p \<noteq> 0
      then dec_loop (of_nat (NXT_OFF_T_MAX div 10)) (of_nat (NXT_OFF_T_MAX mod 10)) p (0 :: uint64)
      else -1)"

text \<open>
  \<^verbatim>\<open>nxt_size_parse\<close>: the last byte, upper-cased by clearing bit 5, may be a unit.
  \<^verbatim>\<open>val <<= shift\<close> shifts a non-negative \<^verbatim>\<open>ssize_t\<close> that the guard keeps in range.
\<close>

definition nxt_size_parse :: "nxt_str \<Rightarrow> int" where
  "nxt_size_parse p =
     (if length p \<noteq> 0 then
        let unit = last p AND NOT 0x20;
            scaled = (\<lambda>shift :: nat.
              let val = nxt_size_t_parse (butlast p) in
              if 0 \<le> val then
                if int (drop_bit shift NXT_SIZE_T_MAX) < val then -2
                else push_bit shift val
              else val)
        in if unit = 0x47 then scaled 30
           else if unit = 0x4D then scaled 20
           else if unit = 0x4B then scaled 10
           else nxt_size_t_parse p
      else -1)"

text \<open>
  \<^verbatim>\<open>nxt_str_int_parse\<close> stops at the first byte that is no digit and leaves the string there;
  on overflow (\<open>-2\<close>) and on an empty string (\<open>-1\<close>) it leaves the string as it was.
\<close>

fun str_int_loop :: "nxt_str \<Rightarrow> nxt_uint_t \<Rightarrow> (int \<times> nxt_str) option" where
  "str_int_loop [] val = Some (sint val, [])"
| "str_int_loop (ch # p) val =
     (let c = ch - c_0 in
      if 9 < c then Some (sint val, ch # p)
      else if dec_overflow (of_nat (NXT_INT_T_MAX div 10)) (of_nat (NXT_INT_T_MAX mod 10)) val c
           then None
      else str_int_loop p (val * 10 + ucast c))"

definition nxt_str_int_parse :: "nxt_str \<Rightarrow> int \<times> nxt_str" where
  "nxt_str_int_parse s =
     (if length s = 0 then (-1, s)
      else case str_int_loop s 0 of None \<Rightarrow> (-2, s) | Some r \<Rightarrow> r)"

text \<open>
  \<^verbatim>\<open>nxt_number_parse\<close>.  The C function returns \<open>integral + (double) frac / power\<close>; the model
  returns the three words of that expression and the advanced position.  \<open>NumNone\<close> is the result
  \<open>-1\<close> and \<open>NumOver\<close> the result \<open>-2\<close>; both leave the position as it was.
\<close>

datatype number_result =
    NumNone
  | NumOver
  | Number (num_integral: nxt_uint_t) (num_frac: nxt_uint_t) (num_power: nxt_uint_t)
      (num_rest: nxt_str)

fun number_frac :: "nxt_str \<Rightarrow> nxt_uint_t \<Rightarrow> nxt_uint_t \<Rightarrow> (nxt_uint_t \<times> nxt_uint_t \<times> nxt_str) option" where
  "number_frac [] frac pw = Some (frac, pw, [])"
| "number_frac (ch # p) frac pw =
     (let c = ch - c_0;
          cutoff = of_nat (NXT_INT_T_MAX div 10);
          cutlim = of_nat (NXT_INT_T_MAX mod 10) in
      if 9 < c then Some (frac, pw, ch # p)
      else if dec_overflow cutoff cutlim frac c \<or> cutoff < pw then None
      else number_frac p (frac * 10 + ucast c) (pw * 10))"

text \<open>
  The integral loop; \<open>moved\<close> is \<^verbatim>\<open>p != *start\<close>.  A dot jumps to the fraction.
\<close>

fun number_loop :: "nxt_str \<Rightarrow> nxt_uint_t \<Rightarrow> bool \<Rightarrow> number_result" where
  "number_loop [] integral moved =
     (if moved then Number integral 0 1 [] else NumNone)"
| "number_loop (ch # p) integral moved =
     (let c = ch - c_0;
          cutoff = of_nat (NXT_INT_T_MAX div 10);
          cutlim = of_nat (NXT_INT_T_MAX mod 10) in
      if ch = c_dot then
        (if \<not> moved then NumNone
         else case number_frac p 0 1 of
                None \<Rightarrow> NumOver
              | Some (frac, pw, rest) \<Rightarrow> Number integral frac pw rest)
      else if 9 < c then (if moved then Number integral 0 1 (ch # p) else NumNone)
      else if dec_overflow cutoff cutlim integral c then NumOver
      else number_loop p (integral * 10 + ucast c) True)"

definition nxt_number_parse :: "nxt_str \<Rightarrow> number_result" where
  "nxt_number_parse p = number_loop p 0 False"

section \<open>The reference: decimal notation\<close>

definition digit_val :: "u_char \<Rightarrow> nat" where
  "digit_val c = unat (c - c_0)"

definition dec_from :: "nat \<Rightarrow> nxt_str \<Rightarrow> nat" where
  "dec_from v ds = foldl (\<lambda>v c. v * 10 + digit_val c) v ds"

lemma dec_from_Nil [simp]: "dec_from v [] = v"
  by (simp add: dec_from_def)

lemma dec_from_Cons [simp]: "dec_from v (c # ds) = dec_from (v * 10 + digit_val c) ds"
  by (simp add: dec_from_def)

definition dec_value :: "nxt_str \<Rightarrow> nat" where
  "dec_value ds = dec_from 0 ds"

lemma dec_from_ge: "v \<le> dec_from v ds"
proof (induction ds arbitrary: v)
  case (Cons c ds)
  have "v \<le> v * 10 + digit_val c" by simp
  also have "\<dots> \<le> dec_from (v * 10 + digit_val c) ds" by (rule Cons.IH)
  finally show ?case by simp
qed simp

lemma digit_val_le: "nxt_isdigit c \<Longrightarrow> digit_val c \<le> 9"
  by (simp add: digit_val_def digit_value_le)

lemma nondigit_iff: "9 < ch - c_0 \<longleftrightarrow> \<not> nxt_isdigit ch"
  by (simp add: nxt_isdigit_def not_le)

section \<open>What the cutoff constants must satisfy\<close>

locale decimal_cutoff =
  fixes cutoff cutlim :: "'w::len word" and M :: nat
  assumes cutoff: "unat cutoff = M div 10"
    and cutlim: "unat cutlim = M mod 10"
    and room: "M < 2 ^ (LENGTH('w) - 1)"
    and wide: "8 \<le> LENGTH('w)"
begin

lemma unat_digit: "unat (ucast (c :: u_char) :: 'w word) = unat c"
proof -
  have "unat c < 2 ^ LENGTH('w)"
    using power_increasing [OF wide, of "2 :: nat"] by (intro order_less_le_trans [OF byte_lt]) simp
  then show ?thesis
    by (simp add: unsigned_ucast_eq take_bit_nat_eq_self_iff)
qed

lemma M_fits: "M < 2 ^ LENGTH('w)"
proof -
  have "(2 :: nat) ^ (LENGTH('w) - 1) \<le> 2 ^ LENGTH('w)"
    by (rule power_increasing) simp_all
  then show ?thesis using room by linarith
qed

lemma overflow_iff:
  assumes "unat c \<le> 9"
  shows "dec_overflow cutoff cutlim val c \<longleftrightarrow> M < unat val * 10 + unat c"
proof -
  have "dec_overflow cutoff cutlim val c \<longleftrightarrow>
      M div 10 \<le> unat val \<and> (M div 10 < unat val \<or> M mod 10 < unat c)"
    by (simp add: dec_overflow_def word_le_nat_alt word_less_nat_alt cutoff cutlim unat_digit)
  also have "\<dots> \<longleftrightarrow> M div 10 * 10 + M mod 10 < unat val * 10 + unat c"
    using assms mod_less_divisor [of 10 M] by linarith
  also have "M div 10 * 10 + M mod 10 = M"
    by simp
  finally show ?thesis .
qed

lemma step_exact:
  assumes "unat c \<le> 9" and "\<not> dec_overflow cutoff cutlim val c"
  shows "unat (val * 10 + ucast c) = unat val * 10 + unat c"
proof -
  have le: "unat val * 10 + unat c \<le> M"
    using assms overflow_iff by simp
  have "(10 :: nat) < 2 ^ LENGTH('w)"
    using power_increasing [OF wide, of "2 :: nat"] by simp
  then have ten: "take_bit LENGTH('w) (10 :: nat) = 10"
    by (simp add: take_bit_nat_eq_self_iff)
  have "unat (val * 10) = unat val * 10"
    using le M_fits by (simp add: unat_word_ariths(2) ten)
  then show ?thesis
    using le M_fits by (simp add: unat_word_ariths(1) unat_digit)
qed

lemma sint_exact: "unat (val :: 'w word) \<le> M \<Longrightarrow> sint val = int (unat val)"
  using room by (intro sint_small) simp

text \<open>The loop from any value in range: overflow, a byte that is no digit, or the number.\<close>

lemma dec_loop_spec:
  assumes "unat val \<le> M"
  shows "dec_loop cutoff cutlim p val =
     (if M < dec_from (unat val) (takeWhile nxt_isdigit p) then -2
      else if list_all nxt_isdigit p then int (dec_from (unat val) p) else -1)"
  using assms
proof (induction p arbitrary: val)
  case Nil
  then show ?case by (simp add: sint_exact)
next
  case (Cons ch p)
  show ?case
  proof (cases "nxt_isdigit ch")
    case False
    with Cons.prems show ?thesis by (simp add: Let_def nondigit_iff)
  next
    case True
    define v where "v = unat val * 10 + digit_val ch"
    have d: "unat (ch - c_0) \<le> 9" using True by (rule digit_value_le)
    show ?thesis
    proof (cases "M < v")
      case overflow: True
      then have "dec_overflow cutoff cutlim val (ch - c_0)"
        by (simp add: overflow_iff [OF d] v_def digit_val_def)
      moreover have "M < dec_from v (takeWhile nxt_isdigit p)"
        using overflow dec_from_ge [of v "takeWhile nxt_isdigit p"] by linarith
      ultimately show ?thesis
        using True by (simp add: Let_def nondigit_iff v_def)
    next
      case in_range: False
      then have no: "\<not> dec_overflow cutoff cutlim val (ch - c_0)"
        by (simp add: overflow_iff [OF d] v_def digit_val_def)
      have v: "unat (val * 10 + ucast (ch - c_0)) = v"
        by (simp add: step_exact [OF d no] v_def digit_val_def)
      have "dec_loop cutoff cutlim p (val * 10 + ucast (ch - c_0)) =
         (if M < dec_from v (takeWhile nxt_isdigit p) then -2
          else if list_all nxt_isdigit p then int (dec_from v p) else -1)"
        using in_range by (subst Cons.IH) (simp_all add: v)
      then show ?thesis
        using True no by (simp add: Let_def nondigit_iff v_def)
    qed
  qed
qed

end

section \<open>The three widths\<close>

interpretation int_cut: decimal_cutoff
  "of_nat (NXT_INT_T_MAX div 10) :: nxt_uint_t" "of_nat (NXT_INT_T_MAX mod 10)" NXT_INT_T_MAX
  by unfold_locales (simp_all add: NXT_INT_T_MAX_def)

interpretation size_cut: decimal_cutoff
  "of_nat (NXT_SIZE_T_MAX div 10) :: size_t" "of_nat (NXT_SIZE_T_MAX mod 10)" NXT_SIZE_T_MAX
  by unfold_locales (simp_all add: NXT_SIZE_T_MAX_def)

interpretation off_cut: decimal_cutoff
  "of_nat (NXT_OFF_T_MAX div 10) :: uint64" "of_nat (NXT_OFF_T_MAX mod 10)" NXT_OFF_T_MAX
  by unfold_locales (simp_all add: NXT_OFF_T_MAX_def)

text \<open>What a decimal parser with limit \<open>M\<close> returns, on every byte string.\<close>

definition dec_result :: "nat \<Rightarrow> nxt_str \<Rightarrow> int" where
  "dec_result M p =
     (if p = [] then -1
      else if M < dec_value (takeWhile nxt_isdigit p) then -2
      else if list_all nxt_isdigit p then int (dec_value p) else -1)"

lemma nxt_int_parse_result: "nxt_int_parse p = dec_result NXT_INT_T_MAX p"
  by (simp add: nxt_int_parse_def dec_result_def dec_value_def int_cut.dec_loop_spec
      del: of_nat_mod of_nat_div)

lemma nxt_size_t_parse_result: "nxt_size_t_parse p = dec_result NXT_SIZE_T_MAX p"
  by (simp add: nxt_size_t_parse_def dec_result_def dec_value_def size_cut.dec_loop_spec)

lemma nxt_off_t_parse_result: "nxt_off_t_parse p = dec_result NXT_OFF_T_MAX p"
  by (simp add: nxt_off_t_parse_def dec_result_def dec_value_def off_cut.dec_loop_spec)

text \<open>
  C33. Each of the three decimal parsers returns, on every byte string, the exact value of an
  all-digit string that fits its type, \<open>-2\<close> when the leading digits already exceed the limit,
  and \<open>-1\<close> otherwise: the cutoff test is neither early nor late, and no step wraps around.
\<close>

theorem decimal_parsers_exact:
  "nxt_int_parse p = dec_result NXT_INT_T_MAX p
   \<and> nxt_size_t_parse p = dec_result NXT_SIZE_T_MAX p
   \<and> nxt_off_t_parse p = dec_result NXT_OFF_T_MAX p"
  by (simp add: nxt_int_parse_result nxt_size_t_parse_result nxt_off_t_parse_result)

lemma dec_result_bounds: "-2 \<le> dec_result M p" "dec_result M p \<le> int M"
  by (simp_all add: dec_result_def takeWhile_eq_self)

lemma dec_result_nonneg:
  "0 \<le> dec_result M p \<Longrightarrow> p \<noteq> [] \<and> list_all nxt_isdigit p \<and> dec_result M p = int (dec_value p)"
  by (auto simp: dec_result_def split: if_splits)

section \<open>Sizes with a unit\<close>

definition unit_shift :: "u_char \<Rightarrow> nat option" where
  "unit_shift u =
     (if u = 0x47 \<or> u = 0x67 then Some 30
      else if u = 0x4D \<or> u = 0x6D then Some 20
      else if u = 0x4B \<or> u = 0x6B then Some 10 else None)"

text \<open>Clearing bit 5 (\<^verbatim>\<open>& ~0x20\<close>, which the simplifier writes \<open>- 33\<close>) is upper-casing.\<close>

lemma unit_case:
  "(u AND - 33 = (0x47 :: u_char)) = (u = 0x47 \<or> u = 0x67)"
  "(u AND - 33 = (0x4D :: u_char)) = (u = 0x4D \<or> u = 0x6D)"
  "(u AND - 33 = (0x4B :: u_char)) = (u = 0x4B \<or> u = 0x6B)"
  by (auto dest: and_clear_bit5)

text \<open>The value a size string denotes, over unbounded integers.\<close>

definition size_result :: "nxt_str \<Rightarrow> int" where
  "size_result p =
     (if p = [] then -1
      else case unit_shift (last p) of
        None \<Rightarrow> dec_result NXT_SIZE_T_MAX p
      | Some k \<Rightarrow>
          let v = dec_result NXT_SIZE_T_MAX (butlast p) in
          if v < 0 then v
          else if int NXT_SIZE_T_MAX < v * 2 ^ k then -2 else v * 2 ^ k)"

lemma scaled_exact:
  assumes "0 \<le> (v :: int)"
  shows "(if int (drop_bit k NXT_SIZE_T_MAX) < v then -2 else push_bit k v) =
     (if int NXT_SIZE_T_MAX < v * 2 ^ k then -2 else v * 2 ^ k)"
proof -
  obtain n where n: "v = int n"
    using assms by (rule nonneg_int_cases)
  have "int (drop_bit k NXT_SIZE_T_MAX) < v \<longleftrightarrow> NXT_SIZE_T_MAX div 2 ^ k < n"
    by (simp add: n drop_bit_eq_div del: of_nat_div)
  also have "\<dots> \<longleftrightarrow> NXT_SIZE_T_MAX < n * 2 ^ k"
    by (simp add: div_less_iff_less_mult)
  also have "\<dots> \<longleftrightarrow> int NXT_SIZE_T_MAX < v * 2 ^ k"
    using of_nat_less_iff [of NXT_SIZE_T_MAX "n * 2 ^ k", where 'a = int] by (simp add: n)
  finally show ?thesis by (simp add: push_bit_eq_mult)
qed


section \<open>Parsing a prefix\<close>

lemma str_int_loop_spec:
  assumes "unat val \<le> NXT_INT_T_MAX"
  shows "str_int_loop p val =
     (if NXT_INT_T_MAX < dec_from (unat val) (takeWhile nxt_isdigit p) then None
      else Some (int (dec_from (unat val) (takeWhile nxt_isdigit p)), dropWhile nxt_isdigit p))"
  using assms
proof (induction p arbitrary: val)
  case Nil
  then show ?case by (simp add: int_cut.sint_exact)
next
  case (Cons ch p)
  show ?case
  proof (cases "nxt_isdigit ch")
    case False
    with Cons.prems show ?thesis by (simp add: Let_def nondigit_iff int_cut.sint_exact)
  next
    case True
    note d = digit_value_le [OF True]
    define v where "v = unat val * 10 + digit_val ch"
    show ?thesis
    proof (cases "NXT_INT_T_MAX < v")
      case overflow: True
      then have "NXT_INT_T_MAX < dec_from v (takeWhile nxt_isdigit p)"
        using dec_from_ge [of v "takeWhile nxt_isdigit p"] by linarith
      with overflow True show ?thesis
        by (simp add: Let_def nondigit_iff int_cut.overflow_iff [OF d] v_def digit_val_def)
    next
      case False
      then have no: "\<not> dec_overflow (of_nat (NXT_INT_T_MAX div 10)) (of_nat (NXT_INT_T_MAX mod 10))
          val (ch - c_0)"
        by (simp add: int_cut.overflow_iff [OF d] v_def digit_val_def)
      have "unat (val * 10 + ucast (ch - c_0)) = v"
        by (simp add: int_cut.step_exact [OF d no] v_def digit_val_def)
      with False True no show ?thesis
        by (simp add: Let_def nondigit_iff Cons.IH v_def)
    qed
  qed
qed

text \<open>
  C35. \<^verbatim>\<open>nxt_str_int_parse\<close> consumes exactly the leading digits: it returns their value and the
  rest of the string, and on overflow (and on an empty string) leaves the string untouched.
  With no leading digit it returns \<open>0\<close> and consumes nothing.
\<close>

theorem nxt_str_int_parse_prefix:
  "nxt_str_int_parse s =
     (if s = [] then (-1, s)
      else if NXT_INT_T_MAX < dec_value (takeWhile nxt_isdigit s) then (-2, s)
      else (int (dec_value (takeWhile nxt_isdigit s)), dropWhile nxt_isdigit s))"
  by (simp add: nxt_str_int_parse_def str_int_loop_spec dec_value_def)

lemma number_frac_spec:
  assumes "unat frac < 10 ^ k" and "unat pw = 10 ^ k" and "k \<le> 9"
  shows "number_frac p frac pw =
     (let fs = takeWhile nxt_isdigit p in
      if 9 < k + length fs then None
      else Some (of_nat (dec_from (unat frac) fs), of_nat (10 ^ (k + length fs)), dropWhile nxt_isdigit p))"
  using assms
proof (induction p arbitrary: frac pw k)
  case Nil
  have "pw = of_nat (10 ^ k)"
    using Nil.prems(2) by (metis of_nat_unat ucast_id)
  with Nil.prems(3) show ?case by simp
next
  case (Cons ch p)
  show ?case
  proof (cases "nxt_isdigit ch")
    case False
    have "pw = of_nat (10 ^ k)"
      using Cons.prems(2) by (metis of_nat_unat ucast_id)
    with False Cons.prems(3) show ?thesis by (simp add: Let_def nondigit_iff)
  next
    case True
    note d = digit_value_le [OF True]
    have cut: "(of_nat (NXT_INT_T_MAX div 10) :: nxt_uint_t) < pw \<longleftrightarrow> 214748364 < (10 :: nat) ^ k"
      by (simp add: NXT_INT_T_MAX_def word_less_nat_alt Cons.prems(2))
    show ?thesis
    proof (cases "k = 9")
      case nine: True
      with True cut show ?thesis by (simp add: Let_def nondigit_iff)
    next
      case False
      then have k: "k \<le> 8" using Cons.prems(3) by simp
      then have pk: "(10 :: nat) ^ k \<le> 10 ^ 8" by (intro power_increasing) simp_all
      have "unat frac * 10 + unat (ch - c_0) \<le> NXT_INT_T_MAX"
        using pk d Cons.prems(1) by (simp add: NXT_INT_T_MAX_def)
      then have no: "\<not> dec_overflow (of_nat (NXT_INT_T_MAX div 10)) (of_nat (NXT_INT_T_MAX mod 10))
          frac (ch - c_0)"
        by (simp add: int_cut.overflow_iff [OF d])
      have f: "unat (frac * 10 + ucast (ch - c_0)) = unat frac * 10 + digit_val ch"
        by (simp add: int_cut.step_exact [OF d no] digit_val_def)
      have pw: "unat (pw * 10) = 10 ^ Suc k"
        using pk by (simp add: unat_word_ariths Cons.prems(2))
      have "unat frac * 10 + digit_val ch < 10 ^ Suc k"
        using Cons.prems(1) digit_val_le [OF True] by simp
      then have IH: "number_frac p (frac * 10 + ucast (ch - c_0)) (pw * 10) =
          (let fs = takeWhile nxt_isdigit p in
           if 9 < Suc k + length fs then None
           else Some (of_nat (dec_from (unat frac * 10 + digit_val ch) fs),
                      of_nat (10 ^ (Suc k + length fs)), dropWhile nxt_isdigit p))"
        using k pw f by (subst Cons.IH [where k = "Suc k"]) (simp_all add: f Let_def)
      have "\<not> (of_nat (NXT_INT_T_MAX div 10) :: nxt_uint_t) < pw"
        using cut pk by simp
      with True no IH show ?thesis by (simp add: Let_def nondigit_iff)
    qed
  qed
qed


text \<open>The decimal fraction that leads a string, over unbounded numbers.\<close>

definition number_spec :: "nxt_str \<Rightarrow> number_result" where
  "number_spec p =
     (let ds = takeWhile nxt_isdigit p; r = dropWhile nxt_isdigit p in
      if NXT_INT_T_MAX < dec_value ds then NumOver
      else if ds = [] then NumNone
      else if r = [] \<or> hd r \<noteq> c_dot then Number (of_nat (dec_value ds)) 0 1 r
      else let fs = takeWhile nxt_isdigit (tl r) in
        if 9 < length fs then NumOver
        else Number (of_nat (dec_value ds)) (of_nat (dec_value fs)) (of_nat (10 ^ length fs))
               (dropWhile nxt_isdigit (tl r)))"

lemma dot_no_digit [simp]: "\<not> nxt_isdigit c_dot"
  by (simp add: nxt_isdigit_def)

lemma number_loop_spec:
  assumes "unat val \<le> NXT_INT_T_MAX"
  shows "number_loop p val moved =
     (let ds = takeWhile nxt_isdigit p; r = dropWhile nxt_isdigit p in
      if NXT_INT_T_MAX < dec_from (unat val) ds then NumOver
      else if ds = [] \<and> \<not> moved then NumNone
      else if r = [] \<or> hd r \<noteq> c_dot then Number (of_nat (dec_from (unat val) ds)) 0 1 r
      else let fs = takeWhile nxt_isdigit (tl r) in
        if 9 < length fs then NumOver
        else Number (of_nat (dec_from (unat val) ds)) (of_nat (dec_value fs)) (of_nat (10 ^ length fs))
               (dropWhile nxt_isdigit (tl r)))"
  using assms
proof (induction p arbitrary: val moved)
  case Nil
  then show ?case by simp
next
  case (Cons ch p)
  consider "ch = c_dot" | "ch \<noteq> c_dot" "\<not> nxt_isdigit ch" | "ch \<noteq> c_dot" "nxt_isdigit ch"
    by blast
  then show ?case
  proof cases
    case 1
    have "number_frac p 0 1 =
        (let fs = takeWhile nxt_isdigit p in
         if 9 < length fs then None
         else Some (of_nat (dec_value fs), of_nat (10 ^ length fs), dropWhile nxt_isdigit p))"
      by (simp add: number_frac_spec [where k = 0] dec_value_def Let_def)
    with 1 Cons.prems show ?thesis by (simp add: Let_def)
  next
    case 2
    with Cons.prems show ?thesis by (simp add: Let_def nondigit_iff)
  next
    case 3
    note d = digit_value_le [OF 3(2)]
    define v where "v = unat val * 10 + digit_val ch"
    show ?thesis
    proof (cases "NXT_INT_T_MAX < v")
      case True
      then have "NXT_INT_T_MAX < dec_from v (takeWhile nxt_isdigit p)"
        using dec_from_ge [of v "takeWhile nxt_isdigit p"] by linarith
      with True 3 show ?thesis
        by (simp add: Let_def nondigit_iff int_cut.overflow_iff [OF d] v_def digit_val_def)
    next
      case False
      then have no: "\<not> dec_overflow (of_nat (NXT_INT_T_MAX div 10)) (of_nat (NXT_INT_T_MAX mod 10))
          val (ch - c_0)"
        by (simp add: int_cut.overflow_iff [OF d] v_def digit_val_def)
      have "unat (val * 10 + ucast (ch - c_0)) = v"
        by (simp add: int_cut.step_exact [OF d no] v_def digit_val_def)
      with False 3 no show ?thesis
        by (simp add: Let_def nondigit_iff Cons.IH v_def)
    qed
  qed
qed

lemma dec_from_lt: "list_all nxt_isdigit ds \<Longrightarrow> dec_from v ds < (v + 1) * 10 ^ length ds"
proof (induction ds arbitrary: v)
  case (Cons c ds)
  then have "dec_from (v * 10 + digit_val c) ds < (v * 10 + digit_val c + 1) * 10 ^ length ds"
    by simp
  also have "\<dots> \<le> (v * 10 + 10) * 10 ^ length ds"
    using Cons.prems digit_val_le [of c] by (intro mult_le_mono1) simp
  finally show ?case by (simp add: algebra_simps)
qed simp

text \<open>
  C36. \<^verbatim>\<open>nxt_number_parse\<close> reads the leading decimal number exactly: the integral and the
  fraction digits as numbers, the power of ten of the fraction, and the rest of the input; it
  refuses a missing integral part, an integral part over \<^verbatim>\<open>NXT_INT_T_MAX\<close> and a fraction of
  more than nine digits.  No 32-bit word wraps around, so the fraction is below its power.
\<close>

theorem nxt_number_parse_exact:
  "nxt_number_parse p = number_spec p
   \<and> (case nxt_number_parse p of
        Number i f w _ \<Rightarrow> unat i = dec_value (takeWhile nxt_isdigit p) \<and> unat f < unat w
      | _ \<Rightarrow> True)"
proof -
  have eq: "nxt_number_parse p = number_spec p"
    by (simp add: nxt_number_parse_def number_spec_def number_loop_spec dec_value_def Let_def)
  have "unat (of_nat n :: nxt_uint_t) = n" if "n \<le> NXT_INT_T_MAX" for n
    using that by (simp add: unat_of_nat NXT_INT_T_MAX_def)
  moreover have "unat (of_nat (dec_value fs) :: nxt_uint_t) < unat (of_nat (10 ^ length fs) :: nxt_uint_t)"
    if "list_all nxt_isdigit fs" "length fs \<le> 9" for fs
  proof -
    have "dec_value fs < 10 ^ length fs"
      using dec_from_lt [OF that(1), of 0] by (simp add: dec_value_def)
    moreover have "(10 :: nat) ^ length fs \<le> 10 ^ 9"
      using that(2) by (intro power_increasing) simp_all
    ultimately show ?thesis by (simp add: unat_of_nat del: of_nat_power)
  qed
  moreover have "list_all nxt_isdigit (takeWhile nxt_isdigit q)" for q
    by (auto simp: list_all_iff dest: set_takeWhileD)
  ultimately have "case number_spec p of
        Number i f w _ \<Rightarrow> unat i = dec_value (takeWhile nxt_isdigit p) \<and> unat f < unat w
      | _ \<Rightarrow> True"
    by (simp add: number_spec_def Let_def not_less)
  with eq show ?thesis by simp
qed

end
