(* ===== verification/Nxt_Utf8.thy ===== *)
theory Nxt_Utf8
  imports Nxt_Prelude
begin

text \<open>
  UTF-8 encoding, decoding, validation and sanitizing: \<^verbatim>\<open>src/nxt_utf8.c\<close>.  A position in
  the input is the list of bytes that remain.  The decoder returns the code point and the
  advanced position, or \<open>utf8_invalid\<close> and the position it was given.  The locale \<open>byte_codec\<close>
  states the interface between the codec and the loops over whole strings; the codec of the
  sources interprets it.
\<close>

section \<open>Encoding\<close>

text \<open>\<open>None\<close> is the \<^verbatim>\<open>NULL\<close> that \<^verbatim>\<open>nxt_utf8_encode\<close> returns above \<^verbatim>\<open>0x10FFFF\<close>.\<close>

definition nxt_utf8_encode :: "uint32 \<Rightarrow> nxt_str option" where
  "nxt_utf8_encode u =
     (if u < 0x80 then Some [ucast (u AND 0xFF)]
      else if u < 0x0800 then
        Some [ucast (drop_bit 6 u OR 0xC0),
              ucast ((u AND 0x3F) OR 0x80)]
      else if u < 0x10000 then
        Some [ucast (drop_bit 12 u OR 0xE0),
              ucast ((drop_bit 6 u AND 0x3F) OR 0x80),
              ucast ((u AND 0x3F) OR 0x80)]
      else if u < 0x110000 then
        Some [ucast (drop_bit 18 u OR 0xF0),
              ucast ((drop_bit 12 u AND 0x3F) OR 0x80),
              ucast ((drop_bit 6 u AND 0x3F) OR 0x80),
              ucast ((u AND 0x3F) OR 0x80)]
      else None)"

section \<open>Decoding\<close>

definition utf8_invalid :: uint32 where
  "utf8_invalid = 0xFFFFFFFF"

text \<open>The loop over the \<open>n\<close> continuation bytes; the caller has checked that they are there.\<close>

fun utf8_cont :: "nat \<Rightarrow> uint32 \<Rightarrow> nxt_str \<Rightarrow> (uint32 \<times> nxt_str) option" where
  "utf8_cont 0 u p = Some (u, p)"
| "utf8_cont (Suc n) u [] = None"
| "utf8_cont (Suc n) u (ch # p) =
     (let c = ch - 0x80 in
      if 0x3F < c then None
      else utf8_cont n (push_bit 6 u OR ucast c) p)"

text \<open>
  The second half of \<^verbatim>\<open>nxt_utf8_decode2\<close>: \<open>p\<close> is the input after the lead byte, \<open>u\<close> the
  payload bits of the lead byte.
\<close>

definition utf8_multi :: "nxt_str \<Rightarrow> nxt_str \<Rightarrow> uint32 \<Rightarrow> uint32 \<Rightarrow> nat \<Rightarrow> uint32 \<times> nxt_str" where
  "utf8_multi start p u overlong n =
     (if n \<le> length p then
        case utf8_cont n u p of
          None \<Rightarrow> (utf8_invalid, start)
        | Some (u, q) \<Rightarrow>
            if overlong < u \<and> u < 0x110000 \<and> \<not> (0xD800 \<le> u \<and> u \<le> 0xDFFF)
            then (u, q) else (utf8_invalid, start)
      else (utf8_invalid, start))"

definition nxt_utf8_decode2 :: "nxt_str \<Rightarrow> uint32 \<times> nxt_str" where
  "nxt_utf8_decode2 start =
     (case start of
        [] \<Rightarrow> (utf8_invalid, start)
      | b # p \<Rightarrow>
          let u = ucast b :: uint32
          in if 0xE0 \<le> u then
               if 0xF0 \<le> u then
                 if 0xF4 < u then (utf8_invalid, start)
                 else utf8_multi start p (u AND 0x07) 0x00FFFF 3
               else utf8_multi start p (u AND 0x0F) 0x07FF 2
             else if 0xC2 \<le> u then utf8_multi start p (u AND 0x1F) 0x007F 1
             else (utf8_invalid, start))"

text \<open>
  The sources read \<^verbatim>\<open>**start\<close> first and are called with \<^verbatim>\<open>start < end\<close> only, so the
  empty list is not an input of the C function.
\<close>

definition nxt_utf8_decode :: "nxt_str \<Rightarrow> uint32 \<times> nxt_str" where
  "nxt_utf8_decode start =
     (case start of
        [] \<Rightarrow> (utf8_invalid, start)
      | b # p \<Rightarrow> let u = ucast b :: uint32 in if u < 0x80 then (u, p) else nxt_utf8_decode2 start)"

section \<open>The codec\<close>

definition utf8_char :: "uint32 \<Rightarrow> bool" where
  "utf8_char u \<longleftrightarrow> u < 0x110000 \<and> \<not> (0xD800 \<le> u \<and> u \<le> 0xDFFF)"

text \<open>The continuation bytes of a code point, most significant first.\<close>

fun utf8_tail :: "nat \<Rightarrow> uint32 \<Rightarrow> nxt_str" where
  "utf8_tail 0 u = []"
| "utf8_tail (Suc n) u = (ucast (drop_bit (6 * n) u AND 0x3F) OR 0x80) # utf8_tail n u"

lemma length_utf8_tail [simp]: "length (utf8_tail n u) = n"
  by (induction n) simp_all

lemma utf8_tail_numeral:
  "utf8_tail 1 u = [ucast (u AND 0x3F) OR 0x80]"
  "utf8_tail 2 u = [ucast (drop_bit 6 u AND 0x3F) OR 0x80, ucast (u AND 0x3F) OR 0x80]"
  "utf8_tail 3 u = [ucast (drop_bit 12 u AND 0x3F) OR 0x80, ucast (drop_bit 6 u AND 0x3F) OR 0x80,
     ucast (u AND 0x3F) OR 0x80]"
  by (simp_all add: numeral_2_eq_2 numeral_3_eq_3)

lemma nxt_utf8_encode_tail:
  "nxt_utf8_encode u =
     (if u < 0x80 then Some [ucast u]
      else if u < 0x0800 then Some ((ucast (drop_bit 6 u) OR 0xC0) # utf8_tail 1 u)
      else if u < 0x10000 then Some ((ucast (drop_bit 12 u) OR 0xE0) # utf8_tail 2 u)
      else if u < 0x110000 then Some ((ucast (drop_bit 18 u) OR 0xF0) # utf8_tail 3 u)
      else None)"
proof -
  have mask8: "(0xFF :: uint32) = mask 8" by (simp add: mask_eq_exp_minus_1)
  have *: "ucast (u AND 0xFF) = (ucast u :: u_char)"
    unfolding mask8 by (rule bit_word_eqI) (simp add: bit_simps)
  show ?thesis
    by (simp add: nxt_utf8_encode_def * utf8_tail_numeral unsigned_or_eq del: utf8_tail.simps One_nat_def)
qed

text \<open>One continuation byte carries six bits of payload, below the marker bit.\<close>

lemma cont_byte:
  "\<not> 0x3F < (c :: u_char) \<Longrightarrow> (c OR 0x80) - 0x80 = c"
  "\<not> 0x3F < (ch :: u_char) - 0x80 \<Longrightarrow> (ch - 0x80) OR 0x80 = ch"
  by (auto simp: word_nat split: if_splits)

lemma payload_le: "\<not> 0x3F < (ucast ((x :: uint32) AND 0x3F) :: u_char)"
proof -
  have "(ucast (x AND 0x3F) :: u_char) = ucast x AND 0x3F"
    by (rule bit_word_eqI) (simp add: bit_simps mask_literals)
  also have "\<dots> \<le> 0x3F" by (rule word_and_le1)
  finally show ?thesis by (simp add: not_less)
qed

lemma ucast_payload: "ucast (ucast ((x :: uint32) AND 0x3F) :: u_char) = x AND 0x3F"
  by (rule bit_word_eqI) (auto simp: bit_simps mask_literals)

lemma push_drop: "push_bit 6 (drop_bit (6 + m) u) OR (drop_bit m u AND 0x3F) = drop_bit m (u :: uint32)"
  by (rule bit_word_eqI) (auto simp: bit_simps mask_literals)

lemma utf8_cont_tail: "utf8_cont n (drop_bit (6 * n) u) (utf8_tail n u @ r) = Some (u, r)"
proof (induction n)
  case (Suc n)
  have "6 * Suc n = 6 + 6 * n" by simp
  then have "utf8_cont (Suc n) (drop_bit (6 * Suc n) u) (utf8_tail (Suc n) u @ r) =
      utf8_cont n (push_bit 6 (drop_bit (6 + 6 * n) u) OR (drop_bit (6 * n) u AND 0x3F)) (utf8_tail n u @ r)"
    by (simp add: cont_byte payload_le ucast_payload)
  also have "\<dots> = Some (u, r)"
    by (simp only: push_drop Suc.IH)
  finally show ?case .
qed simp

lemma payload_bits: "\<not> 0x3F < (c :: u_char) \<Longrightarrow> bit c n \<Longrightarrow> n < 6"
  using high_bits_clear [of c 6 n] by (force simp: word_less_nat_alt)

lemma drop_push:
  assumes c: "\<And>i. bit (c :: u_char) i \<Longrightarrow> i < 6" and v: "\<And>i. bit v i \<Longrightarrow> i < 26"
  shows "drop_bit 6 (push_bit 6 v OR ucast c) = (v :: uint32)"
    and "ucast ((push_bit 6 v OR ucast c) AND 0x3F) = c"
proof -
  have c': "\<not> bit c (6 + i)" for i using c [of "6 + i"] by auto
  show "drop_bit 6 (push_bit 6 v OR ucast c) = v"
    by (rule bit_word_eqI) (use v in \<open>auto simp: bit_simps c'\<close>)
  show "ucast ((push_bit 6 v OR ucast c) AND 0x3F) = c"
    by (rule bit_word_eqI) (use c in \<open>auto simp: bit_simps mask_literals\<close>)
qed

text \<open>
  What the continuation loop accepts is a sequence of continuation bytes of its result; \<open>k\<close> bits
  of the lead byte and six more for each continuation byte fit the 32-bit accumulator.
\<close>

lemma utf8_cont_sound:
  assumes "utf8_cont n v s = Some (u, r)" and "\<And>i. bit v i \<Longrightarrow> i < k" and "k + 6 * n \<le> 32"
  shows "s = utf8_tail n u @ r \<and> drop_bit (6 * n) u = v"
  using assms
proof (induction n arbitrary: v s k)
  case (Suc n)
  from Suc.prems(1) obtain ch p where s: "s = ch # p" by (cases s) auto
  define c where "c = ch - 0x80"
  define w where "w = push_bit 6 v OR ucast c"
  from Suc.prems(1) have c: "\<not> 0x3F < c" and cont: "utf8_cont n w p = Some (u, r)"
    by (auto simp: s Let_def c_def w_def split: if_splits)
  note cb = payload_bits [OF c]
  have v26: "i < 26" if "bit v i" for i
    using Suc.prems(2) [OF that] Suc.prems(3) by simp
  have w: "i < k + 6" if "bit w i" for i
    using that Suc.prems(2) [of "i - 6"] cb [of i] by (auto simp: w_def bit_simps)
  have IH: "p = utf8_tail n u @ r" "drop_bit (6 * n) u = w"
    using Suc.IH [OF cont w] Suc.prems(3) by auto
  have "drop_bit (6 * Suc n) u = drop_bit 6 w"
    by (simp add: IH(2)[symmetric] add.commute)
  also have "\<dots> = v" unfolding w_def by (rule drop_push(1) [OF cb v26])
  finally have d: "drop_bit (6 * Suc n) u = v" .
  have "ucast (w AND 0x3F) = c" unfolding w_def by (rule drop_push(2) [OF cb v26])
  moreover have "c OR 0x80 = ch" using c unfolding c_def by (rule cont_byte(2))
  ultimately show ?case
    using IH d by (simp add: s)
qed simp

subsection \<open>Lead bytes\<close>

lemma lead_bytes:
  "h < 0x20 \<Longrightarrow> 2 \<le> h \<Longrightarrow>
     \<not> h OR 0xC0 < 0x80 \<and> \<not> 0xE0 \<le> h OR 0xC0 \<and> 0xC2 \<le> h OR 0xC0 \<and> (h OR 0xC0) AND 0x1F = (h :: u_char)"
  "h < 0x10 \<Longrightarrow>
     \<not> h OR 0xE0 < 0x80 \<and> 0xE0 \<le> h OR 0xE0 \<and> \<not> 0xF0 \<le> h OR 0xE0 \<and> (h OR 0xE0) AND 0x0F = h"
  "h \<le> 4 \<Longrightarrow>
     \<not> h OR 0xF0 < 0x80 \<and> 0xF0 \<le> h OR 0xF0 \<and> \<not> 0xF4 < h OR 0xF0 \<and> (h OR 0xF0) AND 0x07 = h"
  "0xC2 \<le> b \<Longrightarrow> \<not> 0xE0 \<le> b \<Longrightarrow> (b AND 0x1F) OR 0xC0 = (b :: u_char) \<and> 2 \<le> b AND 0x1F"
  "0xE0 \<le> b \<Longrightarrow> \<not> 0xF0 \<le> b \<Longrightarrow> (b AND 0x0F) OR 0xE0 = b"
  "0xF0 \<le> b \<Longrightarrow> \<not> 0xF4 < b \<Longrightarrow> (b AND 0x07) OR 0xF0 = b"
  using range_mod [of 32 6 "unat h + 192"] range_mod [of 16 14 "unat h + 224"]
    range_mod [of 8 30 "unat h + 240"] range_mod [of 32 6 "unat b"] range_mod [of 16 14 "unat b"]
    range_mod [of 8 30 "unat b"]
  by (simp_all add: word_nat)

text \<open>The comparisons of the decoder are on the byte itself.\<close>

lemma ucast_byte_cmp:
  "((ucast (b :: u_char) :: uint32) < numeral k) = (unat b < unat (numeral k :: uint32))"
  "((numeral k :: uint32) < ucast b) = (unat (numeral k :: uint32) < unat b)"
  "((numeral k :: uint32) \<le> ucast b) = (unat (numeral k :: uint32) \<le> unat b)"
  by (simp_all add: word_less_nat_alt word_le_nat_alt del: unsigned_numeral)

lemma ucast_byte_and:
  "ucast (b :: u_char) AND 0x1F = (ucast (b AND 0x1F) :: uint32)"
  "ucast b AND 0x0F = (ucast (b AND 0x0F) :: uint32)"
  "ucast b AND 0x07 = (ucast (b AND 0x07) :: uint32)"
  by (simp_all add: unsigned_and_eq)

lemma nxt_utf8_decode_byte:
  "nxt_utf8_decode (b # p) =
     (if b < 0x80 then (ucast b, p)
      else if 0xE0 \<le> b then
        if 0xF0 \<le> b then
          if 0xF4 < b then (utf8_invalid, b # p)
          else utf8_multi (b # p) p (ucast (b AND 0x07)) 0x00FFFF 3
        else utf8_multi (b # p) p (ucast (b AND 0x0F)) 0x07FF 2
      else if 0xC2 \<le> b then utf8_multi (b # p) p (ucast (b AND 0x1F)) 0x007F 1
      else (utf8_invalid, b # p))"
  by (simp add: nxt_utf8_decode_def nxt_utf8_decode2_def Let_def ucast_byte_cmp ucast_byte_and
      word_less_nat_alt word_le_nat_alt)

subsection \<open>Decoding inverts encoding, and only that\<close>

lemma utf8_char_valid: "utf8_char u \<Longrightarrow> u \<noteq> utf8_invalid"
  by (auto simp: utf8_char_def utf8_invalid_def)

lemma utf8_multi_tail:
  assumes "drop_bit (6 * n) u = h" and "overlong < u" and "utf8_char u"
  shows "utf8_multi start (utf8_tail n u @ r) h overlong n = (u, r)"
  using assms utf8_cont_tail [of n u r] by (simp add: utf8_multi_def utf8_char_def)

text \<open>The lead byte holds the top bits of the code point, shifted down to a byte.\<close>

lemma lead_payload:
  assumes "unat u < 2 ^ (k + m)" and "k \<le> 7"
  shows "ucast (ucast (drop_bit m u) :: u_char) = (drop_bit m u :: uint32)"
    and "unat (ucast (drop_bit m u) :: u_char) = unat u div 2 ^ m"
proof -
  have u: "unat u < 2 ^ k * 2 ^ m"
    using assms(1) by (simp add: power_add)
  then have "unat u div 2 ^ m < 2 ^ k"
    by (simp add: div_less_iff_less_mult)
  also have "\<dots> \<le> (2 :: nat) ^ 7" using assms(2) by (intro power_increasing) simp_all
  finally have small: "unat u div 2 ^ m < 256" by simp
  have d: "unat (drop_bit m u) = unat u div 2 ^ m"
    by (rule unat_drop_bit)
  show 2: "unat (ucast (drop_bit m u) :: u_char) = unat u div 2 ^ m"
    using small by (simp only: unsigned_ucast_eq d take_bit_nat_eq_self_iff) simp
  show "ucast (ucast (drop_bit m u) :: u_char) = (drop_bit m u :: uint32)"
    unfolding word_unat_eq_iff unat_ucast_byte32 2 by (rule d [symmetric])
qed

lemma decode_encode:
  assumes "utf8_char u" and "nxt_utf8_encode u = Some bs"
  shows "nxt_utf8_decode (bs @ r) = (u, r)"
proof -
  consider (1) "u < 0x80" "bs = [ucast u]"
    | (2) "\<not> u < 0x80" "u < 0x0800" "bs = (ucast (drop_bit 6 u) OR 0xC0) # utf8_tail 1 u"
    | (3) "\<not> u < 0x0800" "u < 0x10000" "bs = (ucast (drop_bit 12 u) OR 0xE0) # utf8_tail 2 u"
    | (4) "\<not> u < 0x10000" "u < 0x110000" "bs = (ucast (drop_bit 18 u) OR 0xF0) # utf8_tail 3 u"
    using assms(2) by (auto simp: nxt_utf8_encode_tail split: if_splits)
  then show ?thesis
  proof cases
    case 1
    then have "ucast (ucast u :: u_char) = u" "unat (ucast u :: u_char) = unat u"
      using lead_payload [of u 7 0] by (simp_all add: word_less_nat_alt)
    with 1 show ?thesis by (simp add: nxt_utf8_decode_byte word_less_nat_alt)
  next
    case 2
    define h where "h = (ucast (drop_bit 6 u) :: u_char)"
    have h: "ucast h = drop_bit 6 u" "unat h = unat u div 64"
      using 2 lead_payload [of u 5 6] by (simp_all add: h_def word_less_nat_alt)
    have "h < 0x20" "2 \<le> h"
      using 2 h(2) by (simp_all add: word_less_nat_alt word_le_nat_alt)
    note lead = lead_bytes(1) [OF this]
    have "nxt_utf8_decode (bs @ r) = utf8_multi ((h OR 0xC0) # utf8_tail 1 u @ r) (utf8_tail 1 u @ r) (ucast h) 0x7F 1"
      using lead by (simp add: 2 nxt_utf8_decode_byte h_def del: utf8_tail.simps One_nat_def)
    also have "\<dots> = (u, r)"
      using 2 assms(1) h by (intro utf8_multi_tail) (simp_all add: word_less_nat_alt)
    finally show ?thesis .
  next
    case 3
    define h where "h = (ucast (drop_bit 12 u) :: u_char)"
    have h: "ucast h = drop_bit 12 u" "unat h = unat u div 4096"
      using 3 lead_payload [of u 4 12] by (simp_all add: h_def word_less_nat_alt)
    have "h < 0x10"
      using 3 h(2) by (simp add: word_less_nat_alt)
    note lead = lead_bytes(2) [OF this]
    have "nxt_utf8_decode (bs @ r) = utf8_multi ((h OR 0xE0) # utf8_tail 2 u @ r) (utf8_tail 2 u @ r) (ucast h) 0x7FF 2"
      using lead by (simp add: 3 nxt_utf8_decode_byte h_def del: utf8_tail.simps)
    also have "\<dots> = (u, r)"
      using 3 assms(1) h by (intro utf8_multi_tail) (simp_all add: word_less_nat_alt)
    finally show ?thesis .
  next
    case 4
    define h where "h = (ucast (drop_bit 18 u) :: u_char)"
    have h: "ucast h = drop_bit 18 u" "unat h = unat u div 262144"
      using 4 lead_payload [of u 3 18] by (simp_all add: h_def word_less_nat_alt)
    have "h \<le> 4"
      using 4 h(2) by (simp add: word_less_nat_alt word_le_nat_alt)
    note lead = lead_bytes(3) [OF this]
    have "0xE0 \<le> h OR 0xF0" using lead by (auto simp: word_le_nat_alt)
    with lead have "nxt_utf8_decode (bs @ r) = utf8_multi ((h OR 0xF0) # utf8_tail 3 u @ r) (utf8_tail 3 u @ r) (ucast h) 0xFFFF 3"
      by (simp add: 4 nxt_utf8_decode_byte h_def del: utf8_tail.simps)
    also have "\<dots> = (u, r)"
      using 4 assms(1) h by (intro utf8_multi_tail) (simp_all add: word_less_nat_alt)
    finally show ?thesis .
  qed
qed

lemma ucast_ucast_byte [simp]: "ucast (ucast (b :: u_char) :: uint32) = b"
  by (rule bit_word_eqI) (simp add: bit_simps)

lemma utf8_multi_sound:
  assumes "utf8_multi start p h overlong n = (u, r)" and "u \<noteq> utf8_invalid"
    and "\<And>i. bit h i \<Longrightarrow> i < k" and "k + 6 * n \<le> 32"
  shows "p = utf8_tail n u @ r" "drop_bit (6 * n) u = h" "overlong < u" "utf8_char u"
  using assms(1,2) utf8_cont_sound [of n h p u r k, OF _ assms(3,4)]
  by (auto simp: utf8_multi_def utf8_char_def split: if_splits option.splits)

lemma decode_sound:
  assumes "nxt_utf8_decode s = (u, r)" and "u \<noteq> utf8_invalid"
  shows "utf8_char u \<and> (\<exists>bs. nxt_utf8_encode u = Some bs \<and> s = bs @ r)"
proof -
  obtain b p where s: "s = b # p"
    using assms by (cases s) (simp_all add: nxt_utf8_decode_def)
  consider (1) "b < 0x80" "u = ucast b" "p = r"
    | (2) "0xC2 \<le> b" "\<not> 0xE0 \<le> b" "utf8_multi s p (ucast (b AND 0x1F)) 0x007F 1 = (u, r)"
    | (3) "0xE0 \<le> b" "\<not> 0xF0 \<le> b" "utf8_multi s p (ucast (b AND 0x0F)) 0x07FF 2 = (u, r)"
    | (4) "0xF0 \<le> b" "\<not> 0xF4 < b" "utf8_multi s p (ucast (b AND 0x07)) 0xFFFF 3 = (u, r)"
    using assms by (auto simp: s nxt_utf8_decode_byte split: if_splits)
  then show ?thesis
  proof cases
    case 1
    then have "unat u < 128" by (simp add: word_less_nat_alt)
    then show ?thesis
      using 1 by (simp add: s utf8_char_def nxt_utf8_encode_tail word_less_nat_alt word_le_nat_alt)
  next
    case 2
    have m: "bit (ucast (b AND 0x1F) :: uint32) i \<Longrightarrow> i < 5" for i
      by (simp add: bit_simps mask_literals)
    note u = utf8_multi_sound [OF 2(3) assms(2) m]
    have d: "drop_bit 6 u = ucast (b AND 0x1F)" using u(2) by simp
    have "unat u div 64 = unat b mod 32"
      using arg_cong [OF d, of unat] by (simp add: unat_drop_bit unat_and_literal)
    then have "u < 0x0800" "\<not> u < 0x80"
      using u(3) by (simp_all add: word_less_nat_alt)
    then show ?thesis
      using u(1,4) lead_bytes(4) [OF 2(1,2)] by (simp add: s nxt_utf8_encode_tail d del: utf8_tail.simps)
  next
    case 3
    have m: "bit (ucast (b AND 0x0F) :: uint32) i \<Longrightarrow> i < 4" for i
      by (simp add: bit_simps mask_literals)
    note u = utf8_multi_sound [OF 3(3) assms(2) m]
    have d: "drop_bit 12 u = ucast (b AND 0x0F)" using u(2) by simp
    have "unat u div 4096 = unat b mod 16"
      using arg_cong [OF d, of unat] by (simp add: unat_drop_bit unat_and_literal)
    then have "u < 0x10000" "\<not> u < 0x0800" "\<not> u < 0x80"
      using u(3) by (simp_all add: word_less_nat_alt)
    then show ?thesis
      using u(1,4) lead_bytes(5) [OF 3(1,2)] by (simp add: s nxt_utf8_encode_tail d del: utf8_tail.simps)
  next
    case 4
    have m: "bit (ucast (b AND 0x07) :: uint32) i \<Longrightarrow> i < 3" for i
      by (simp add: bit_simps mask_literals)
    note u = utf8_multi_sound [OF 4(3) assms(2) m]
    have d: "drop_bit 18 u = ucast (b AND 0x07)" using u(2) by simp
    have "u < 0x110000" "\<not> u < 0x10000" "\<not> u < 0x0800" "\<not> u < 0x80"
      using u(3,4) by (simp_all add: utf8_char_def word_less_nat_alt)
    then show ?thesis
      using u(1,4) lead_bytes(6) [OF 4(1,2)] by (simp add: s nxt_utf8_encode_tail d del: utf8_tail.simps)
  qed
qed

section \<open>The interface of a codec\<close>

text \<open>
  What the loops over whole strings rely on: decoding inverts encoding whatever follows, and
  accepts nothing else.  An encoded text is then decoded in one way only.
\<close>

locale byte_codec =
  fixes enc :: "'c \<Rightarrow> nxt_str" and dec :: "nxt_str \<Rightarrow> ('c \<times> nxt_str) option" and ok :: "'c \<Rightarrow> bool"
  assumes dec_enc: "ok c \<Longrightarrow> dec (enc c @ r) = Some (c, r)"
    and dec_sound: "dec s = Some (c, r) \<Longrightarrow> ok c \<and> s = enc c @ r"
    and dec_Nil: "dec [] = None"
begin

lemma enc_nonempty: "ok c \<Longrightarrow> enc c \<noteq> []"
  using dec_enc [of c "[]"] dec_Nil by auto

lemma dec_shorter: "dec s = Some (c, r) \<Longrightarrow> length r < length s"
  using dec_sound [of s c r] enc_nonempty [of c] by auto

lemma unique_decoding:
  assumes "list_all ok cs" and "list_all ok ds" and "concat (map enc cs) = concat (map enc ds)"
  shows "cs = ds"
  using assms
proof (induction cs arbitrary: ds)
  case Nil
  then show ?case by (cases ds) (auto simp: enc_nonempty)
next
  case (Cons c cs)
  then obtain d ds' where ds: "ds = d # ds'"
    by (cases ds) (auto simp: enc_nonempty)
  have "dec (concat (map enc (c # cs))) = Some (c, concat (map enc cs))"
    using Cons.prems(1) by (simp add: dec_enc)
  moreover have "dec (concat (map enc ds)) = Some (d, concat (map enc ds'))"
    using Cons.prems(2) by (simp add: ds dec_enc)
  ultimately have "c = d \<and> concat (map enc cs) = concat (map enc ds')"
    using Cons.prems(3) by simp
  with Cons show ?case by (simp add: ds)
qed

text \<open>Every string is a sequence of encoded characters and of bytes that begin none.\<close>

lemma scan_induct [case_names Nil char bad]:
  assumes "P []"
    and "\<And>c r. ok c \<Longrightarrow> P r \<Longrightarrow> P (enc c @ r)"
    and "\<And>b r. dec (b # r) = None \<Longrightarrow> P r \<Longrightarrow> P (b # r)"
  shows "P s"
proof (induction s rule: length_induct)
  case (1 s)
  then show ?case
  proof (cases "dec s")
    case None
    then show ?thesis using 1 assms(1,3) by (cases s) auto
  next
    case (Some cr)
    then obtain c r where "dec s = Some (c, r)" by (cases cr) auto
    then show ?thesis
      using 1 dec_shorter [of s c r] dec_sound [of s c r] assms(2) by auto
  qed
qed

end

definition utf8_enc :: "uint32 \<Rightarrow> nxt_str" where
  "utf8_enc u = the (nxt_utf8_encode u)"

definition utf8_dec :: "nxt_str \<Rightarrow> (uint32 \<times> nxt_str) option" where
  "utf8_dec s = (case nxt_utf8_decode s of (u, r) \<Rightarrow> if u = utf8_invalid then None else Some (u, r))"

lemma utf8_char_encode: "utf8_char u \<Longrightarrow> nxt_utf8_encode u = Some (utf8_enc u)"
  by (auto simp: utf8_char_def utf8_enc_def nxt_utf8_encode_tail)

interpretation utf8: byte_codec utf8_enc utf8_dec utf8_char
proof unfold_locales
  fix u r
  assume "utf8_char u"
  then show "utf8_dec (utf8_enc u @ r) = Some (u, r)"
    by (simp add: utf8_dec_def decode_encode utf8_char_encode utf8_char_valid)
next
  fix s u r
  assume "utf8_dec s = Some (u, r)"
  then show "utf8_char u \<and> s = utf8_enc u @ r"
    using decode_sound [of s u r] by (auto simp: utf8_dec_def utf8_enc_def split: prod.splits if_splits)
next
  show "utf8_dec [] = None" by (simp add: utf8_dec_def nxt_utf8_decode_def)
qed

lemma decode_shorter: "nxt_utf8_decode s = (u, r) \<Longrightarrow> u \<noteq> utf8_invalid \<Longrightarrow> length r < length s"
  using utf8.dec_shorter [of s u r] by (simp add: utf8_dec_def)

section \<open>Whole strings\<close>

text \<open>The loop of \<^verbatim>\<open>nxt_utf8_length\<close>; each round consumes at least one byte.\<close>

function utf8_length_loop :: "nxt_str \<Rightarrow> int \<Rightarrow> int" where
  "utf8_length_loop p n =
     (if p = [] then n
      else case nxt_utf8_decode p of (u, q) \<Rightarrow>
        if u = utf8_invalid then -1 else utf8_length_loop q (n + 1))"
  by pat_completeness auto
termination
  by (relation "measure (\<lambda>(p, n). length p)") (auto dest: decode_shorter [OF sym])

declare utf8_length_loop.simps [simp del]

definition nxt_utf8_length :: "nxt_str \<Rightarrow> int" where
  "nxt_utf8_length p = utf8_length_loop p 0"

function nxt_utf8_is_valid :: "nxt_str \<Rightarrow> bool" where
  "nxt_utf8_is_valid p =
     (if p = [] then True
      else case nxt_utf8_decode p of (u, q) \<Rightarrow>
        if u = utf8_invalid then False else nxt_utf8_is_valid q)"
  by pat_completeness auto
termination
  by (relation "measure length") (auto dest: decode_shorter [OF sym])

declare nxt_utf8_is_valid.simps [simp del]

text \<open>
  \<^verbatim>\<open>nxt_utf8_sanitize\<close>: the first pass computes the length of the result, the second copies.
\<close>

function sanitize_len :: "nxt_str \<Rightarrow> nat \<Rightarrow> nat" where
  "sanitize_len p len =
     (if p = [] then len
      else if hd p < 0x80 then sanitize_len (tl p) (len + 1)
      else case nxt_utf8_decode p of (u, seq) \<Rightarrow>
        if u = utf8_invalid then sanitize_len (tl p) (len + 3)
        else sanitize_len seq (len + (length p - length seq)))"
  by pat_completeness auto
termination
  by (relation "measure (\<lambda>(p, len). length p)") (auto dest: decode_shorter [OF sym])

declare sanitize_len.simps [simp del]

function sanitize_copy :: "nxt_str \<Rightarrow> nxt_str" where
  "sanitize_copy p =
     (if p = [] then []
      else if hd p < 0x80 then hd p # sanitize_copy (tl p)
      else case nxt_utf8_decode p of (u, seq) \<Rightarrow>
        if u = utf8_invalid then 0xEF # 0xBF # 0xBD # sanitize_copy (tl p)
        else take (length p - length seq) p @ sanitize_copy seq)"
  by pat_completeness auto
termination
  by (relation "measure length") (auto dest: decode_shorter [OF sym])

declare sanitize_copy.simps [simp del]

text \<open>
  \<open>nget\<close> says whether the pool can supply a block of that size.  The result is the length field
  and the bytes of \<^verbatim>\<open>dst\<close>, or \<open>None\<close> for \<^verbatim>\<open>NXT_ERROR\<close>, which leaves \<^verbatim>\<open>dst\<close> alone.
\<close>

definition nxt_utf8_sanitize :: "(nat \<Rightarrow> bool) \<Rightarrow> nxt_str \<Rightarrow> (nat \<times> nxt_str) option" where
  "nxt_utf8_sanitize nget src =
     (let len = sanitize_len src 0 in
      if len = length src then Some (length src, src)
      else if \<not> nget len then None
      else Some (len, sanitize_copy src))"

section \<open>Properties\<close>

text \<open>The text that a list of code points encodes to, and the strings that are such a text.\<close>

definition utf8_text :: "uint32 list \<Rightarrow> nxt_str" where
  "utf8_text us = concat (map utf8_enc us)"

lemma utf8_text_simps [simp]:
  "utf8_text [] = []"
  "utf8_text (u # us) = utf8_enc u @ utf8_text us"
  by (simp_all add: utf8_text_def)

lemma decode_enc [simp]: "utf8_char u \<Longrightarrow> nxt_utf8_decode (utf8_enc u @ r) = (u, r)"
  by (simp add: decode_encode utf8_char_encode)

lemma decode_enc_Nil [simp]: "utf8_char u \<Longrightarrow> nxt_utf8_decode (utf8_enc u) = (u, [])"
  using decode_enc [of u "[]"] by simp

lemma decode_enc_sound:
  "nxt_utf8_decode s = (u, r) \<Longrightarrow> u \<noteq> utf8_invalid \<Longrightarrow> utf8_char u \<and> s = utf8_enc u @ r"
  using utf8.dec_sound [of s u r] by (simp add: utf8_dec_def)

lemma utf8_enc_nonempty [simp]: "utf8_char u \<Longrightarrow> utf8_enc u \<noteq> []"
  by (rule utf8.enc_nonempty)

lemma length_utf8_enc: "utf8_char u \<Longrightarrow> 1 \<le> length (utf8_enc u) \<and> length (utf8_enc u) \<le> 4"
  by (auto simp: utf8_char_def utf8_enc_def nxt_utf8_encode_def)

lemma decode_None: "utf8_dec s = None \<Longrightarrow> fst (nxt_utf8_decode s) = utf8_invalid"
  by (auto simp: utf8_dec_def split: prod.splits if_splits)

lemma utf8_length_loop_steps:
  "utf8_length_loop [] n = n"
  "utf8_char u \<Longrightarrow> utf8_length_loop (utf8_enc u @ r) n = utf8_length_loop r (n + 1)"
  "utf8_dec (b # r) = None \<Longrightarrow> utf8_length_loop (b # r) n = -1"
  by (subst utf8_length_loop.simps; auto simp: utf8_char_valid dest: decode_None split: prod.splits)+

lemma nxt_utf8_is_valid_steps:
  "nxt_utf8_is_valid []"
  "utf8_char u \<Longrightarrow> nxt_utf8_is_valid (utf8_enc u @ r) = nxt_utf8_is_valid r"
  "utf8_dec (b # r) = None \<Longrightarrow> \<not> nxt_utf8_is_valid (b # r)"
  by (subst nxt_utf8_is_valid.simps; auto simp: utf8_char_valid dest: decode_None split: prod.splits)+

lemma decode_ascii:
  assumes "b < 0x80"
  shows "nxt_utf8_decode (b # q) = (ucast b, q)" "utf8_enc (ucast b) = [b]" "utf8_char (ucast b)"
    "utf8_dec (b # q) \<noteq> None"
proof -
  have b: "unat b < 128" using assms by (simp add: word_less_nat_alt)
  show d: "nxt_utf8_decode (b # q) = (ucast b, q)"
    using b by (simp add: nxt_utf8_decode_def Let_def word_less_nat_alt)
  have v: "ucast b \<noteq> utf8_invalid"
    using b by (simp add: utf8_invalid_def word_unat_eq_iff)
  show "utf8_enc (ucast b) = [b]" "utf8_char (ucast b)"
    using decode_enc_sound [OF d v] by simp_all
  show "utf8_dec (b # q) \<noteq> None"
    using d v by (simp add: utf8_dec_def)
qed

text \<open>A character whose first byte is below 0x80 is that byte.\<close>

lemma utf8_enc_cases:
  assumes "utf8_char u"
  obtains (ascii) b where "b < 0x80" "utf8_enc u = [b]"
    | (multi) "utf8_enc u \<noteq> []" "\<not> hd (utf8_enc u) < 0x80"
proof (cases "hd (utf8_enc u) < 0x80")
  case True
  obtain b t where e: "utf8_enc u = b # t"
    using assms utf8_enc_nonempty by (cases "utf8_enc u") auto
  with True have "nxt_utf8_decode (utf8_enc u) = (ucast b, t)"
    using decode_ascii(1) by simp
  then have "t = []" using assms by simp
  with True e that(1) show ?thesis by simp
qed (use assms multi in simp)

lemma sanitize_copy_steps:
  "sanitize_copy [] = []"
  "utf8_char u \<Longrightarrow> sanitize_copy (utf8_enc u @ r) = utf8_enc u @ sanitize_copy r"
  "utf8_dec (b # r) = None \<Longrightarrow> sanitize_copy (b # r) = [0xEF, 0xBF, 0xBD] @ sanitize_copy r"
proof -
  show "sanitize_copy (utf8_enc u @ r) = utf8_enc u @ sanitize_copy r" if "utf8_char u"
    using that by (cases rule: utf8_enc_cases)
      (subst sanitize_copy.simps; auto simp: hd_append utf8_char_valid that)+
  show "sanitize_copy (b # r) = [0xEF, 0xBF, 0xBD] @ sanitize_copy r" if "utf8_dec (b # r) = None"
    using that decode_ascii(4) [of b r] decode_None [OF that]
    by (subst sanitize_copy.simps) (auto split: prod.splits)
qed (simp add: sanitize_copy.simps)

lemma sanitize_len_steps:
  "sanitize_len [] n = n"
  "utf8_char u \<Longrightarrow> sanitize_len (utf8_enc u @ r) n = sanitize_len r (n + length (utf8_enc u))"
  "utf8_dec (b # r) = None \<Longrightarrow> sanitize_len (b # r) n = sanitize_len r (n + 3)"
proof -
  show "sanitize_len (utf8_enc u @ r) n = sanitize_len r (n + length (utf8_enc u))" if "utf8_char u"
    using that by (cases rule: utf8_enc_cases)
      (subst sanitize_len.simps; auto simp: hd_append utf8_char_valid that)+
  show "sanitize_len (b # r) n = sanitize_len r (n + 3)" if "utf8_dec (b # r) = None"
    using that decode_ascii(4) [of b r] decode_None [OF that]
    by (subst sanitize_len.simps) (auto split: prod.splits)
qed (simp add: sanitize_len.simps)

lemmas utf8_steps = utf8_length_loop_steps nxt_utf8_is_valid_steps sanitize_copy_steps sanitize_len_steps

lemma utf8_length_loop_text:
  "list_all utf8_char us \<Longrightarrow> utf8_length_loop (utf8_text us) n = n + int (length us)"
  by (induction us arbitrary: n) (simp_all add: utf8_steps)

lemma utf8_length_loop_valid:
  "0 \<le> n \<Longrightarrow> utf8_length_loop p n \<noteq> -1 \<longleftrightarrow> nxt_utf8_is_valid p"
  by (induction p arbitrary: n rule: utf8.scan_induct) (simp_all add: utf8_steps)

lemma nxt_utf8_is_valid_text: "list_all utf8_char us \<Longrightarrow> nxt_utf8_is_valid (utf8_text us)"
  by (induction us) (simp_all add: utf8_steps)

lemma nxt_utf8_is_valid_sound:
  "nxt_utf8_is_valid p \<Longrightarrow> \<exists>us. list_all utf8_char us \<and> p = utf8_text us"
proof (induction p rule: utf8.scan_induct)
  case Nil
  then show ?case by (intro exI [of _ "[]"]) simp
next
  case (char u r)
  then obtain us where "list_all utf8_char us" "r = utf8_text us" by (auto simp: utf8_steps)
  with char show ?case by (intro exI [of _ "u # us"]) simp
qed (simp add: utf8_steps)

lemma sanitize_len_copy: "sanitize_len p n = n + length (sanitize_copy p)"
  by (induction p arbitrary: n rule: utf8.scan_induct) (simp_all add: utf8_steps)

lemma sanitize_copy_bounds:
  "length p \<le> length (sanitize_copy p) \<and> length (sanitize_copy p) \<le> 3 * length p"
  by (induction p rule: utf8.scan_induct) (auto simp: utf8_steps)

text \<open>The first pass finds nothing to replace exactly when the input is valid.\<close>

lemma sanitize_copy_same_length: "length (sanitize_copy p) = length p \<longleftrightarrow> nxt_utf8_is_valid p"
proof (induction p rule: utf8.scan_induct)
  case (bad b r)
  then show ?case using sanitize_copy_bounds [of r] by (simp add: utf8_steps)
qed (simp_all add: utf8_steps)

lemma sanitize_copy_valid: "nxt_utf8_is_valid (sanitize_copy p)"
proof (induction p rule: utf8.scan_induct)
  case (bad b r)
  have e: "utf8_char 0xFFFD" "utf8_enc 0xFFFD = [0xEF, 0xBF, 0xBD]" by code_simp+
  have "nxt_utf8_is_valid (utf8_enc 0xFFFD @ sanitize_copy r)"
    using bad e(1) by (simp only: nxt_utf8_is_valid_steps)
  with bad e(2) show ?case by (simp add: utf8_steps)
qed (simp_all add: utf8_steps)

lemma sanitize_copy_id: "nxt_utf8_is_valid p \<Longrightarrow> sanitize_copy p = p"
  by (induction p rule: utf8.scan_induct) (simp_all add: utf8_steps)

text \<open>C30: \<^verbatim>\<open>nxt_utf8_decode\<close> accepts the canonical encodings and nothing else.  It
  returns a code point other than the error value and the rest of the input exactly when the
  input is \<^verbatim>\<open>nxt_utf8_encode\<close> of that code point followed by that rest and the code point
  is below 0x110000 and not a surrogate.  So no overlong form, no surrogate and no truncated
  sequence is accepted.\<close>

theorem nxt_utf8_decode_iff:
  "nxt_utf8_decode s = (u, r) \<and> u \<noteq> utf8_invalid \<longleftrightarrow>
     u < 0x110000 \<and> \<not> (0xD800 \<le> u \<and> u \<le> 0xDFFF) \<and>
     (\<exists>bs. nxt_utf8_encode u = Some bs \<and> s = bs @ r)"
  using decode_sound [of s u r] decode_encode [of u _ r] utf8_char_valid [of u]
  by (auto simp: utf8_char_def)

text \<open>C31: \<^verbatim>\<open>nxt_utf8_is_valid\<close> accepts exactly the strings that are a sequence of encoded
  code points; that sequence is unique, and \<^verbatim>\<open>nxt_utf8_length\<close> returns its length, or -1
  when the string is no such sequence.\<close>

theorem nxt_utf8_is_valid_length:
  "(nxt_utf8_is_valid p \<longleftrightarrow> (\<exists>!us. list_all utf8_char us \<and> p = utf8_text us)) \<and>
   (nxt_utf8_length p = -1 \<longleftrightarrow> \<not> nxt_utf8_is_valid p) \<and>
   (list_all utf8_char us \<longrightarrow> nxt_utf8_length (utf8_text us) = int (length us))"
proof (intro conjI)
  show "nxt_utf8_is_valid p \<longleftrightarrow> (\<exists>!us. list_all utf8_char us \<and> p = utf8_text us)"
    using nxt_utf8_is_valid_sound [of p] nxt_utf8_is_valid_text utf8.unique_decoding
    by (metis utf8_text_def)
  show "nxt_utf8_length p = -1 \<longleftrightarrow> \<not> nxt_utf8_is_valid p"
    using utf8_length_loop_valid [of 0 p] by (auto simp: nxt_utf8_length_def)
  show "list_all utf8_char us \<longrightarrow> nxt_utf8_length (utf8_text us) = int (length us)"
    by (simp add: nxt_utf8_length_def utf8_length_loop_text)
qed

text \<open>The length of the two characters U+00E9 and U+20AC.\<close>

theorem nxt_utf8_is_valid_length_witness:
  "nxt_utf8_length [0xC3, 0xA9, 0xE2, 0x82, 0xAC] = 2"
proof -
  have "utf8_text [0xE9, 0x20AC] = [0xC3, 0xA9, 0xE2, 0x82, 0xAC]"
    "list_all utf8_char [0xE9, 0x20AC]" by code_simp+
  then show ?thesis using nxt_utf8_is_valid_length [of "[]" "[0xE9, 0x20AC]"] by simp
qed

text \<open>
  What sanitizing means, stated without the decoder: the input is cut from the left into encoded
  characters (\<open>Some\<close>) and bytes at which no encoded character starts (\<open>None\<close>).
\<close>

inductive utf8_pieces :: "nxt_str \<Rightarrow> uint32 option list \<Rightarrow> bool" where
  pieces_Nil: "utf8_pieces [] []"
| pieces_char: "utf8_char u \<Longrightarrow> utf8_pieces r ps \<Longrightarrow> utf8_pieces (utf8_enc u @ r) (Some u # ps)"
| pieces_bad: "(\<And>u q. utf8_char u \<Longrightarrow> b # r \<noteq> utf8_enc u @ q) \<Longrightarrow> utf8_pieces r ps \<Longrightarrow>
    utf8_pieces (b # r) (None # ps)"

definition utf8_replace :: "uint32 option list \<Rightarrow> nxt_str" where
  "utf8_replace ps = utf8_text (map (\<lambda>o'. case o' of None \<Rightarrow> 0xFFFD | Some u \<Rightarrow> u) ps)"

lemma utf8_dec_None_iff: "utf8_dec s = None \<longleftrightarrow> (\<forall>u q. utf8_char u \<longrightarrow> s \<noteq> utf8_enc u @ q)"
  using utf8.dec_enc utf8.dec_sound by (cases "utf8_dec s") fastforce+

lemma sanitize_copy_pieces: "\<exists>ps. utf8_pieces p ps \<and> sanitize_copy p = utf8_replace ps"
proof (induction p rule: utf8.scan_induct)
  case Nil
  then show ?case
    by (intro exI [of _ "[]"]) (simp add: pieces_Nil utf8_replace_def utf8_steps)
next
  case (char u r)
  then obtain ps where "utf8_pieces r ps" "sanitize_copy r = utf8_replace ps" by auto
  with char show ?case
    by (intro exI [of _ "Some u # ps"]) (simp add: pieces_char utf8_replace_def utf8_steps)
next
  case (bad b r)
  then obtain ps where "utf8_pieces r ps" "sanitize_copy r = utf8_replace ps" by auto
  moreover have "utf8_enc 0xFFFD = [0xEF, 0xBF, 0xBD]" by code_simp
  ultimately show ?case
    using bad by (intro exI [of _ "None # ps"])
      (simp add: pieces_bad utf8_replace_def utf8_steps utf8_dec_None_iff)
qed

text \<open>C32: whenever \<^verbatim>\<open>nxt_utf8_sanitize\<close> returns a string, it is the input with every byte
  at which no encoded character starts replaced by U+FFFD; it is valid UTF-8, its length field is
  the number of bytes written (the second pass fills the allocated block exactly), it is at most
  three times as long as the input, and it is the input itself exactly when the input is valid.
  It fails only when the input is invalid and the pool refuses the block.\<close>

theorem nxt_utf8_sanitize_correct:
  "(case nxt_utf8_sanitize nget src of
      None \<Rightarrow> \<not> nxt_utf8_is_valid src \<and> \<not> nget (sanitize_len src 0)
    | Some (len, dst) \<Rightarrow>
        (\<exists>ps. utf8_pieces src ps \<and> dst = utf8_replace ps) \<and>
        nxt_utf8_is_valid dst \<and> len = length dst \<and> length dst \<le> 3 * length src \<and>
        (dst = src \<longleftrightarrow> nxt_utf8_is_valid src))"
proof (cases "nxt_utf8_is_valid src")
  case True
  then show ?thesis
    using sanitize_copy_pieces [of src]
    by (simp add: nxt_utf8_sanitize_def Let_def sanitize_len_copy sanitize_copy_id)
next
  case False
  then show ?thesis
    using sanitize_copy_same_length [of src] sanitize_copy_valid [of src] sanitize_copy_bounds [of src]
      sanitize_copy_pieces [of src]
    by (auto simp: nxt_utf8_sanitize_def Let_def sanitize_len_copy)
qed

end
