(* ===== verification/Nxt_String.thy ===== *)
theory Nxt_String
  imports Nxt_Parse
begin

text \<open>
  The string functions of \<^verbatim>\<open>src/nxt_string.c\<close> and the character macros of
  \<^verbatim>\<open>src/nxt_string.h\<close>: case folding, bounded copies, caseless comparison, substring
  search, stripping and version comparison.  A block of memory with a length is the list of its
  bytes.  A C string is the list of its bytes up to the terminator: reading at its end gives the
  zero byte (\<open>at\<close>), and every function stops there.
\<close>

section \<open>Case\<close>

definition nxt_lowcase :: "u_char \<Rightarrow> u_char" where
  "nxt_lowcase c = (if c_A \<le> c \<and> c \<le> c_Z then c OR 0x20 else c)"

definition nxt_upcase :: "u_char \<Rightarrow> u_char" where
  "nxt_upcase c = (if c_a \<le> c \<and> c \<le> c_z then c AND NOT 0x20 else c)"

fun nxt_memcpy_lowcase :: "nxt_str \<Rightarrow> nxt_str" where
  "nxt_memcpy_lowcase [] = []"
| "nxt_memcpy_lowcase (c # src) = nxt_lowcase c # nxt_memcpy_lowcase src"

fun nxt_memcpy_upcase :: "nxt_str \<Rightarrow> nxt_str" where
  "nxt_memcpy_upcase [] = []"
| "nxt_memcpy_upcase (c # src) = nxt_upcase c # nxt_memcpy_upcase src"

section \<open>Copies of C strings\<close>

text \<open>
  The bytes written to \<^verbatim>\<open>dst\<close>, the terminator included.  \<open>None\<close> is a read past the end of
  a source block that has no terminator.
\<close>

fun nxt_cpystr :: "nxt_str \<Rightarrow> nxt_str option" where
  "nxt_cpystr [] = None"
| "nxt_cpystr (c # src) = (if c = 0 then Some [c] else map_option ((#) c) (nxt_cpystr src))"

fun nxt_cpystrn :: "nxt_str \<Rightarrow> nat \<Rightarrow> nxt_str option" where
  "nxt_cpystrn src 0 = Some []"
| "nxt_cpystrn src (Suc 0) = Some [0]"
| "nxt_cpystrn [] (Suc (Suc n)) = None"
| "nxt_cpystrn (c # src) (Suc (Suc n)) =
     (if c = 0 then Some [c] else map_option ((#) c) (nxt_cpystrn src (Suc n)))"

section \<open>Caseless comparison\<close>

definition at :: "nxt_str \<Rightarrow> u_char" where
  "at s = (case s of [] \<Rightarrow> 0 | c # _ \<Rightarrow> c)"

lemma at_simps [simp]: "at [] = 0" "at (c # s) = c"
  by (simp_all add: at_def)

lemma at_not_zero: "at s \<noteq> 0 \<Longrightarrow> s \<noteq> []"
  by auto

lemma nxt_lowcase_zero [simp]: "nxt_lowcase 0 = 0"
  by (simp add: nxt_lowcase_def)

function nxt_strcasecmp :: "nxt_str \<Rightarrow> nxt_str \<Rightarrow> int" where
  "nxt_strcasecmp s1 s2 =
     (let c1 = nxt_lowcase (at s1); c2 = nxt_lowcase (at s2);
          n = uint c1 - uint c2
      in if n \<noteq> 0 then n
         else if c1 = 0 then 0
         else nxt_strcasecmp (tl s1) (tl s2))"
  by pat_completeness auto
termination
  by (relation "measure (\<lambda>(s1, s2). length s1)") (auto simp: at_def split: list.splits)

declare nxt_strcasecmp.simps [simp del]

fun nxt_strncasecmp :: "nxt_str \<Rightarrow> nxt_str \<Rightarrow> nat \<Rightarrow> int" where
  "nxt_strncasecmp s1 s2 0 = 0"
| "nxt_strncasecmp s1 s2 (Suc n) =
     (let c1 = at s1; c2 = at s2;
          d = (if c1 \<noteq> c2 then uint (nxt_lowcase c1) - uint (nxt_lowcase c2) else 0);
          c1 = (if c1 \<noteq> c2 then nxt_lowcase c1 else c1)
      in if d \<noteq> 0 then d
         else if c1 = 0 then 0
         else nxt_strncasecmp (tl s1) (tl s2) n)"

text \<open>Both blocks have the length that is compared.\<close>

fun nxt_memcasecmp :: "nxt_str \<Rightarrow> nxt_str \<Rightarrow> int" where
  "nxt_memcasecmp (c1 # s1) (c2 # s2) =
     (let d = (if c1 \<noteq> c2 then uint (nxt_lowcase c1) - uint (nxt_lowcase c2) else 0)
      in if d \<noteq> 0 then d else nxt_memcasecmp s1 s2)"
| "nxt_memcasecmp _ _ = 0"

section \<open>Substring search\<close>

text \<open>
  \<open>s\<close> is the block from \<^verbatim>\<open>s\<close> to \<^verbatim>\<open>end\<close>, \<open>i\<close> the offset of its first byte; the substring
  \<open>c2 # s2\<close> is not empty.  A pointer that is returned is the offset in the block.
\<close>

fun memstrn_loop :: "nxt_str \<Rightarrow> u_char \<Rightarrow> nxt_str \<Rightarrow> nat \<Rightarrow> nat option" where
  "memstrn_loop [] c2 s2 i = None"
| "memstrn_loop (c1 # s) c2 s2 i =
     (if c1 = c2 then
        if length s < length s2 then None
        else if take (length s2) s = s2 then Some i
        else memstrn_loop s c2 s2 (i + 1)
      else memstrn_loop s c2 s2 (i + 1))"

definition nxt_memstrn :: "nxt_str \<Rightarrow> nxt_str \<Rightarrow> nat option" where
  "nxt_memstrn s ss = memstrn_loop s (hd ss) (tl ss) 0"

fun memcasestrn_loop :: "nxt_str \<Rightarrow> u_char \<Rightarrow> nxt_str \<Rightarrow> nat \<Rightarrow> nat option" where
  "memcasestrn_loop [] c2 s2 i = None"
| "memcasestrn_loop (c1 # s) c2 s2 i =
     (if nxt_lowcase c1 = c2 then
        if length s < length s2 then None
        else if nxt_memcasecmp (take (length s2) s) s2 = 0 then Some i
        else memcasestrn_loop s c2 s2 (i + 1)
      else memcasestrn_loop s c2 s2 (i + 1))"

definition nxt_memcasestrn :: "nxt_str \<Rightarrow> nxt_str \<Rightarrow> nat option" where
  "nxt_memcasestrn s ss = memcasestrn_loop s (nxt_lowcase (hd ss)) (tl ss) 0"

text \<open>The reverse search: \<open>i\<close> is the offset of \<^verbatim>\<open>s1\<close>, and the loop runs while \<^verbatim>\<open>s < s1\<close>.\<close>

fun rmemstrn_loop :: "nxt_str \<Rightarrow> u_char \<Rightarrow> nxt_str \<Rightarrow> nat \<Rightarrow> nat option" where
  "rmemstrn_loop s c2 s2 0 = None"
| "rmemstrn_loop s c2 s2 (Suc i) =
     (if s ! Suc i = c2 \<and> take (length s2) (drop (Suc i + 1) s) = s2 then Some (Suc i)
      else rmemstrn_loop s c2 s2 i)"

definition nxt_rmemstrn :: "nxt_str \<Rightarrow> nxt_str \<Rightarrow> nat option" where
  "nxt_rmemstrn s ss =
     (if length ss = 0 \<or> length s < length ss then None
      else rmemstrn_loop s (hd ss) (tl ss) (length s - length ss))"

section \<open>Stripping\<close>

definition strip_char :: "u_char \<Rightarrow> bool" where
  "strip_char c \<longleftrightarrow> \<not> (c \<noteq> c_cr \<and> c \<noteq> c_lf \<and> c \<noteq> c_space \<and> c \<noteq> c_tab)"

text \<open>\<open>n\<close> is \<^verbatim>\<open>p - start\<close>; the loop goes down from the end.\<close>

fun strip_loop :: "nxt_str \<Rightarrow> nat \<Rightarrow> nat" where
  "strip_loop s 0 = 0"
| "strip_loop s (Suc n) = (if \<not> strip_char (s ! n) then Suc n else strip_loop s n)"

definition nxt_str_strip :: "nxt_str \<Rightarrow> nat" where
  "nxt_str_strip s = strip_loop s (length s)"

section \<open>Versions\<close>

datatype vers_state = st_str | st_num | st_zero | st_frac

text \<open>
  The first loop of \<^verbatim>\<open>nxt_strverscmp\<close>: \<open>None\<close> when the strings are equal, otherwise the
  state and both strings from the differing characters on.
\<close>

function vers_loop :: "vers_state \<Rightarrow> nxt_str \<Rightarrow> nxt_str \<Rightarrow> (vers_state \<times> nxt_str \<times> nxt_str) option" where
  "vers_loop state s1 s2 =
     (let c1 = at s1; c2 = at s2 in
      if c1 \<noteq> c2 then Some (state, s1, s2)
      else if c1 = 0 then None
      else
        let state' =
          (if \<not> nxt_isdigit c1 then st_str
           else if state = st_str then (if c1 \<noteq> c_0 then st_num else st_zero)
           else if state = st_zero \<and> c1 \<noteq> c_0 then st_frac
           else state)
        in vers_loop state' (tl s1) (tl s2))"
  by pat_completeness auto
termination
  by (relation "measure (\<lambda>(state, s1, s2). length s1)") (auto simp: at_def split: list.splits)

declare vers_loop.simps [simp del]

text \<open>The loop of \<^verbatim>\<open>case st_num\<close>; the strings start at \<^verbatim>\<open>c1\<close> and \<^verbatim>\<open>c2\<close>.\<close>

fun vers_digits :: "nxt_str \<Rightarrow> nxt_str \<Rightarrow> int \<Rightarrow> int" where
  "vers_digits (c1 # s1) (c2 # s2) diff =
     (if nxt_isdigit c1 \<and> nxt_isdigit c2 then vers_digits s1 s2 diff
      else if nxt_isdigit c1 then 1
      else if nxt_isdigit c2 then -1
      else diff)"
| "vers_digits s1 s2 diff =
     (if nxt_isdigit (at s1) then 1 else if nxt_isdigit (at s2) then -1 else diff)"

definition nxt_strverscmp :: "nxt_str \<Rightarrow> nxt_str \<Rightarrow> int" where
  "nxt_strverscmp s1 s2 =
     (case vers_loop st_str s1 s2 of
        None \<Rightarrow> 0
      | Some (state, p1, p2) \<Rightarrow>
          let c1 = at p1; c2 = at p2; diff = uint c1 - uint c2 in
          case state of
            st_str \<Rightarrow>
              if 8 < c1 - c_1 \<or> 8 < c2 - c_1 then diff
              else vers_digits (tl p1) (tl p2) diff
          | st_num \<Rightarrow> vers_digits p1 p2 diff
          | st_zero \<Rightarrow>
              if c1 = c_0 \<or> c2 = 0 then -1
              else if c2 = c_0 \<or> c1 = 0 then 1
              else diff
          | st_frac \<Rightarrow> diff)"

text \<open>Whether \<^verbatim>\<open>strncmp\<close> of the C library returns zero.\<close>

fun strncmp_eq :: "nxt_str \<Rightarrow> nxt_str \<Rightarrow> nat \<Rightarrow> bool" where
  "strncmp_eq s1 s2 0 = True"
| "strncmp_eq s1 s2 (Suc n) =
     (at s1 = at s2 \<and> (at s1 = 0 \<or> strncmp_eq (tl s1) (tl s2) n))"

definition nxt_strvers_match :: "nxt_str \<Rightarrow> nxt_str \<Rightarrow> nat \<Rightarrow> bool" where
  "nxt_strvers_match version prefix len =
     (if len = 0 then True
      else if strncmp_eq version prefix len then
        let next = at (drop len version) in
        if next = 0 then True
        else
          let last = at (drop (len - 1) version) in
          nxt_isdigit last \<noteq> nxt_isdigit next
      else False)"

section \<open>Case folding and comparison\<close>

definition fold_case :: "nxt_str \<Rightarrow> nxt_str" where
  "fold_case s = map nxt_lowcase s"

lemma fold_case_simps [simp]:
  "fold_case [] = []" "fold_case (c # s) = nxt_lowcase c # fold_case s"
  by (simp_all add: fold_case_def)

lemma nxt_memcpy_lowcase_map: "nxt_memcpy_lowcase s = fold_case s"
  by (induction s) simp_all

lemma nxt_memcpy_upcase_map: "nxt_memcpy_upcase s = map nxt_upcase s"
  by (induction s) simp_all

lemma lowcase_arith:
  "nxt_lowcase c = (if 65 \<le> unat c \<and> unat c \<le> 90 then c + 0x20 else c)"
  "nxt_upcase c = (if 97 \<le> unat c \<and> unat c \<le> 122 then c - 0x20 else c)"
  using bit_5_range [of 2 c] bit_5_range [of 3 c] bit_5_arith [of c]
  by (simp_all add: nxt_lowcase_def nxt_upcase_def word_le_nat_alt)

lemma case_fold:
  "nxt_lowcase (nxt_lowcase c) = nxt_lowcase c"
  "nxt_lowcase (nxt_upcase c) = nxt_lowcase c"
  "nxt_upcase (nxt_lowcase c) = nxt_upcase c"
  "nxt_lowcase c = 0 \<longleftrightarrow> c = 0"
  by (auto simp: lowcase_arith unat_word_ariths unat_sub_if' word_unat_eq_iff split: if_splits)
lemma uint_eq_iff: "uint (a :: u_char) = uint b \<longleftrightarrow> a = b"
  by (simp add: word_uint_eq_iff)

lemma nxt_memcasecmp_zero:
  "length s1 = length s2 \<Longrightarrow> nxt_memcasecmp s1 s2 = 0 \<longleftrightarrow> fold_case s1 = fold_case s2"
  by (induction s1 s2 rule: list_induct2) (auto simp: Let_def uint_eq_iff)

lemma nxt_strncasecmp_zero:
  "0 \<notin> set s1 \<Longrightarrow> 0 \<notin> set s2 \<Longrightarrow>
     nxt_strncasecmp s1 s2 n = 0 \<longleftrightarrow> fold_case (take n s1) = fold_case (take n s2)"
proof (induction s1 s2 n rule: nxt_strncasecmp.induct)
  case (2 s1 s2 n)
  then show ?case
    by (cases s1; cases s2) (auto simp: Let_def case_fold uint_eq_iff uint_0_iff)
qed simp

lemma nxt_strcasecmp_zero:
  "0 \<notin> set s1 \<Longrightarrow> 0 \<notin> set s2 \<Longrightarrow> nxt_strcasecmp s1 s2 = 0 \<longleftrightarrow> fold_case s1 = fold_case s2"
proof (induction s1 s2 rule: nxt_strcasecmp.induct)
  case (1 s1 s2)
  then show ?case
    by (subst nxt_strcasecmp.simps; cases s1; cases s2) (auto simp: Let_def case_fold uint_eq_iff uint_0_iff)
qed

section \<open>Search\<close>

text \<open>\<open>ss\<close> occurs at offset \<open>i\<close> of \<open>s\<close>, up to the character equality \<open>eqc\<close>.\<close>

definition occurs :: "(u_char \<Rightarrow> u_char \<Rightarrow> bool) \<Rightarrow> nxt_str \<Rightarrow> nxt_str \<Rightarrow> nat \<Rightarrow> bool" where
  "occurs eqc ss s i \<longleftrightarrow> i + length ss \<le> length s \<and> list_all2 eqc (take (length ss) (drop i s)) ss"

text \<open>
  What the two forward searches have in common: they look for the first character of the
  substring, give up when the rest is too short, and compare the rest.
\<close>

locale forward_search =
  fixes eqc :: "u_char \<Rightarrow> u_char \<Rightarrow> bool" and c2 :: u_char and s2 :: nxt_str
    and loop :: "nxt_str \<Rightarrow> nat \<Rightarrow> nat option"
  assumes loop_Nil: "loop [] i = None"
    and loop_Cons: "loop (c1 # s) i =
      (if eqc c1 c2 \<and> length s < length s2 then None
       else if eqc c1 c2 \<and> list_all2 eqc (take (length s2) s) s2 then Some i
       else loop s (i + 1))"
begin

lemma occurs_Nil: "\<not> occurs eqc (c2 # s2) [] i"
  by (simp add: occurs_def)

lemma occurs_Cons_0:
  "occurs eqc (c2 # s2) (c1 # s) 0 \<longleftrightarrow>
     eqc c1 c2 \<and> length s2 \<le> length s \<and> list_all2 eqc (take (length s2) s) s2"
  by (auto simp: occurs_def)

lemma occurs_Cons_Suc: "occurs eqc (c2 # s2) (c1 # s) (Suc i) = occurs eqc (c2 # s2) s i"
  by (simp add: occurs_def)

lemma loop_first:
  "case loop s i of
     None \<Rightarrow> \<forall>j. \<not> occurs eqc (c2 # s2) s j
   | Some k \<Rightarrow> i \<le> k \<and> occurs eqc (c2 # s2) s (k - i) \<and> (\<forall>j < k - i. \<not> occurs eqc (c2 # s2) s j)"
proof (induction s arbitrary: i)
  case (Cons c1 s)
  consider (short) "eqc c1 c2 \<and> length s < length s2"
    | (found) "\<not> (eqc c1 c2 \<and> length s < length s2)" "eqc c1 c2 \<and> list_all2 eqc (take (length s2) s) s2"
    | (go_on) "\<not> (eqc c1 c2 \<and> length s < length s2)"
        "\<not> (eqc c1 c2 \<and> list_all2 eqc (take (length s2) s) s2)" by blast
  then show ?case
  proof cases
    case short
    then show ?thesis by (simp add: loop_Cons occurs_def)
  next
    case found
    then show ?thesis by (simp add: loop_Cons occurs_Cons_0)
  next
    case go_on
    then have 0: "\<not> occurs eqc (c2 # s2) (c1 # s) 0" by (auto simp: occurs_Cons_0)
    have all: "(\<forall>j < Suc n. \<not> occurs eqc (c2 # s2) (c1 # s) j) \<longleftrightarrow> (\<forall>j < n. \<not> occurs eqc (c2 # s2) s j)" for n
      using 0 by (auto simp: less_Suc_eq_0_disj occurs_Cons_Suc)
    have all': "(\<forall>j. \<not> occurs eqc (c2 # s2) (c1 # s) j) \<longleftrightarrow> (\<forall>j. \<not> occurs eqc (c2 # s2) s j)"
      using 0 by (metis not0_implies_Suc occurs_Cons_Suc)
    have l: "loop (c1 # s) i = loop s (i + 1)"
      using go_on by (auto simp: loop_Cons)
    show ?thesis
    proof (cases "loop s (i + 1)")
      case None
      then show ?thesis using Cons.IH [of "i + 1"] l all' by simp
    next
      case (Some k)
      then have k: "i + 1 \<le> k" "occurs eqc (c2 # s2) s (k - (i + 1))"
          "\<forall>j < k - (i + 1). \<not> occurs eqc (c2 # s2) s j"
        using Cons.IH [of "i + 1"] by simp_all
      have e: "k - i = Suc (k - (i + 1))" using k(1) by simp
      show ?thesis
        using Some k l all [of "k - (i + 1)"] by (simp add: e occurs_Cons_Suc)
    qed
  qed
qed (simp add: loop_Nil occurs_Nil)

end

definition caseless :: "u_char \<Rightarrow> u_char \<Rightarrow> bool" where
  "caseless a b \<longleftrightarrow> nxt_lowcase a = nxt_lowcase b"

lemma caseless_list: "list_all2 caseless xs ys \<longleftrightarrow> fold_case xs = fold_case ys"
  by (induction xs arbitrary: ys; case_tac ys) (auto simp: caseless_def fold_case_def)

interpretation exact: forward_search "(=)" c2 s2 "\<lambda>s. memstrn_loop s c2 s2" for c2 s2
  by unfold_locales (auto simp: list.rel_eq)

interpretation nocase: forward_search caseless c2 s2 "\<lambda>s. memcasestrn_loop s (nxt_lowcase c2) s2" for c2 s2
proof unfold_locales
  fix c1 s i
  have "nxt_memcasecmp (take (length s2) s) s2 = 0 \<longleftrightarrow> list_all2 caseless (take (length s2) s) s2"
    if "\<not> length s < length s2"
    using that by (simp add: caseless_list nxt_memcasecmp_zero)
  then show "memcasestrn_loop (c1 # s) (nxt_lowcase c2) s2 i =
      (if caseless c1 c2 \<and> length s < length s2 then None
       else if caseless c1 c2 \<and> list_all2 caseless (take (length s2) s) s2 then Some i
       else memcasestrn_loop s (nxt_lowcase c2) s2 (i + 1))"
    by (auto simp: caseless_def)
qed simp

lemma rmemstrn_loop_last:
  assumes "n + length (c2 # s2) \<le> length s"
  shows "case rmemstrn_loop s c2 s2 n of
     None \<Rightarrow> \<forall>j. 0 < j \<and> j \<le> n \<longrightarrow> \<not> occurs (=) (c2 # s2) s j
   | Some k \<Rightarrow> 0 < k \<and> k \<le> n \<and> occurs (=) (c2 # s2) s k \<and> (\<forall>j. k < j \<and> j \<le> n \<longrightarrow> \<not> occurs (=) (c2 # s2) s j)"
  using assms
proof (induction n)
  case (Suc n)
  have o: "occurs (=) (c2 # s2) s (Suc n) \<longleftrightarrow> s ! Suc n = c2 \<and> take (length s2) (drop (Suc n + 1) s) = s2"
    using Suc.prems by (simp add: occurs_def list.rel_eq Cons_nth_drop_Suc [symmetric])
  have n: "j \<le> Suc n \<longleftrightarrow> j \<le> n \<or> j = Suc n" for j by auto
  show ?case
  proof (cases "occurs (=) (c2 # s2) s (Suc n)")
    case True
    then have "rmemstrn_loop s c2 s2 (Suc n) = Some (Suc n)" using o by simp
    with True show ?thesis by auto
  next
    case False
    then have "rmemstrn_loop s c2 s2 (Suc n) = rmemstrn_loop s c2 s2 n" using o by auto
    then show ?thesis
      using Suc.IH Suc.prems False by (auto simp: n split: option.splits)
  qed
qed auto

section \<open>Versions in numeric order\<close>

definition vers_next :: "vers_state \<Rightarrow> u_char \<Rightarrow> vers_state" where
  "vers_next state c =
     (if \<not> nxt_isdigit c then st_str
      else if state = st_str then (if c \<noteq> c_0 then st_num else st_zero)
      else if state = st_zero \<and> c \<noteq> c_0 then st_frac
      else state)"

lemma vers_loop_unfold:
  "vers_loop st s1 s2 =
     (if at s1 \<noteq> at s2 then Some (st, s1, s2)
      else if at s1 = 0 then None
      else vers_loop (vers_next st (at s1)) (tl s1) (tl s2))"
  by (simp add: vers_loop.simps [of st s1 s2] Let_def vers_next_def)

lemma vers_loop_induct [case_names step]:
  assumes "\<And>st s1 s2. (at s1 = at s2 \<Longrightarrow> at s1 \<noteq> 0 \<Longrightarrow> P (vers_next st (at s1)) (tl s1) (tl s2)) \<Longrightarrow> P st s1 s2"
  shows "P st s1 s2"
proof (induction s1 arbitrary: st s2 rule: length_induct)
  case (1 s1)
  show ?case
    by (rule assms, rule 1 [rule_format]) (use at_not_zero in auto)
qed

lemma vers_loop_swap:
  "vers_loop st s2 s1 = map_option (\<lambda>(st, p1, p2). (st, p2, p1)) (vers_loop st s1 s2)"
proof (induction st s1 s2 rule: vers_loop_induct)
  case (step st s1 s2)
  show ?case
  proof (cases "at s1 = at s2 \<and> at s1 \<noteq> 0")
    case True
    then show ?thesis
      using step by (simp add: vers_loop_unfold [of st s1] vers_loop_unfold [of st s2])
  next
    case False
    then show ?thesis
      by (auto simp: vers_loop_unfold [of st s1] vers_loop_unfold [of st s2])
  qed
qed

lemma vers_loop_differ:
  "vers_loop st s1 s2 = Some (st', p1, p2) \<Longrightarrow> at p1 \<noteq> at p2"
proof (induction st s1 s2 rule: vers_loop_induct)
  case (step st s1 s2)
  then show ?case
    by (auto simp: vers_loop_unfold [of st s1] split: if_splits)
qed

lemma isdigit_zero [simp]: "\<not> nxt_isdigit 0"
  by (simp add: nxt_isdigit_def)

lemma isdigit_nonzero: "nxt_isdigit c \<Longrightarrow> c \<noteq> 0"
  by auto

lemma vers_digits_swap: "vers_digits s2 s1 (- d) = - vers_digits s1 s2 d"
  by (induction s1 s2 d rule: vers_digits.induct) auto

lemma vers_digits_swap': "vers_digits s2 s1 (b - a) = - vers_digits s1 s2 (a - b)"
  using vers_digits_swap [of s2 s1 "a - b"] by simp

text \<open>One step of the common prefix.\<close>

lemma vers_loop_Cons:
  "c \<noteq> 0 \<Longrightarrow> vers_loop st (c # s1) (c # s2) = vers_loop (vers_next st c) s1 s2"
  by (simp add: vers_loop_unfold [of st "c # s1"])

lemma vers_loop_prefix:
  "0 \<notin> set p \<Longrightarrow> (p \<noteq> [] \<Longrightarrow> \<not> nxt_isdigit (last p)) \<Longrightarrow> (p = [] \<Longrightarrow> st = st_str) \<Longrightarrow>
     vers_loop st (p @ s1) (p @ s2) = vers_loop st_str s1 s2"
proof (induction p arbitrary: st)
  case (Cons c p)
  then show ?case by (cases "p = []") (auto simp: vers_loop_Cons vers_next_def)
qed simp

lemma vers_loop_digits:
  "list_all nxt_isdigit q \<Longrightarrow> vers_loop st_num (q @ s1) (q @ s2) = vers_loop st_num s1 s2"
  by (induction q) (auto simp: vers_loop_Cons vers_next_def isdigit_nonzero)

lemma vers_digits_length:
  assumes "list_all nxt_isdigit a" and "list_all nxt_isdigit b"
    and "\<not> nxt_isdigit (at x)" and "\<not> nxt_isdigit (at y)"
  shows "vers_digits (a @ x) (b @ y) d =
    (if length b < length a then 1 else if length a < length b then -1 else d)"
  using assms
proof (induction a arbitrary: b)
  case Nil
  then show ?case by (cases b; cases x; cases y) auto
next
  case (Cons c a)
  then show ?case by (cases b; cases y) auto
qed

text \<open>Two different lists split at the end of their common prefix.\<close>

lemma common_prefix:
  "\<exists>q a' b'. a = q @ a' \<and> b = q @ b' \<and> (a' = [] \<or> b' = [] \<or> hd a' \<noteq> hd b')"
proof (induction a arbitrary: b)
  case (Cons x a)
  show ?case
  proof (cases "b \<noteq> [] \<and> hd b = x")
    case True
    then obtain b1 where b: "b = x # b1" by (cases b) auto
    obtain q a' b' where "a = q @ a'" "b1 = q @ b'" "a' = [] \<or> b' = [] \<or> hd a' \<noteq> hd b'"
      using Cons.IH [of b1] by blast
    then show ?thesis
      by (intro exI [of _ "x # q"] exI [of _ a'] exI [of _ b'] conjI) (simp_all add: b)
  next
    case False
    then show ?thesis by (intro exI [of _ "[]"] exI [of _ "x # a"] exI [of _ b]) auto
  qed
qed auto

lemma dec_from_split: "dec_from v ds = v * 10 ^ length ds + dec_value ds"
proof (induction ds arbitrary: v)
  case (Cons c ds)
  show ?case
    unfolding dec_value_def dec_from_Cons Cons.IH [of "v * 10 + digit_val c"] Cons.IH [of "0 * 10 + digit_val c"]
    by (simp add: algebra_simps)
qed (simp add: dec_value_def)

lemma dec_value_append: "dec_value (p @ q) = dec_value p * 10 ^ length q + dec_value q"
  using dec_from_split [of "dec_value p" q] by (simp add: dec_value_def dec_from_def)

lemma dec_value_lt: "list_all nxt_isdigit ds \<Longrightarrow> dec_value ds < 10 ^ length ds"
proof (induction ds)
  case (Cons c ds)
  have "dec_value (c # ds) = digit_val c * 10 ^ length ds + dec_value ds"
    using dec_value_append [of "[c]" ds] by (simp add: dec_value_def)
  also have "\<dots> < (digit_val c + 1) * 10 ^ length ds"
    using Cons by simp
  also have "\<dots> \<le> 10 * 10 ^ length ds"
    using Cons.prems digit_val_le [of c] by (intro mult_right_mono) simp_all
  finally show ?case by simp
qed (simp add: dec_value_def)

lemma dec_value_Cons: "dec_value (c # ds) = digit_val c * 10 ^ length ds + dec_value ds"
  using dec_value_append [of "[c]" ds] by (simp add: dec_value_def)

lemma unat_digit_val: "nxt_isdigit c \<Longrightarrow> unat c = 48 + digit_val c"
  by (auto simp: digit_val_def nxt_isdigit_iff unat_sub_if' word_le_nat_alt)

lemma digit_val_less: "nxt_isdigit c \<Longrightarrow> nxt_isdigit d \<Longrightarrow> digit_val c < digit_val d \<longleftrightarrow> c < d"
  using unat_digit_val [of c] unat_digit_val [of d] by (simp add: word_less_nat_alt)

text \<open>Numbers without leading zeros: the longer one is greater.\<close>

lemma dec_value_longer:
  assumes "list_all nxt_isdigit a" and "list_all nxt_isdigit b" and "b \<noteq> []" and "hd b \<noteq> c_0"
    and "length a < length b"
  shows "dec_value a < dec_value b"
proof -
  obtain c b' where b: "b = c # b'" using assms(3) by (cases b) auto
  have "1 \<le> digit_val c"
    using assms(2,4) unat_digit_val [of c] by (cases "digit_val c") (auto simp: b word_unat_eq_iff)
  then have "10 ^ length b' \<le> digit_val c * 10 ^ length b'" by simp
  moreover have "(10::nat) ^ length a \<le> 10 ^ length b'"
    using assms(5) by (intro power_increasing) (simp_all add: b)
  ultimately show ?thesis
    using dec_value_lt [OF assms(1)] unfolding b dec_value_Cons by linarith
qed

lemma dec_value_first_diff:
  assumes "list_all nxt_isdigit (c # a)" and "list_all nxt_isdigit (d # b)" and "length a = length b"
    and "c < d"
  shows "dec_value (c # a) < dec_value (d # b)"
proof -
  have "dec_value (c # a) < (digit_val c + 1) * 10 ^ length a"
    using assms(1) dec_value_lt [of a] by (simp add: dec_value_Cons)
  also have "\<dots> \<le> digit_val d * 10 ^ length a"
    using assms digit_val_less [of c d] by (intro mult_right_mono) simp_all
  finally show ?thesis by (simp add: dec_value_Cons assms(3))
qed

lemma numeric_order_sign:
  assumes a: "list_all nxt_isdigit a" "a \<noteq> []" "hd a \<noteq> c_0"
    and b: "list_all nxt_isdigit b" "b \<noteq> []" "hd b \<noteq> c_0"
    and x: "\<not> nxt_isdigit (at x)" and y: "\<not> nxt_isdigit (at y)"
    and less: "dec_value a < dec_value b"
  shows "nxt_strverscmp (a @ x) (b @ y) < 0"
proof -
  obtain q a' b' where q: "a = q @ a'" "b = q @ b'" "a' = [] \<or> b' = [] \<or> hd a' \<noteq> hd b'"
    using common_prefix [of a b] by blast
  have d: "list_all nxt_isdigit q" "list_all nxt_isdigit a'" "list_all nxt_isdigit b'"
    using a(1) b(1) by (simp_all add: q)
  have len: "\<not> length b' < length a'"
    using dec_value_longer [OF b(1) a] less by (auto simp: q)
  have "b' \<noteq> []" using less len by (auto simp: q)
  then obtain e b'' where b': "b' = e # b''" by (cases b') auto
  have ne: "at (a' @ x) \<noteq> at (b' @ y)"
    using q(3) x d(3) by (cases a') (auto simp: b')
  have diff: "uint (at (a' @ x)) < uint (at (b' @ y))" if l: "length a' = length b'"
  proof -
    obtain c a'' where a': "a' = c # a''" using l b' by (cases a') auto
    have "\<not> e < c"
      using dec_value_first_diff [of e b'' c a''] d l less
      by (auto simp: q a' b' dec_value_append)
    then show ?thesis
      using ne by (simp add: a' b' word_less_def not_less order_less_le word_uint_eq_iff)
  qed
  show ?thesis
  proof (cases "q = []")
    case True
    obtain c a'' where a': "a' = c # a''" using a(2) True q by (cases a') auto
    have "vers_loop st_str (a @ x) (b @ y) = Some (st_str, a' @ x, b' @ y)"
      using ne by (simp add: q True vers_loop_unfold [of st_str "a' @ x"])
    moreover have "\<not> 8 < c - c_1" "\<not> 8 < e - c_1"
      using a b d True by (auto simp: q a' b' nxt_isdigit_iff word_less_nat_alt word_le_nat_alt
        unat_sub_if' word_unat_eq_iff)
    ultimately show ?thesis
      using len diff vers_digits_length [of a'' b'' x y] d x y
      by (auto simp: nxt_strverscmp_def a' b' Let_def)
  next
    case False
    then obtain f q' where f: "q = f # q'" by (cases q) auto
    have "vers_loop st_str (a @ x) (b @ y) = vers_loop st_num (a' @ x) (b' @ y)"
      using d(1) a(3) vers_loop_digits [of q' "a' @ x" "b' @ y"]
      by (simp add: q f vers_loop_Cons vers_next_def isdigit_nonzero)
    also have "\<dots> = Some (st_num, a' @ x, b' @ y)"
      using ne by (simp add: vers_loop_unfold [of st_num "a' @ x"])
    finally show ?thesis
      using len diff vers_digits_length [OF d(2,3) x y]
      by (auto simp: nxt_strverscmp_def Let_def)
  qed
qed

lemma nxt_strverscmp_prefix:
  assumes "0 \<notin> set p" and "p = [] \<or> \<not> nxt_isdigit (last p)"
  shows "nxt_strverscmp (p @ s1) (p @ s2) = nxt_strverscmp s1 s2"
  using assms vers_loop_prefix [of p st_str s1 s2] by (auto simp: nxt_strverscmp_def)

lemma nxt_strverscmp_swap: "nxt_strverscmp s2 s1 = - nxt_strverscmp s1 s2"
proof (cases "vers_loop st_str s1 s2")
  case None
  then show ?thesis using vers_loop_swap [of st_str s2 s1] by (simp add: nxt_strverscmp_def)
next
  case (Some r)
  then obtain st p1 p2 where r: "vers_loop st_str s1 s2 = Some (st, p1, p2)" by (cases r) auto
  then have r': "vers_loop st_str s2 s1 = Some (st, p2, p1)"
    using vers_loop_swap [of st_str s2 s1] by simp
  have "at p1 \<noteq> at p2" using vers_loop_differ [OF r] .
  then show ?thesis
    using vers_digits_swap' [of p2 p1] vers_digits_swap' [of "tl p2" "tl p1"]
    by (cases st) (auto simp: nxt_strverscmp_def r r' Let_def)
qed

section \<open>Stripping\<close>

lemma strip_loop_take:
  "n \<le> length s \<Longrightarrow> take (strip_loop s n) s = rev (dropWhile strip_char (rev (take n s)))"
proof (induction n)
  case (Suc n)
  then have "rev (take (Suc n) s) = s ! n # rev (take n s)"
    by (simp add: take_Suc_conv_app_nth)
  with Suc show ?case by (auto simp: take_Suc_conv_app_nth)
qed simp

lemma strip_loop_le: "strip_loop s n \<le> n"
  by (induction n) (auto intro: le_SucI)

section \<open>Properties\<close>

text \<open>C27: the substring searches.  \<^verbatim>\<open>nxt_memstrn\<close> returns the first occurrence of the
  substring in the block and \<^verbatim>\<open>NULL\<close> exactly when there is none, although it gives up as
  soon as the rest of the block is too short; \<^verbatim>\<open>nxt_memcasestrn\<close> does the same up to the case of
  ASCII letters.\<close>

theorem forward_search_first:
  assumes "ss \<noteq> []"
  shows "(case nxt_memstrn s ss of
            None \<Rightarrow> \<forall>j. \<not> occurs (=) ss s j
          | Some k \<Rightarrow> occurs (=) ss s k \<and> (\<forall>j < k. \<not> occurs (=) ss s j)) \<and>
         (case nxt_memcasestrn s ss of
            None \<Rightarrow> \<forall>j. \<not> occurs caseless ss s j
          | Some k \<Rightarrow> occurs caseless ss s k \<and> (\<forall>j < k. \<not> occurs caseless ss s j))"
proof -
  obtain c2 s2 where ss: "ss = c2 # s2" using assms by (cases ss) auto
  show ?thesis
    using exact.loop_first [of c2 s2 s 0] nocase.loop_first [of c2 s2 s 0]
    by (simp add: ss nxt_memstrn_def nxt_memcasestrn_def split: option.splits)
qed

theorem forward_search_first_witness:
  "nxt_memstrn (bytes ''aabab'') (bytes ''ab'') = Some 1 \<and>
   nxt_memcasestrn (bytes ''aABab'') (bytes ''Ab'') = Some 1 \<and>
   \<not> occurs (=) (bytes ''ab'') (bytes ''aabab'') 0"
proof -
  have "nxt_memstrn (bytes ''aabab'') (bytes ''ab'') = Some 1"
    "nxt_memcasestrn (bytes ''aABab'') (bytes ''Ab'') = Some 1" "bytes ''ab'' \<noteq> []" by code_simp+
  then show ?thesis using forward_search_first [of "bytes ''ab''" "bytes ''aabab''"] by simp
qed

text \<open>C28: \<^verbatim>\<open>nxt_rmemstrn\<close> returns the last occurrence of the substring among the
  offsets above zero.  The loop condition \<^verbatim>\<open>s < s1\<close> ends the search before offset zero is
  compared, so a substring that occurs only at the start of the block is not found.\<close>

theorem nxt_rmemstrn_last:
  assumes "ss \<noteq> []"
  shows "case nxt_rmemstrn s ss of
           None \<Rightarrow> \<forall>j > 0. \<not> occurs (=) ss s j
         | Some k \<Rightarrow> 0 < k \<and> occurs (=) ss s k \<and> (\<forall>j > k. \<not> occurs (=) ss s j)"
proof -
  obtain c2 s2 where ss: "ss = c2 # s2" using assms by (cases ss) auto
  have far: "\<not> occurs (=) ss s j" if "length s - length ss < j" for j
    using that by (auto simp: occurs_def)
  show ?thesis
  proof (cases "length s < length ss")
    case True
    then show ?thesis by (simp add: nxt_rmemstrn_def occurs_def)
  next
    case False
    then have "nxt_rmemstrn s ss = rmemstrn_loop s c2 s2 (length s - length ss)"
      by (simp add: nxt_rmemstrn_def ss)
    moreover have "length s - length ss + length (c2 # s2) \<le> length s"
      using False by (simp add: ss)
    note rmemstrn_loop_last [OF this]
    ultimately show ?thesis
      using far unfolding ss [symmetric] by (auto split: option.splits) (metis leI)+
  qed
qed

theorem nxt_rmemstrn_last_witness:
  "nxt_rmemstrn (bytes ''xab.ab'') (bytes ''ab'') = Some 4 \<and>
   nxt_rmemstrn (bytes ''ab.x'') (bytes ''ab'') = None \<and> occurs (=) (bytes ''ab'') (bytes ''ab.x'') 0 \<and>
   \<not> occurs (=) (bytes ''ab'') (bytes ''ab.x'') 1"
proof -
  have "nxt_rmemstrn (bytes ''xab.ab'') (bytes ''ab'') = Some 4"
    "nxt_rmemstrn (bytes ''ab.x'') (bytes ''ab'') = None" "bytes ''ab'' \<noteq> []"
    "occurs (=) (bytes ''ab'') (bytes ''ab.x'') 0" by code_simp+
  then show ?thesis using nxt_rmemstrn_last [of "bytes ''ab''" "bytes ''ab.x''"] by simp
qed

text \<open>C26: version comparison.  \<^verbatim>\<open>nxt_strverscmp\<close> is antisymmetric, and where two versions
  agree up to a numeric part that has no leading zero, the one with the smaller number is
  smaller whatever follows: 1.9 comes before 1.10.\<close>

theorem nxt_strverscmp_order:
  assumes "0 \<notin> set p" and "p = [] \<or> \<not> nxt_isdigit (last p)"
    and "list_all nxt_isdigit a" and "a \<noteq> []" and "hd a \<noteq> c_0"
    and "list_all nxt_isdigit b" and "b \<noteq> []" and "hd b \<noteq> c_0"
    and "\<not> nxt_isdigit (at x)" and "\<not> nxt_isdigit (at y)"
  shows "(dec_value a < dec_value b \<longrightarrow> nxt_strverscmp (p @ a @ x) (p @ b @ y) < 0) \<and>
         (dec_value b < dec_value a \<longrightarrow> nxt_strverscmp (p @ a @ x) (p @ b @ y) > 0) \<and>
         nxt_strverscmp s1 s2 = - nxt_strverscmp s2 s1"
  using assms numeric_order_sign [of a b x y] numeric_order_sign [of b a y x]
    nxt_strverscmp_swap [of "a @ x" "b @ y"] nxt_strverscmp_swap [of s1 s2]
  by (simp add: nxt_strverscmp_prefix)

theorem nxt_strverscmp_order_witness:
  "nxt_strverscmp (bytes ''1.9rc'') (bytes ''1.10'') < 0"
proof -
  have "bytes ''1.9rc'' = bytes ''1.'' @ bytes ''9'' @ bytes ''rc''"
    "bytes ''1.10'' = bytes ''1.'' @ bytes ''10'' @ []"
    "0 \<notin> set (bytes ''1.'')" "\<not> nxt_isdigit (last (bytes ''1.''))"
    "list_all nxt_isdigit (bytes ''9'')" "bytes ''9'' \<noteq> []" "hd (bytes ''9'') \<noteq> c_0"
    "list_all nxt_isdigit (bytes ''10'')" "bytes ''10'' \<noteq> []" "hd (bytes ''10'') \<noteq> c_0"
    "\<not> nxt_isdigit (at (bytes ''rc''))" "dec_value (bytes ''9'') < dec_value (bytes ''10'')"
    by code_simp+
  then show ?thesis
    using nxt_strverscmp_order [of "bytes ''1.''" "bytes ''9''" "bytes ''10''" "bytes ''rc''" "[]" "[]" "[]"]
    by simp
qed

text \<open>C29: the three caseless comparisons return zero exactly when the strings are equal after
  folding ASCII letters to lower case, and \<^verbatim>\<open>nxt_str_strip\<close> returns the length of the
  string without its trailing CR, LF, SP and HTAB.\<close>

theorem caseless_compare_strip:
  assumes "0 \<notin> set s1" and "0 \<notin> set s2"
  shows "(nxt_strcasecmp s1 s2 = 0 \<longleftrightarrow> nxt_memcpy_lowcase s1 = nxt_memcpy_lowcase s2) \<and>
    (nxt_strncasecmp s1 s2 n = 0 \<longleftrightarrow> nxt_memcpy_lowcase (take n s1) = nxt_memcpy_lowcase (take n s2)) \<and>
    (length s1 = length s2 \<longrightarrow>
       (nxt_memcasecmp s1 s2 = 0 \<longleftrightarrow> nxt_memcpy_lowcase s1 = nxt_memcpy_lowcase s2)) \<and>
    take (nxt_str_strip s1) s1 = rev (dropWhile strip_char (rev s1)) \<and> nxt_str_strip s1 \<le> length s1"
  using assms nxt_strcasecmp_zero nxt_strncasecmp_zero nxt_memcasecmp_zero
    strip_loop_take [of "length s1" s1] strip_loop_le [of s1 "length s1"]
  by (simp add: nxt_memcpy_lowcase_map nxt_str_strip_def)

theorem caseless_compare_strip_witness:
  "nxt_strcasecmp (bytes ''Host \<newline>'') (bytes ''hOST \<newline>'') = 0 \<and>
   take (nxt_str_strip (bytes ''Host \<newline>'')) (bytes ''Host \<newline>'') = bytes ''Host''"
proof -
  have "0 \<notin> set (bytes ''Host \<newline>'')" "0 \<notin> set (bytes ''hOST \<newline>'')"
    "nxt_memcpy_lowcase (bytes ''Host \<newline>'') = nxt_memcpy_lowcase (bytes ''hOST \<newline>'')"
    "rev (dropWhile strip_char (rev (bytes ''Host \<newline>''))) = bytes ''Host''" by code_simp+
  then show ?thesis
    using caseless_compare_strip [of "bytes ''Host \<newline>''" "bytes ''hOST \<newline>''" 0] by simp
qed

end
