(* ===== verification/Nxt_Uri.thy ===== *)
theory Nxt_Uri
  imports Nxt_Prelude
begin

text \<open>
  Percent encoding and base64 of \<^verbatim>\<open>src/nxt_string.c\<close>.  A function with a \<^verbatim>\<open>dst\<close> argument
  returns the bytes it writes; \<open>None\<close> is the \<^verbatim>\<open>NULL\<close> of an error.  Where the sources use one
  function both to measure (\<^verbatim>\<open>dst == NULL\<close>) and to write, the two halves are two definitions.
  The tables are the tables of the sources.
\<close>

section \<open>Tables\<close>

definition nxt_hex2int :: "uint8 list" where
  "nxt_hex2int =
    [16, 16, 16, 16, 16, 16, 16, 16, 16, 16, 16, 16, 16, 16, 16, 16,
     16, 16, 16, 16, 16, 16, 16, 16, 16, 16, 16, 16, 16, 16, 16, 16,
     16, 16, 16, 16, 16, 16, 16, 16, 16, 16, 16, 16, 16, 16, 16, 16,
     0, 1, 2, 3, 4, 5, 6, 7, 8, 9, 16, 16, 16, 16, 16, 16,
     16, 10, 11, 12, 13, 14, 15, 16, 16, 16, 16, 16, 16, 16, 16, 16,
     16, 16, 16, 16, 16, 16, 16, 16, 16, 16, 16, 16, 16, 16, 16, 16,
     16, 10, 11, 12, 13, 14, 15, 16, 16, 16, 16, 16, 16, 16, 16, 16,
     16, 16, 16, 16, 16, 16, 16, 16, 16, 16, 16, 16, 16, 16, 16, 16,
     16, 16, 16, 16, 16, 16, 16, 16, 16, 16, 16, 16, 16, 16, 16, 16,
     16, 16, 16, 16, 16, 16, 16, 16, 16, 16, 16, 16, 16, 16, 16, 16,
     16, 16, 16, 16, 16, 16, 16, 16, 16, 16, 16, 16, 16, 16, 16, 16,
     16, 16, 16, 16, 16, 16, 16, 16, 16, 16, 16, 16, 16, 16, 16, 16,
     16, 16, 16, 16, 16, 16, 16, 16, 16, 16, 16, 16, 16, 16, 16, 16,
     16, 16, 16, 16, 16, 16, 16, 16, 16, 16, 16, 16, 16, 16, 16, 16,
     16, 16, 16, 16, 16, 16, 16, 16, 16, 16, 16, 16, 16, 16, 16, 16,
     16, 16, 16, 16, 16, 16, 16, 16, 16, 16, 16, 16, 16, 16, 16, 16]"

definition nxt_uri_escape :: "uint32 list" where
  "nxt_uri_escape =
     [0xffffffff, 0xd000002d, 0x50000000, 0xb8000001, 0xffffffff, 0xffffffff, 0xffffffff, 0xffffffff]"

definition base64_table :: "uint8 list" where
  "base64_table =
    [77, 77, 77, 77, 77, 77, 77, 77, 77, 77, 77, 77, 77, 77, 77, 77,
     77, 77, 77, 77, 77, 77, 77, 77, 77, 77, 77, 77, 77, 77, 77, 77,
     77, 77, 77, 77, 77, 77, 77, 77, 77, 77, 77, 62, 77, 77, 77, 63,
     52, 53, 54, 55, 56, 57, 58, 59, 60, 61, 77, 77, 77, 77, 77, 77,
     77, 0, 1, 2, 3, 4, 5, 6, 7, 8, 9, 10, 11, 12, 13, 14,
     15, 16, 17, 18, 19, 20, 21, 22, 23, 24, 25, 77, 77, 77, 77, 77,
     77, 26, 27, 28, 29, 30, 31, 32, 33, 34, 35, 36, 37, 38, 39, 40,
     41, 42, 43, 44, 45, 46, 47, 48, 49, 50, 51, 77, 77, 77, 77, 77,
     77, 77, 77, 77, 77, 77, 77, 77, 77, 77, 77, 77, 77, 77, 77, 77,
     77, 77, 77, 77, 77, 77, 77, 77, 77, 77, 77, 77, 77, 77, 77, 77,
     77, 77, 77, 77, 77, 77, 77, 77, 77, 77, 77, 77, 77, 77, 77, 77,
     77, 77, 77, 77, 77, 77, 77, 77, 77, 77, 77, 77, 77, 77, 77, 77,
     77, 77, 77, 77, 77, 77, 77, 77, 77, 77, 77, 77, 77, 77, 77, 77,
     77, 77, 77, 77, 77, 77, 77, 77, 77, 77, 77, 77, 77, 77, 77, 77,
     77, 77, 77, 77, 77, 77, 77, 77, 77, 77, 77, 77, 77, 77, 77, 77,
     77, 77, 77, 77, 77, 77, 77, 77, 77, 77, 77, 77, 77, 77, 77, 77]"

definition hex :: "u_char list" where
  "hex = bytes ''0123456789ABCDEF''"

definition hex2int :: "u_char \<Rightarrow> uint8" where
  "hex2int c = nxt_hex2int ! unat c"

definition base64_val :: "u_char \<Rightarrow> uint8" where
  "base64_val c = base64_table ! unat c"

text \<open>The test \<^verbatim>\<open>nxt_uri_escape[ch >> 5] & (1U << (ch & 0x1f))\<close>.\<close>

definition uri_escape :: "u_char \<Rightarrow> bool" where
  "uri_escape ch \<longleftrightarrow> (nxt_uri_escape ! unat (drop_bit 5 ch)) AND push_bit (unat (ch AND 0x1f)) 1 \<noteq> 0"

section \<open>Percent encoding\<close>

fun nxt_decode_uri :: "nxt_str \<Rightarrow> nxt_str option" where
  "nxt_decode_uri [] = Some []"
| "nxt_decode_uri (ch # src) =
     (if ch = c_percent then
        case src of
          h0 # h1 # src' \<Rightarrow>
            let d0 = hex2int h0; d1 = hex2int h1 in
            if 16 \<le> d0 OR d1 then None
            else map_option ((#) (push_bit 4 d0 + d1)) (nxt_decode_uri src')
        | _ \<Rightarrow> None
      else map_option ((#) ch) (nxt_decode_uri src))"

fun nxt_decode_uri_plus :: "nxt_str \<Rightarrow> nxt_str option" where
  "nxt_decode_uri_plus [] = Some []"
| "nxt_decode_uri_plus (ch # src) =
     (if ch = c_percent then
        case src of
          h0 # h1 # src' \<Rightarrow>
            let d0 = hex2int h0; d1 = hex2int h1 in
            if 16 \<le> d0 OR d1 then None
            else map_option ((#) (push_bit 4 d0 + d1)) (nxt_decode_uri_plus src')
        | _ \<Rightarrow> None
      else if ch = c_plus then map_option ((#) c_space) (nxt_decode_uri_plus src)
      else map_option ((#) ch) (nxt_decode_uri_plus src))"

text \<open>\<^verbatim>\<open>nxt_encode_uri(NULL, ...)\<close>: the number of characters to be escaped.\<close>

fun encode_uri_count :: "nxt_str \<Rightarrow> nxt_uint_t \<Rightarrow> nxt_uint_t" where
  "encode_uri_count [] n = n"
| "encode_uri_count (ch # src) n = encode_uri_count src (if uri_escape ch then n + 1 else n)"

definition hex_byte :: "u_char \<Rightarrow> nxt_str" where
  "hex_byte ch = [c_percent, hex ! unat (drop_bit 4 ch), hex ! unat (ch AND 0xf)]"

fun nxt_encode_uri :: "nxt_str \<Rightarrow> nxt_str" where
  "nxt_encode_uri [] = []"
| "nxt_encode_uri (ch # src) =
     (if uri_escape ch then hex_byte ch else [ch]) @ nxt_encode_uri src"

text \<open>
  The functions for a whole URI let the first question mark and the first hash sign pass.  Their
  \<^verbatim>\<open>reserved\<close> pointer runs over the literal \<^verbatim>\<open>"?#\0"\<close>, four bytes with its terminator; \<open>r\<close> is
  its offset there.  A read outside the literal is the outer \<open>None\<close>; otherwise the test yields the new
  offset when the character is let through.
\<close>

definition reserved_lit :: "nxt_str" where
  "reserved_lit = [c_question, c_hash, 0, 0]"

definition reserved_test :: "nat \<Rightarrow> u_char \<Rightarrow> nat option option" where
  "reserved_test r ch =
     (if length reserved_lit \<le> r then None
      else if ch = reserved_lit ! r then Some (Some (r + 1))
      else if length reserved_lit \<le> r + 1 then None
      else if ch = reserved_lit ! (r + 1) then Some (Some (r + 2))
      else Some None)"

fun encode_complex_count :: "nat \<Rightarrow> nxt_str \<Rightarrow> nxt_uint_t \<Rightarrow> nxt_uint_t option" where
  "encode_complex_count r [] n = Some n"
| "encode_complex_count r (ch # src) n =
     (if uri_escape ch then
        case reserved_test r ch of
          None \<Rightarrow> None
        | Some (Some r') \<Rightarrow> encode_complex_count r' src n
        | Some None \<Rightarrow> encode_complex_count r src (n + 1)
      else encode_complex_count r src n)"

fun encode_complex_write :: "nat \<Rightarrow> nxt_str \<Rightarrow> nxt_str option" where
  "encode_complex_write r [] = Some []"
| "encode_complex_write r (ch # src) =
     (if uri_escape ch then
        case reserved_test r ch of
          None \<Rightarrow> None
        | Some (Some r') \<Rightarrow> map_option ((#) ch) (encode_complex_write r' src)
        | Some None \<Rightarrow> map_option ((@) (hex_byte ch)) (encode_complex_write r src)
      else map_option ((#) ch) (encode_complex_write r src))"

definition nxt_encode_complex_uri :: "nxt_str \<Rightarrow> nxt_str option" where
  "nxt_encode_complex_uri src = encode_complex_write 0 src"

fun complex_encoded :: "nat \<Rightarrow> nxt_str \<Rightarrow> bool option" where
  "complex_encoded r [] = Some True"
| "complex_encoded r (ch # src) =
     (if uri_escape ch then
        if ch = c_percent then
          case src of
            h0 # h1 # src' \<Rightarrow>
              if 16 \<le> hex2int h0 OR hex2int h1 then Some False else complex_encoded r src'
          | _ \<Rightarrow> Some False
        else
          case reserved_test r ch of
            None \<Rightarrow> None
          | Some (Some r') \<Rightarrow> complex_encoded r' src
          | Some None \<Rightarrow> Some False
      else complex_encoded r src)"

definition nxt_is_complex_uri_encoded :: "nxt_str \<Rightarrow> bool option" where
  "nxt_is_complex_uri_encoded src = complex_encoded 0 src"

section \<open>Base64\<close>

text \<open>\<^verbatim>\<open>nxt_base64_decode(NULL, ...)\<close>: the check of the input and the size of the result.\<close>

fun base64_scan :: "nxt_str \<Rightarrow> nat \<Rightarrow> nat option" where
  "base64_scan [] pad = Some pad"
| "base64_scan (c # src) pad =
     (if base64_val c \<noteq> 77 then base64_scan src pad
      else if pad = 0 then
        let pad = length (c # src) in
        if (pad = 1 \<or> pad = 2 \<and> src ! 0 = c_equals) \<and> c = c_equals then Some pad else None
      else None)"

definition base64_pad :: "nat \<Rightarrow> nat" where
  "base64_pad len = (4 - len mod 4) mod 4"

definition base64_size :: "nxt_str \<Rightarrow> int" where
  "base64_size src =
     (let pad = base64_pad (length src) in
      if 2 < pad then -1
      else case base64_scan src pad of
        None \<Rightarrow> -1
      | Some pad \<Rightarrow> int ((length src + 3) div 4 * 3) - int pad)"

text \<open>
  The writing half: \<open>n\<close> is \<^verbatim>\<open>end - src\<close>.  The loop returns the bytes written and the input
  that remains; \<open>None\<close> is a read past the end of the input.
\<close>

fun base64_loop :: "nxt_str \<Rightarrow> nat \<Rightarrow> (nxt_str \<times> nxt_str) option" where
  "base64_loop src 0 = Some ([], src)"
| "base64_loop (s0 # s1 # s2 # s3 # src) (Suc n) =
     (let v1 = base64_val s0; v2 = base64_val s1; v3 = base64_val s2; v4 = base64_val s3 in
      case base64_loop src (Suc n - 4) of
        None \<Rightarrow> None
      | Some (out, src') \<Rightarrow>
          Some ((push_bit 2 v1 OR drop_bit 4 v2) # (push_bit 4 v2 OR drop_bit 2 v3)
            # (push_bit 6 v3 OR v4) # out, src'))"
| "base64_loop _ (Suc n) = None"

definition base64_rest :: "nxt_str \<Rightarrow> nat \<Rightarrow> nxt_str option" where
  "base64_rest src pad =
     (if pad = 0 then Some []
      else case src of
        s0 # s1 # src' \<Rightarrow>
          let v1 = base64_val s0; v2 = base64_val s1; b = push_bit 2 v1 OR drop_bit 4 v2 in
          if pad = 1 then
            case src' of
              [] \<Rightarrow> None
            | s2 # _ \<Rightarrow> Some [b, push_bit 4 v2 OR drop_bit 2 (base64_val s2)]
          else Some [b]
      | _ \<Rightarrow> None)"

definition nxt_base64_decode :: "nxt_str \<Rightarrow> nxt_str option" where
  "nxt_base64_decode src =
     (let len = length src; pad = base64_pad len;
          (pad, n) =
            (if pad = 0 then
               let pad = of_bool (src ! (len - 1) = c_equals) + of_bool (src ! (len - 2) = c_equals)
               in (pad, len - ((pad + 3) AND 4))
             else (pad, len - (4 - pad)))
      in case base64_loop src n of
           None \<Rightarrow> None
         | Some (out, rest) \<Rightarrow> map_option ((@) out) (base64_rest rest pad))"

section \<open>What the tables hold\<close>

definition hex_digit_value :: "nat \<Rightarrow> nat" where
  "hex_digit_value n =
     (if 48 \<le> n \<and> n \<le> 57 then n - 48
      else if 65 \<le> n \<and> n \<le> 70 then n - 55
      else if 97 \<le> n \<and> n \<le> 102 then n - 87
      else 16)"

definition base64_alphabet :: nxt_str where
  "base64_alphabet = bytes ''ABCDEFGHIJKLMNOPQRSTUVWXYZabcdefghijklmnopqrstuvwxyz0123456789+/''"

lemma nxt_hex2int_table: "map unat nxt_hex2int = map hex_digit_value [0..<256]"
  by code_simp

lemma hex2int_value: "unat (hex2int c) = hex_digit_value (unat c)"
proof -
  have "length nxt_hex2int = 256" using arg_cong [OF nxt_hex2int_table, of length] by simp
  then have "unat (nxt_hex2int ! unat c) = map unat nxt_hex2int ! unat c" by simp
  then show ?thesis by (simp add: hex2int_def nxt_hex2int_table)
qed

lemma hex2int_hex: "i < 16 \<Longrightarrow> hex2int (hex ! i) = of_nat i"
proof -
  assume "i < 16"
  moreover have "list_all (\<lambda>i. hex2int (hex ! i) = of_nat i) [0..<16]" by code_simp
  ultimately show ?thesis by (simp add: list_all_iff)
qed

definition base64_digit_value :: "nat \<Rightarrow> nat" where
  "base64_digit_value n =
     (if 65 \<le> n \<and> n \<le> 90 then n - 65
      else if 97 \<le> n \<and> n \<le> 122 then n - 71
      else if 48 \<le> n \<and> n \<le> 57 then n + 4
      else if n = 43 then 62
      else if n = 47 then 63
      else 77)"

definition base64_digit :: "nat \<Rightarrow> nat" where
  "base64_digit i =
     (if i < 26 then 65 + i else if i < 52 then 71 + i else if i < 62 then i - 4
      else if i = 62 then 43 else 47)"

lemma base64_tables:
  "map unat base64_table = map base64_digit_value [0..<256]"
  "map unat base64_alphabet = map base64_digit [0..<64]"
  by code_simp+

lemma base64_val_value: "unat (base64_val c) = base64_digit_value (unat c)"
proof -
  have "length base64_table = 256" using arg_cong [OF base64_tables(1), of length] by simp
  then have "unat (base64_table ! unat c) = map unat base64_table ! unat c" by simp
  then show ?thesis by (simp add: base64_val_def base64_tables)
qed

lemma base64_val_alphabet:
  assumes "i < 64"
  shows "base64_val (base64_alphabet ! i) = of_nat i" "base64_alphabet ! i \<noteq> c_equals"
proof -
  have "length base64_alphabet = 64" using arg_cong [OF base64_tables(2), of length] by simp
  then have u: "unat (base64_alphabet ! i) = base64_digit i"
    using assms by (metis base64_tables(2) length_map nth_map add_0 diff_zero length_upt nth_upt)
  show "base64_alphabet ! i \<noteq> c_equals"
    using assms by (auto simp: word_unat_eq_iff u base64_digit_def split: if_splits)
  have "unat (base64_val (base64_alphabet ! i)) = i"
    using assms by (auto simp: base64_val_value u base64_digit_def base64_digit_value_def split: if_splits)
  then show "base64_val (base64_alphabet ! i) = of_nat i" by (metis of_nat_unat ucast_id)
qed

lemma base64_val_equals [simp]: "base64_val c_equals = 77"
  by (simp add: word_unat_eq_iff base64_val_value base64_digit_value_def)

lemma uri_escape_percent [simp]: "uri_escape c_percent"
  by code_simp

section \<open>Round trips of percent encoding\<close>

lemma hex_byte_value:
  "hex2int (hex ! unat (drop_bit 4 ch)) = drop_bit 4 ch"
  "hex2int (hex ! unat (ch AND 0xf)) = ch AND 0xf"
  "\<not> 16 \<le> drop_bit 4 ch OR (ch AND 0xf)"
  "push_bit 4 (drop_bit 4 ch) + (ch AND 0xf) = (ch :: u_char)"
proof -
  have l: "unat (drop_bit 4 ch) < 16" "unat (ch AND 0xf) < 16"
    using byte_lt [of ch] by (simp_all add: unat_drop_bit unat_and_literal less_mult_imp_div_less)
  show "hex2int (hex ! unat (drop_bit 4 ch)) = drop_bit 4 ch"
    "hex2int (hex ! unat (ch AND 0xf)) = ch AND 0xf"
    using l by (simp_all add: hex2int_hex)
  have "drop_bit 4 ch OR (ch AND 0xf) = take_bit 4 (drop_bit 4 ch OR (ch AND 0xf))"
    by (rule bit_word_eqI) (auto simp: bit_simps mask_literals dest: bit_imp_le_length)
  then have "take_bit 4 (drop_bit 4 ch OR (ch AND 0xf)) = drop_bit 4 ch OR (ch AND 0xf)" by (rule sym)
  from take_bit_unat_lt [OF this] show "\<not> 16 \<le> drop_bit 4 ch OR (ch AND 0xf)"
    by (simp add: word_le_nat_alt)
  have "ch AND 0xf = take_bit 4 ch"
    by (rule bit_word_eqI) (auto simp: bit_simps mask_literals)
  then show "push_bit 4 (drop_bit 4 ch) + (ch AND 0xf) = ch"
    by (simp only: bits_ident)
qed

lemma decode_hex_byte: "nxt_decode_uri (hex_byte ch @ s) = map_option ((#) ch) (nxt_decode_uri s)"
  by (simp add: hex_byte_def hex_byte_value Let_def)

lemma complex_encoded_hex_byte: "complex_encoded r (hex_byte ch @ s) = complex_encoded r s"
  by (simp add: hex_byte_def hex_byte_value)

lemma length_hex_byte [simp]: "length (hex_byte ch) = 3"
  by (simp add: hex_byte_def)

lemma escape_other: "\<not> uri_escape ch \<Longrightarrow> ch \<noteq> c_percent"
  using uri_escape_percent by blast

lemma decode_other: "ch \<noteq> c_percent \<Longrightarrow> nxt_decode_uri (ch # s) = map_option ((#) ch) (nxt_decode_uri s)"
  by simp

lemmas decode_steps = decode_hex_byte decode_other escape_other

lemma nxt_decode_encode: "nxt_decode_uri (nxt_encode_uri s) = Some s"
  by (induction s) (auto simp: decode_steps simp del: nxt_decode_uri.simps(2))

definition escapes :: "nxt_str \<Rightarrow> nat" where
  "escapes s = length (filter uri_escape s)"

lemma encode_uri_length: "length (nxt_encode_uri s) = length s + 2 * escapes s"
  by (induction s) (simp_all add: escapes_def)

lemma encode_uri_count: "encode_uri_count s n = n + of_nat (escapes s)"
  by (induction s arbitrary: n) (simp_all add: escapes_def)

text \<open>The offset stays inside the literal as long as no zero byte is read.\<close>

lemma reserved_test_cases:
  assumes "r \<le> 2" and "ch \<noteq> 0"
  obtains (pass) r' where "reserved_test r ch = Some (Some r')" "r' \<le> 2" "ch = c_question \<or> ch = c_hash"
    | (escape) "reserved_test r ch = Some None"
proof -
  consider "r = 0" | "r = 1" | "r = 2" using assms(1) by linarith
  then have "reserved_test r ch = Some None \<or>
      (\<exists>r' \<le> 2. reserved_test r ch = Some (Some r') \<and> (ch = c_question \<or> ch = c_hash))"
    using assms(2) by cases (auto simp: reserved_test_def reserved_lit_def)
  then show thesis using that by blast
qed

lemma complex_encoded_other:
  "\<not> uri_escape ch \<Longrightarrow> complex_encoded r (ch # s) = complex_encoded r s"
  "uri_escape ch \<Longrightarrow> ch \<noteq> c_percent \<Longrightarrow> reserved_test r ch = Some (Some r') \<Longrightarrow>
     complex_encoded r (ch # s) = complex_encoded r' s"
  by simp_all

lemma encode_complex_write_ok:
  "r \<le> 2 \<Longrightarrow> 0 \<notin> set s \<Longrightarrow>
     \<exists>out k. encode_complex_write r s = Some out \<and> encode_complex_count r s n = Some (n + of_nat k) \<and>
       length out = length s + 2 * k \<and> nxt_decode_uri out = Some s \<and> complex_encoded r out = Some True"
proof (induction s arbitrary: r n)
  case Nil
  then show ?case by (intro exI [of _ "[]"] exI [of _ 0]) simp
next
  case (Cons ch s)
  show ?case
  proof (cases "uri_escape ch")
    case False
    obtain out k where "encode_complex_write r s = Some out" "encode_complex_count r s n = Some (n + of_nat k)"
       "length out = length s + 2 * k" "nxt_decode_uri out = Some s" "complex_encoded r out = Some True"
      using Cons.IH [of r n] Cons.prems by auto
    with False show ?thesis
      by (intro exI [of _ "ch # out"] exI [of _ k]) (simp add: decode_steps del: nxt_decode_uri.simps(2))
  next
    case True
    have "ch \<noteq> 0" using Cons.prems by auto
    with Cons.prems(1) show ?thesis
    proof (cases rule: reserved_test_cases)
      case (pass r')
      obtain out k where "encode_complex_write r' s = Some out" "encode_complex_count r' s n = Some (n + of_nat k)"
         "length out = length s + 2 * k" "nxt_decode_uri out = Some s" "complex_encoded r' out = Some True"
        using Cons.IH [of r' n] Cons.prems pass by auto
      with True pass show ?thesis
        by (intro exI [of _ "ch # out"] exI [of _ k]) (auto simp: decode_steps simp del: nxt_decode_uri.simps(2))
    next
      case escape
      obtain out k where "encode_complex_write r s = Some out" "encode_complex_count r s (n + 1) = Some (n + 1 + of_nat k)"
         "length out = length s + 2 * k" "nxt_decode_uri out = Some s" "complex_encoded r out = Some True"
        using Cons.IH [of r "n + 1"] Cons.prems by auto
      with True escape show ?thesis
        by (intro exI [of _ "hex_byte ch @ out"] exI [of _ "k + 1"])
          (auto simp: decode_steps complex_encoded_hex_byte simp del: nxt_decode_uri.simps(2) complex_encoded.simps(2))
    qed
  qed
qed

lemma nxt_decode_uri_length: "nxt_decode_uri s = Some out \<Longrightarrow> length out \<le> length s"
proof (induction s arbitrary: out rule: nxt_decode_uri.induct)
  case (2 ch src)
  show ?case
  proof (cases "ch = c_percent")
    case True
    with "2.prems" obtain h0 h1 src' where src: "src = h0 # h1 # src'"
      by (auto split: list.splits)
    with "2.prems" True obtain o' where "nxt_decode_uri src' = Some o'" "length out = Suc (length o')"
      by (auto simp: Let_def split: if_splits)
    with "2.IH"(1) [OF True src refl refl refl] show ?thesis
      using "2.prems" src True by (auto simp: Let_def split: if_splits)
  next
    case False
    with "2.IH"(2) "2.prems" show ?thesis by auto
  qed
qed simp

section \<open>Base64\<close>

text \<open>The encoding of RFC 4648, with or without padding.\<close>

definition base64_char :: "uint8 \<Rightarrow> u_char" where
  "base64_char v = base64_alphabet ! unat v"

fun base64_encode :: "bool \<Rightarrow> nxt_str \<Rightarrow> nxt_str" where
  "base64_encode pad [] = []"
| "base64_encode pad [a] =
     [base64_char (drop_bit 2 a), base64_char (push_bit 4 (take_bit 2 a))] @ (if pad then [c_equals, c_equals] else [])"
| "base64_encode pad [a, b] =
     [base64_char (drop_bit 2 a), base64_char (push_bit 4 (take_bit 2 a) OR drop_bit 4 b),
      base64_char (push_bit 2 (take_bit 4 b))] @ (if pad then [c_equals] else [])"
| "base64_encode pad (a # b # c # bs) =
     [base64_char (drop_bit 2 a), base64_char (push_bit 4 (take_bit 2 a) OR drop_bit 4 b),
      base64_char (push_bit 2 (take_bit 4 b) OR drop_bit 6 c), base64_char (take_bit 6 c)] @ base64_encode pad bs"

lemma base64_val_char:
  assumes "take_bit 6 v = v"
  shows "base64_val (base64_char v) = v" "base64_char v \<noteq> c_equals" "base64_val (base64_char v) \<noteq> 77"
proof -
  have v: "unat v < 64" using take_bit_unat_lt [OF assms] by simp
  show e: "base64_val (base64_char v) = v" and "base64_char v \<noteq> c_equals"
    using base64_val_alphabet [OF v] by (simp_all add: base64_char_def)
  show "base64_val (base64_char v) \<noteq> 77"
    unfolding e using v by (auto simp: word_unat_eq_iff)
qed

lemma sextets:
  "take_bit 6 (drop_bit 2 a) = drop_bit 2 (a :: uint8)"
  "take_bit 6 (push_bit 4 (take_bit 2 a)) = push_bit 4 (take_bit 2 a)"
  "take_bit 6 (push_bit 4 (take_bit 2 a) OR drop_bit 4 b) = push_bit 4 (take_bit 2 a) OR drop_bit 4 b"
  "take_bit 6 (push_bit 2 (take_bit 4 b)) = push_bit 2 (take_bit 4 b)"
  "take_bit 6 (push_bit 2 (take_bit 4 b) OR drop_bit 6 c) = push_bit 2 (take_bit 4 b) OR drop_bit 6 c"
  "take_bit 6 (take_bit 6 c) = take_bit 6 c"
  by (rule bit_word_eqI; auto simp: bit_simps mask_literals dest: bit_imp_le_length)+

lemmas base64_chars = base64_val_char [OF sextets(1)] base64_val_char [OF sextets(2)]
  base64_val_char [OF sextets(3)] base64_val_char [OF sextets(4)] base64_val_char [OF sextets(5)]
  base64_val_char [OF sextets(6)]

lemma octets:
  "push_bit 2 (drop_bit 2 a) OR drop_bit 4 (push_bit 4 (take_bit 2 a)) = (a :: uint8)"
  "push_bit 2 (drop_bit 2 a) OR drop_bit 4 (push_bit 4 (take_bit 2 a) OR drop_bit 4 b) = a"
  "push_bit 4 (push_bit 4 (take_bit 2 a) OR drop_bit 4 b) OR drop_bit 2 (push_bit 2 (take_bit 4 b)) = b"
  "push_bit 4 (push_bit 4 (take_bit 2 a) OR drop_bit 4 b) OR drop_bit 2 (push_bit 2 (take_bit 4 b) OR drop_bit 6 c) = b"
  "push_bit 6 (push_bit 2 (take_bit 4 b) OR drop_bit 6 c) OR (take_bit 6 c) = c"
  by (rule byte_eqI; simp add: bit_simps)+

lemma uri_escape_bit: "uri_escape ch \<longleftrightarrow> bit (nxt_uri_escape ! (unat ch div 32)) (unat ch mod 32)"
proof -
  have "push_bit n 1 = (2 :: uint32) ^ n" for n by (simp add: push_bit_eq_mult)
  moreover have "(2 :: uint32) ^ (unat ch mod 32) \<noteq> 0" by simp
  ultimately show ?thesis
    by (simp add: uri_escape_def unat_drop_bit unat_and_literal word_and_pow del: push_bit_of_1)
qed

lemma uri_escape_words:
  "(0xd000002d :: uint32) = 2^0 OR 2^2 OR 2^3 OR 2^5 OR 2^28 OR 2^30 OR 2^31"
  "(0x50000000 :: uint32) = 2^28 OR 2^30"
  "(0xb8000001 :: uint32) = 2^0 OR 2^27 OR 2^28 OR 2^29 OR 2^31"
  "(0xffffffff :: uint32) = mask 32"
  by (simp_all add: mask_eq_exp_minus_1)

lemma bit_exp_uint32: "bit ((2 :: uint32) ^ k) j \<longleftrightarrow> k < 32 \<and> j = k"
  by (auto simp: bit_exp_iff)

lemma uri_escape_bits:
  "bit (0xd000002d :: uint32) j \<longleftrightarrow> j = 0 \<or> j = 2 \<or> j = 3 \<or> j = 5 \<or> j = 28 \<or> j = 30 \<or> j = 31"
  "bit (0x50000000 :: uint32) j \<longleftrightarrow> j = 28 \<or> j = 30"
  "bit (0xb8000001 :: uint32) j \<longleftrightarrow> j = 0 \<or> j = 27 \<or> j = 28 \<or> j = 29 \<or> j = 31"
  "bit (0xffffffff :: uint32) j \<longleftrightarrow> j < 32"
  unfolding uri_escape_words bit_or_iff bit_exp_uint32 bit_mask_iff by simp_all

lemma uri_escape_rows:
  "nxt_uri_escape ! 0 = 0xffffffff" "nxt_uri_escape ! 1 = 0xd000002d"
  "nxt_uri_escape ! 2 = 0x50000000" "nxt_uri_escape ! 3 = 0xb8000001"
  "i = 4 \<or> i = 5 \<or> i = 6 \<or> i = 7 \<Longrightarrow> nxt_uri_escape ! i = 0xffffffff"
  by (auto simp: nxt_uri_escape_def)

lemma uri_escape_iff:
  "uri_escape ch \<longleftrightarrow> ch < 0x21 \<or> 0x7E < ch \<or> ch \<in> set (bytes [CHR 0x22, CHR ''#'', CHR ''%'',
      CHR ''<'', CHR ''>'', CHR ''?'', CHR 0x5C, CHR ''^'', CHR 0x60, CHR ''{'', CHR ''|'', CHR ''}''])"
proof -
  have b: "bytes [CHR 0x22, CHR ''#'', CHR ''%'', CHR ''<'', CHR ''>'', CHR ''?'', CHR 0x5C, CHR ''^'',
      CHR 0x60, CHR ''{'', CHR ''|'', CHR ''}''] =
    [0x22, 0x23, 0x25, 0x3C, 0x3E, 0x3F, 0x5C, 0x5E, 0x60, 0x7B, 0x7C, 0x7D]" by code_simp
  define i j where "i = unat ch div 32" and "j = unat ch mod 32"
  have n: "unat ch = 32 * i + j" and j: "j < 32" by (simp_all add: i_def j_def)
  have e: "uri_escape ch = bit (nxt_uri_escape ! i) j" by (simp add: uri_escape_bit i_def j_def)
  have "i < 8" using byte_lt [of ch] by (simp add: i_def less_mult_imp_div_less)
  then consider "i = 0" | "i = 1" | "i = 2" | "i = 3" | "i = 4 \<or> i = 5 \<or> i = 6 \<or> i = 7" by linarith
  then have "uri_escape ch \<longleftrightarrow> unat ch < 0x21 \<or> 0x7E < unat ch \<or>
      unat ch \<in> set [0x22, 0x23, 0x25, 0x3C, 0x3E, 0x3F, 0x5C, 0x5E, 0x60, 0x7B, 0x7C, 0x7D]"
  proof cases
    case 4
    have "30 < j \<longleftrightarrow> j = 31" using j by linarith
    moreover have "uri_escape ch \<longleftrightarrow> j = 0 \<or> j = 27 \<or> j = 28 \<or> j = 29 \<or> j = 31"
      using 4 e uri_escape_rows(4) uri_escape_bits(3) [of j] by simp
    moreover have "unat ch = 96 + j" using 4 n by simp
    ultimately show ?thesis by (simp add: disj_ac)
  next
    case 5
    then have "126 < unat ch" using n by linarith
    moreover have "uri_escape ch"
      using e j uri_escape_rows(5) [OF 5] uri_escape_bits(4) [of j] by simp
    ultimately show ?thesis by simp
  qed (use j n e uri_escape_bits [of j] uri_escape_rows in simp_all)
  then show ?thesis unfolding b by (simp add: word_less_nat_alt word_unat_eq_iff)
qed

lemma triples:
  assumes "length xs = 3 * Suc k"
  obtains a b c xs' where "xs = a # b # c # xs'" "length xs' = 3 * k"
  using assms by (auto simp: length_Suc_conv numeral_3_eq_3)

lemma base64_encode_append:
  "length xs = 3 * k \<Longrightarrow> base64_encode p (xs @ t) = base64_encode p xs @ base64_encode p t"
proof (induction k arbitrary: xs)
  case (Suc k)
  from Suc.prems obtain a b c xs' where "xs = a # b # c # xs'" "length xs' = 3 * k" by (rule triples)
  with Suc.IH show ?case by simp
qed simp

definition base64_ok :: "u_char \<Rightarrow> bool" where
  "base64_ok c \<longleftrightarrow> base64_val c \<noteq> 77"

lemma base64_ok_equals [simp]: "\<not> base64_ok c_equals"
  by (simp add: base64_ok_def)

lemma base64_ok_char: "take_bit 6 v = v \<Longrightarrow> base64_ok (base64_char v)"
  using base64_val_char(3) by (simp add: base64_ok_def)

lemmas base64_ok_chars = sextets [THEN base64_ok_char]

lemma base64_encode_triples:
  "length xs = 3 * k \<Longrightarrow> length (base64_encode p xs) = 4 * k \<and> list_all base64_ok (base64_encode p xs)"
proof (induction k arbitrary: xs)
  case (Suc k)
  from Suc.prems obtain a b c xs' where "xs = a # b # c # xs'" "length xs' = 3 * k" by (rule triples)
  with Suc.IH show ?case by (simp add: base64_ok_chars)
qed simp

lemma base64_loop_quad:
  "base64_loop (s0 # s1 # s2 # s3 # src) (4 + n) =
     map_option (\<lambda>(out, src').
       ((push_bit 2 (base64_val s0) OR drop_bit 4 (base64_val s1))
        # (push_bit 4 (base64_val s1) OR drop_bit 2 (base64_val s2))
        # (push_bit 6 (base64_val s2) OR base64_val s3) # out, src')) (base64_loop src n)"
proof -
  have "4 + n = Suc (3 + n)" by simp
  then show ?thesis
    by (simp only: base64_loop.simps) (simp add: Let_def split: option.splits)
qed

lemma octets_simp:
  "push_bit 4 (drop_bit 4 b) OR drop_bit 2 (push_bit 2 (take_bit 4 b)) = (b :: uint8)"
  "push_bit 6 (drop_bit 6 b) OR take_bit 6 b = b"
  by (rule byte_eqI; simp add: bit_simps)+

lemma base64_loop_encode:
  "length xs = 3 * k \<Longrightarrow> base64_loop (base64_encode p xs @ r) (4 * k) = Some (xs, r)"
proof (induction k arbitrary: xs)
  case (Suc k)
  from Suc.prems obtain a b c xs' where "xs = a # b # c # xs'" "length xs' = 3 * k" by (rule triples)
  with Suc.IH show ?case by (simp add: base64_loop_quad base64_chars octets octets_simp)
qed simp

lemma base64_loop_length:
  "4 * k \<le> length s \<Longrightarrow> \<exists>out. base64_loop s (4 * k) = Some (out, drop (4 * k) s) \<and> length out = 3 * k"
proof (induction k arbitrary: s)
  case (Suc k)
  then have "Suc (Suc (Suc (Suc (4 * k)))) \<le> length s" by simp
  then obtain s0 s1 s2 s3 s' where s: "s = s0 # s1 # s2 # s3 # s'" "4 * k \<le> length s'"
    by (auto simp: Suc_le_length_iff)
  have "4 + 4 * k = Suc (Suc (Suc (Suc (4 * k))))" by simp
  then have "drop (4 + 4 * k) s = drop (4 * k) s'" by (simp only: s drop_Suc_Cons)
  with Suc.IH [OF s(2)] show ?case by (auto simp: s base64_loop_quad)
qed simp

lemma base64_scan_append:
  "list_all base64_ok s \<Longrightarrow> base64_scan (s @ r) pad = base64_scan r pad"
  by (induction s) (auto simp: base64_ok_def)

lemma base64_scan_Some:
  "base64_scan s pad = Some p \<Longrightarrow>
     (list_all base64_ok s \<and> p = pad) \<or>
     (pad = 0 \<and> (\<exists>v. list_all base64_ok v \<and> (s = v @ [c_equals] \<and> p = 1 \<or> s = v @ [c_equals, c_equals] \<and> p = 2)))"
proof (induction s pad rule: base64_scan.induct)
  case (2 c src pad)
  show ?case
  proof (cases "base64_ok c")
    case True
    then have "base64_val c \<noteq> 77" by (simp add: base64_ok_def)
    with 2 have "(list_all base64_ok src \<and> p = pad) \<or>
     (pad = 0 \<and> (\<exists>v. list_all base64_ok v \<and> (src = v @ [c_equals] \<and> p = 1 \<or> src = v @ [c_equals, c_equals] \<and> p = 2)))"
      by auto
    with True show ?thesis by (metis append_Cons list.pred_inject(2))
  next
    case False
    with "2.prems" show ?thesis
      by (cases src) (auto simp: base64_ok_def Let_def length_Suc_conv split: if_splits intro!: exI [of _ "[]"])
  qed
qed simp

lemma base64_pad_add: "j < 4 \<Longrightarrow> base64_pad (4 * k + j) = (4 - j) mod 4"
  by (simp add: base64_pad_def)

lemma base64_pad_simps:
  "base64_pad (4 * k) = 0" "base64_pad (4 * k + 2) = 2" "base64_pad (4 * k + 3) = 1" "base64_pad (4 * k + 1) = 3"
  using base64_pad_add [of 0 k] base64_pad_add [of 1 k] base64_pad_add [of 2 k] base64_pad_add [of 3 k]
  by simp_all

lemma base64_pad_4: "base64_pad (4 * k + 4) = 0"
  by (simp add: base64_pad_def)

lemma base64_rest_0: "base64_rest r 0 = Some []"
  by (simp add: base64_rest_def)

text \<open>The writing half on an input of each shape.\<close>

lemma nxt_base64_decode_shapes:
  assumes "base64_loop s (4 * k) = Some (out, r)"
  shows
  "length s = 4 * k + 2 \<Longrightarrow> nxt_base64_decode s = map_option ((@) out) (base64_rest r 2)"
  "length s = 4 * k + 3 \<Longrightarrow> nxt_base64_decode s = map_option ((@) out) (base64_rest r 1)"
  "length s = 4 * k \<Longrightarrow> 0 < k \<Longrightarrow>
     s ! (4 * k - 1) \<noteq> c_equals \<Longrightarrow> s ! (4 * k - 2) \<noteq> c_equals \<Longrightarrow> nxt_base64_decode s = Some out"
  "length s = 4 * k + 4 \<Longrightarrow> s ! (4 * k + 3) = c_equals \<Longrightarrow> s ! (4 * k + 2) \<noteq> c_equals \<Longrightarrow>
     nxt_base64_decode s = map_option ((@) out) (base64_rest r 1)"
  "length s = 4 * k + 4 \<Longrightarrow> s ! (4 * k + 3) = c_equals \<Longrightarrow> s ! (4 * k + 2) = c_equals \<Longrightarrow>
     nxt_base64_decode s = map_option ((@) out) (base64_rest r 2)"
  using assms base64_pad_simps [of k] base64_pad_4 [of k] base64_rest_0 [of r]
  by (simp_all add: nxt_base64_decode_def Let_def add.commute [of "4 * k" 3] numeral_2_eq_2)

lemma base64_ok_nth: "list_all base64_ok v \<Longrightarrow> i < length v \<Longrightarrow> v ! i \<noteq> c_equals"
  by (metis base64_ok_equals list_all_length)

lemma base64_rest_length:
  "2 \<le> length r \<Longrightarrow> \<exists>out. base64_rest r 2 = Some out \<and> length out = 1"
  "3 \<le> length r \<Longrightarrow> \<exists>out. base64_rest r 1 = Some out \<and> length out = 2"
  by (auto simp: base64_rest_def Let_def Suc_le_length_iff numeral_2_eq_2 numeral_3_eq_3)

text \<open>A text that passes the check is decoded to exactly the size the check returned.\<close>

lemma base64_size_exact:
  assumes "s \<noteq> []" and "base64_size s = int n"
  shows "\<exists>out. nxt_base64_decode s = Some out \<and> length out = n"
proof -
  obtain p where pad: "base64_pad (length s) \<le> 2"
    and p: "base64_scan s (base64_pad (length s)) = Some p"
    and n: "int ((length s + 3) div 4 * 3) - int p = int n"
    using assms(2) by (auto simp: base64_size_def Let_def split: if_splits option.splits)
  define k where "k = length s div 4"
  have "length s = 4 * k + length s mod 4" "length s mod 4 < 4" by (simp_all add: k_def)
  then consider (0) "length s = 4 * k" | (1) "length s = 4 * k + 1" | (2) "length s = 4 * k + 2"
    | (3) "length s = 4 * k + 3" by linarith
  then show ?thesis
  proof cases
    case 0
    have "0 < k" using 0 assms(1) by (cases k) auto
    then obtain j where j: "k = Suc j" by (cases k) auto
    have loop: "\<exists>out. base64_loop s (4 * i) = Some (out, drop (4 * i) s) \<and> length out = 3 * i" if "i \<le> k" for i
      using that 0 by (intro base64_loop_length) simp
    have r: "length (drop (4 * j) s) = 4" using 0 j by simp
    from base64_scan_Some [OF p] consider (all) "list_all base64_ok s" "p = 0"
      | (one) v where "list_all base64_ok v" "s = v @ [c_equals]" "p = 1"
      | (two) v where "s = v @ [c_equals, c_equals]" "p = 2"
      using 0 by (auto simp: base64_pad_simps)
    then show ?thesis
    proof cases
      case all
      then have "n = 3 * k" using n 0 by simp
      moreover obtain out where "base64_loop s (4 * k) = Some (out, drop (4 * k) s)" "length out = 3 * k"
        using loop [of k] by auto
      moreover have "s ! (4 * k - 1) \<noteq> c_equals" "s ! (4 * k - 2) \<noteq> c_equals"
        using all(1) 0 \<open>0 < k\<close> by (simp_all add: base64_ok_nth)
      ultimately show ?thesis using nxt_base64_decode_shapes(3) [of s k] 0 \<open>0 < k\<close> by auto
    next
      case one
      then have "s ! (4 * j + 3) = c_equals" "s ! (4 * j + 2) \<noteq> c_equals"
        using 0 j base64_ok_nth [of v "4 * j + 2"] by (auto simp: nth_append)
      moreover obtain out where "base64_loop s (4 * j) = Some (out, drop (4 * j) s)" "length out = 3 * j"
        using loop [of j] j by auto
      moreover obtain o' where "base64_rest (drop (4 * j) s) 1 = Some o'" "length o' = 2"
        using base64_rest_length(2) [of "drop (4 * j) s"] r by auto
      moreover have "n = 3 * j + 2" using n 0 j one(3) by simp
      ultimately show ?thesis using nxt_base64_decode_shapes(4) [of s j] 0 j by auto
    next
      case two
      then have "s ! (4 * j + 3) = c_equals" "s ! (4 * j + 2) = c_equals"
        using 0 j by (auto simp: nth_append)
      moreover obtain out where "base64_loop s (4 * j) = Some (out, drop (4 * j) s)" "length out = 3 * j"
        using loop [of j] j by auto
      moreover obtain o' where "base64_rest (drop (4 * j) s) 2 = Some o'" "length o' = 1"
        using base64_rest_length(1) [of "drop (4 * j) s"] r by auto
      moreover have "n = 3 * j + 1" using n 0 j two(2) by simp
      ultimately show ?thesis using nxt_base64_decode_shapes(5) [of s j] 0 j by auto
    qed
  next
    case 1
    then show ?thesis using pad base64_pad_simps(4) [of k] by simp
  next
    case 2
    have "p = 2" using base64_scan_Some [OF p] 2 base64_pad_simps(2) [of k] by auto
    then have "n = 3 * k + 1" using n 2 by simp
    moreover obtain out where "base64_loop s (4 * k) = Some (out, drop (4 * k) s)" "length out = 3 * k"
      using base64_loop_length [of k s] 2 by auto
    moreover obtain o' where "base64_rest (drop (4 * k) s) 2 = Some o'" "length o' = 1"
      using base64_rest_length(1) [of "drop (4 * k) s"] 2 by auto
    ultimately show ?thesis using nxt_base64_decode_shapes(1) [of s k] 2 by auto
  next
    case 3
    have "p = 1" using base64_scan_Some [OF p] 3 base64_pad_simps(3) [of k] by auto
    then have "n = 3 * k + 2" using n 3 by simp
    moreover obtain out where "base64_loop s (4 * k) = Some (out, drop (4 * k) s)" "length out = 3 * k"
      using base64_loop_length [of k s] 3 by auto
    moreover obtain o' where "base64_rest (drop (4 * k) s) 1 = Some o'" "length o' = 2"
      using base64_rest_length(2) [of "drop (4 * k) s"] 3 by auto
    ultimately show ?thesis using nxt_base64_decode_shapes(2) [of s k] 3 by auto
  qed
qed

lemma base64_rest_char:
  "base64_rest (base64_char (drop_bit 2 a) # base64_char (push_bit 4 (take_bit 2 a)) # r) 2 = Some [a]"
  "base64_rest (base64_char (drop_bit 2 a) # base64_char (push_bit 4 (take_bit 2 a) OR drop_bit 4 b)
     # base64_char (push_bit 2 (take_bit 4 b)) # r) 1 = Some [a, b]"
  by (simp_all add: base64_rest_def Let_def base64_chars octets octets_simp)

lemma base64_scan_char:
  "base64_scan (base64_char (drop_bit 2 a) # r) pad = base64_scan r pad"
  "base64_scan (base64_char (push_bit 4 (take_bit 2 a)) # r) pad = base64_scan r pad"
  "base64_scan (base64_char (push_bit 4 (take_bit 2 a) OR drop_bit 4 b) # r) pad = base64_scan r pad"
  "base64_scan (base64_char (push_bit 2 (take_bit 4 b)) # r) pad = base64_scan r pad"
  using base64_ok_chars(1) [of a] base64_ok_chars(2) [of a] base64_ok_chars(3) [of a b] base64_ok_chars(4) [of b]
  by (simp_all add: base64_ok_def)

lemma base64_scan_equals:
  "base64_scan [c_equals] 0 = Some 1" "base64_scan [c_equals, c_equals] 0 = Some 2"
  by (simp_all add: Let_def)

lemma base64_pad_Suc:
  "base64_pad (Suc (Suc (Suc n))) = base64_pad (n + 3)" "base64_pad (Suc (Suc (Suc (Suc n)))) = base64_pad (n + 4)"
  by (rule arg_cong [of _ _ base64_pad], simp)+

lemma base64_roundtrip_tail:
  assumes "length xs = 3 * k" and t: "t = [] \<or> t = [a] \<or> t = [a, b]" and "xs @ t \<noteq> []"
  shows "nxt_base64_decode (base64_encode p (xs @ t)) = Some (xs @ t)"
    "base64_size (base64_encode p (xs @ t)) = int (length (xs @ t))"
proof -
  define q where "q = base64_encode p xs"
  have q: "length q = 4 * k" "list_all base64_ok q"
    using base64_encode_triples [OF assms(1), of p] by (simp_all add: q_def)
  have e: "base64_encode p (xs @ t) = q @ base64_encode p t"
    using base64_encode_append [OF assms(1)] by (simp add: q_def)
  have loop: "base64_loop (q @ r) (4 * k) = Some (xs, r)" for r
    unfolding q_def by (rule base64_loop_encode [OF assms(1)])
  note shapes = nxt_base64_decode_shapes [OF loop]
  note scan = base64_scan_append [OF q(2)]
  have k: "0 < k" if "t = []" using assms(1,3) that by (cases k) auto
  have pads: "base64_pad (Suc (Suc (Suc (4 * k)))) = 1" "base64_pad (Suc (Suc (Suc (Suc (4 * k))))) = 0"
    using base64_pad_add [of 3 k] base64_pad_4 [of k] by (simp_all add: base64_pad_Suc add.commute)
  note sizes = base64_size_def Let_def scan base64_scan_char base64_scan_equals q(1) assms(1)
    base64_pad_simps [of k, simplified] pads
  have "nxt_base64_decode (q @ base64_encode p t) = Some (xs @ t) \<and>
      base64_size (q @ base64_encode p t) = int (length (xs @ t))"
    using t
  proof (elim disjE)
    assume t: "t = []"
    then have "0 < k" using assms(1,3) by (cases k) auto
    moreover have "q ! (4 * k - 1) \<noteq> c_equals" "q ! (4 * k - 2) \<noteq> c_equals"
      using q \<open>0 < k\<close> by (simp_all add: base64_ok_nth)
    ultimately have "nxt_base64_decode q = Some xs"
      using shapes(3) [of "[]"] q(1) by simp
    moreover have "base64_size q = int (length xs)"
      using scan [of "[]" 0] base64_pad_simps(1) [of k] by (simp add: base64_size_def q(1) assms(1))
    ultimately show ?thesis by (simp add: t)
  next
    assume t: "t = [a]"
    show ?thesis
    proof (cases p)
      case True
      then show ?thesis
        using shapes(5) [of "base64_encode True [a]"] by (simp add: t base64_rest_char nth_append sizes del: base64_scan.simps(2))
    next
      case False
      then show ?thesis
        using shapes(1) [of "base64_encode False [a]"] by (simp add: t base64_rest_char sizes del: base64_scan.simps(2))
    qed
  next
    assume t: "t = [a, b]"
    show ?thesis
    proof (cases p)
      case True
      then show ?thesis
        using shapes(4) [of "base64_encode True [a, b]"] base64_chars
        by (simp add: t base64_rest_char [simplified] nth_append sizes del: base64_scan.simps(2))
    next
      case False
      then show ?thesis
        using shapes(2) [of "base64_encode False [a, b]"]
        by (simp add: t base64_rest_char [simplified] sizes del: base64_scan.simps(2))
    qed
  qed
  then show "nxt_base64_decode (base64_encode p (xs @ t)) = Some (xs @ t)"
    "base64_size (base64_encode p (xs @ t)) = int (length (xs @ t))"
    by (simp_all add: e)
qed

lemma base64_roundtrip:
  assumes "bs \<noteq> []"
  shows "nxt_base64_decode (base64_encode p bs) = Some bs"
    "base64_size (base64_encode p bs) = int (length bs)"
proof -
  define n where "n = 3 * (length bs div 3)"
  have n: "n \<le> length bs" "length (drop n bs) < 3"
    unfolding n_def by (simp_all add: minus_mult_div_eq_mod)
  have x: "length (take n bs) = 3 * (length bs div 3)" using n(1) by (simp add: n_def)
  obtain a b where "drop n bs = [] \<or> drop n bs = [a] \<or> drop n bs = [a, b]"
    using n(2) by (cases "drop n bs" rule: remdups_adj.cases) auto
  from base64_roundtrip_tail [OF x this] assms
  show "nxt_base64_decode (base64_encode p bs) = Some bs"
    "base64_size (base64_encode p bs) = int (length bs)" by simp_all
qed

section \<open>Properties\<close>

text \<open>C23: percent encoding round trip.  Decoding what \<^verbatim>\<open>nxt_encode_uri\<close> writes gives the
  original bytes back, the counting call returns the number of escapes (modulo the width of
  \<^verbatim>\<open>nxt_uint_t\<close>), and the bytes written are the input length plus two for each escape, so a
  buffer sized by the counting call is filled exactly.  The escaped bytes are exactly those
  outside the printable ASCII characters that a URI may carry.\<close>

theorem nxt_encode_uri_roundtrip:
  "nxt_decode_uri (nxt_encode_uri s) = Some s \<and>
   encode_uri_count s 0 = of_nat (length (filter uri_escape s)) \<and>
   length (nxt_encode_uri s) = length s + 2 * length (filter uri_escape s) \<and>
   (uri_escape ch \<longleftrightarrow> ch < 0x21 \<or> 0x7E < ch \<or> ch \<in> set (bytes [CHR 0x22, CHR ''#'', CHR ''%'',
      CHR ''<'', CHR ''>'', CHR ''?'', CHR 0x5C, CHR ''^'', CHR 0x60, CHR ''{'', CHR ''|'', CHR ''}'']))"
  using nxt_decode_encode [of s] encode_uri_count [of s 0] encode_uri_length [of s] uri_escape_iff [of ch]
  by (simp add: escapes_def)



text \<open>C25: base64.  Whatever text passes the sizing call of \<^verbatim>\<open>nxt_base64_decode\<close>, the
  decoding call reads only inside it and writes exactly the size that was returned; the standard
  encoding of a non-empty byte string, padded or not, is measured and decoded to that string.\<close>

theorem nxt_base64_decode_exact:
  "(s \<noteq> [] \<and> base64_size s = int n \<longrightarrow> (\<exists>out. nxt_base64_decode s = Some out \<and> length out = n)) \<and>
   (bs \<noteq> [] \<longrightarrow> base64_size (base64_encode p bs) = int (length bs) \<and>
      nxt_base64_decode (base64_encode p bs) = Some bs)"
  using base64_size_exact [of s n] base64_roundtrip [of bs p] by blast

theorem nxt_base64_decode_exact_witness:
  "nxt_base64_decode (bytes ''TWFu'') = Some (bytes ''Man'') \<and>
   (\<exists>out. nxt_base64_decode (bytes ''TR=='') = Some out \<and> length out = 1)"
proof -
  have "base64_encode True (bytes ''Man'') = bytes ''TWFu''" "bytes ''Man'' \<noteq> []" "bytes ''TR=='' \<noteq> []"
    "base64_size (bytes ''TR=='') = int 1" by code_simp+
  then show ?thesis
    using nxt_base64_decode_exact [of "bytes ''TR==''" 1 "bytes ''Man''" True] by simp
qed

end
