(* ===== verification/Nxt_Http_Chunk.thy ===== *)
theory Nxt_Http_Chunk
  imports Nxt_Uri
begin

text \<open>
  The parser of chunked message bodies, \<^verbatim>\<open>src/nxt_http_chunk_parse.c\<close>.  The parser is fed a
  chain of buffers and returns a chain of slices of their data; its state is kept in
  \<^verbatim>\<open>nxt_http_chunk_parse_t\<close> between calls.  The first part of the theory is that code; the
  second is the same machine reading one byte after the other (\<open>chunk_stream\<close>); the third is the
  grammar of RFC 9112.  The theorems say that the buffers do not matter (the code refines the
  byte machine, however the input is cut) and that the byte machine accepts exactly the grammar.
\<close>

section \<open>The parser\<close>

datatype chunk_state =
    sw_start | sw_chunk_size | sw_chunk_ext | sw_chunk_size_linefeed
  | sw_chunk_end_newline | sw_chunk_end_linefeed | sw_chunk
  | sw_trailer_name | sw_trailer_value | sw_trailer_linefeed

text \<open>\<open>mem_pool\<close> is the number of times the pool is retained.\<close>

record chunk_parse =
  mem_pool :: nat
  chunk_size :: uint64
  cp_state :: chunk_state
  cp_last :: bool
  cp_trailer :: bool
  cp_chunk_error :: bool
  cp_error :: bool
  retain_buffers :: bool

text \<open>A buffer: the data between \<^verbatim>\<open>mem.pos\<close> and \<^verbatim>\<open>mem.free\<close>, and how often it is retained.\<close>

record chunk_buf =
  cb_mem :: nxt_str
  cb_retain :: nat

text \<open>A slice: the number of its parent buffer in the chain, and its data.\<close>

type_synonym chunk_slice = "nat \<times> nxt_str"

definition NXT_HTTP_TRAILER_MAX_SIZE :: uint64 where
  "NXT_HTTP_TRAILER_MAX_SIZE = 4096"

definition nxt_size_is_sufficient :: "uint64 \<Rightarrow> bool" where
  "nxt_size_is_sufficient cs \<longleftrightarrow> cs < push_bit 60 1"

definition nxt_http_trailer_tchar :: "uint8 list" where
  "nxt_http_trailer_tchar =
    [0, 0, 0, 0, 0, 0, 0, 0, 0, 0, 0, 0, 0, 0, 0, 0,
     0, 0, 0, 0, 0, 0, 0, 0, 0, 0, 0, 0, 0, 0, 0, 0,
     0, 1, 0, 1, 1, 1, 1, 1, 0, 0, 1, 1, 0, 1, 1, 0,
     1, 1, 1, 1, 1, 1, 1, 1, 1, 1, 0, 0, 0, 0, 0, 0,
     0, 1, 1, 1, 1, 1, 1, 1, 1, 1, 1, 1, 1, 1, 1, 1,
     1, 1, 1, 1, 1, 1, 1, 1, 1, 1, 1, 0, 0, 0, 1, 1,
     1, 1, 1, 1, 1, 1, 1, 1, 1, 1, 1, 1, 1, 1, 1, 1,
     1, 1, 1, 1, 1, 1, 1, 1, 1, 1, 1, 0, 1, 0, 1, 0] @ replicate 128 0"

definition trailer_tchar :: "u_char \<Rightarrow> bool" where
  "trailer_tchar ch \<longleftrightarrow> nxt_http_trailer_tchar ! unat ch \<noteq> 0"

text \<open>How a case of the switch ends: \<^verbatim>\<open>continue\<close>, \<^verbatim>\<open>goto chunk_error\<close> or \<^verbatim>\<open>goto done\<close>.\<close>

datatype chunk_next = Continue chunk_state chunk_parse | Chunk_error chunk_parse | Chunk_done chunk_parse

text \<open>The test \<^verbatim>\<open>++hcp->chunk_size > NXT_HTTP_TRAILER_MAX_SIZE\<close>, with the state to go on in.\<close>

definition trailer_count :: "chunk_state \<Rightarrow> chunk_parse \<Rightarrow> chunk_next" where
  "trailer_count state hcp =
     (let hcp = hcp\<lparr>chunk_size := chunk_size hcp + 1\<rparr> in
      if NXT_HTTP_TRAILER_MAX_SIZE < chunk_size hcp then Chunk_error hcp else Continue state hcp)"

fun chunk_switch :: "chunk_state \<Rightarrow> chunk_parse \<Rightarrow> u_char \<Rightarrow> chunk_next" where
  "chunk_switch sw_start hcp ch =
     (let c = ch - c_0 in
      if c \<le> 9 then Continue sw_chunk_size (hcp\<lparr>chunk_size := ucast c\<rparr>)
      else
        let c = (ch OR 0x20) - c_a in
        if c \<le> 5 then Continue sw_chunk_size (hcp\<lparr>chunk_size := 0x0A + ucast c\<rparr>)
        else Chunk_error hcp)"
| "chunk_switch sw_chunk_size hcp ch =
     (let c = ch - c_0;
          digit = (\<lambda>c. if nxt_size_is_sufficient (chunk_size hcp)
            then Continue sw_chunk_size (hcp\<lparr>chunk_size := push_bit 4 (chunk_size hcp) + ucast c\<rparr>)
            else Chunk_error hcp)
      in if 9 < c then
           let c = (ch OR 0x20) - c_a in
           if c \<le> 5 then digit (c + 0x0A)
           else if ch = c_cr then Continue sw_chunk_size_linefeed hcp
           else if ch = c_semicolon then Continue sw_chunk_ext hcp
           else Chunk_error hcp
         else digit c)"
| "chunk_switch sw_chunk_ext hcp ch =
     (if ch = c_cr then Continue sw_chunk_size_linefeed hcp else Continue sw_chunk_ext hcp)"
| "chunk_switch sw_chunk_size_linefeed hcp ch =
     (if ch = c_lf then
        if chunk_size hcp \<noteq> 0 then Continue sw_chunk hcp
        else Continue sw_chunk_end_newline (hcp\<lparr>cp_trailer := True\<rparr>)
      else Chunk_error hcp)"
| "chunk_switch sw_chunk_end_newline hcp ch =
     (if ch = c_cr then Continue sw_chunk_end_linefeed hcp
      else if cp_trailer hcp then
        if \<not> trailer_tchar ch then Chunk_error hcp
        else trailer_count sw_trailer_name hcp
      else Chunk_error hcp)"
| "chunk_switch sw_chunk_end_linefeed hcp ch =
     (if ch = c_lf then
        if \<not> cp_trailer hcp then Continue sw_start hcp
        else Chunk_done (hcp\<lparr>cp_last := True\<rparr>)
      else Chunk_error hcp)"
| "chunk_switch sw_chunk hcp ch = Continue sw_chunk hcp"
| "chunk_switch sw_trailer_name hcp ch =
     (if ch = c_colon then trailer_count sw_trailer_value hcp
      else if \<not> trailer_tchar ch then Chunk_error hcp
      else trailer_count sw_trailer_name hcp)"
| "chunk_switch sw_trailer_value hcp ch =
     (if ch = c_cr then trailer_count sw_trailer_linefeed hcp
      else if (ch < 0x20 \<or> ch = 0x7f) \<and> ch \<noteq> c_tab then Chunk_error hcp
      else trailer_count sw_trailer_value hcp)"
| "chunk_switch sw_trailer_linefeed hcp ch =
     (if ch = c_lf then trailer_count sw_chunk_end_newline hcp else Chunk_error hcp)"

datatype chunk_ret = CHUNK_MIDDLE | CHUNK_END_ON_BORDER | CHUNK_END | CHUNK_NXT_ERROR

text \<open>
  \<^verbatim>\<open>nxt_http_chunk_buffer\<close>: \<open>alloc\<close> says whether \<^verbatim>\<open>nxt_buf_mem_alloc\<close> succeeds; the slice that
  is appended to the output, if any, is the last component.
\<close>

definition nxt_http_chunk_buffer ::
  "bool \<Rightarrow> chunk_parse \<Rightarrow> nat \<Rightarrow> chunk_buf \<Rightarrow> chunk_ret \<times> chunk_parse \<times> chunk_buf \<times> chunk_slice list" where
  "nxt_http_chunk_buffer alloc hcp i b =
     (let p = cb_mem b; size = length p in
      if \<not> alloc then (CHUNK_NXT_ERROR, hcp, b, [])
      else
        let (hcp, b) =
          (if \<not> retain_buffers hcp
           then (hcp\<lparr>mem_pool := mem_pool hcp + 1\<rparr>, b\<lparr>cb_retain := cb_retain b + 1\<rparr>)
           else (hcp, b))
        in if unat (chunk_size hcp) < size then
             (CHUNK_END, hcp, b\<lparr>cb_mem := drop (unat (chunk_size hcp)) p\<rparr>,
              [(i, take (unat (chunk_size hcp)) p)])
           else
             let hcp = hcp\<lparr>chunk_size := chunk_size hcp - of_nat size\<rparr> in
             if chunk_size hcp = 0
             then (CHUNK_END_ON_BORDER, hcp, b\<lparr>cb_mem := []\<rparr>, [(i, p)])
             else (CHUNK_MIDDLE, hcp, b, [(i, p)]))"

text \<open>How the loop over one buffer ends: at its end, with \<^verbatim>\<open>goto next\<close> or with \<^verbatim>\<open>goto done\<close>.\<close>

datatype chunk_exit = Buf_end | Goto_next | Goto_done

type_synonym chunk_here = "chunk_state \<times> chunk_parse \<times> chunk_buf \<times> chunk_slice list"

text \<open>The part before the switch: \<open>Inl\<close> leaves the loop, \<open>Inr\<close> goes on to the switch.\<close>

definition chunk_data :: "bool \<Rightarrow> nat \<Rightarrow> chunk_here \<Rightarrow> (chunk_exit \<times> chunk_here) + chunk_here" where
  "chunk_data alloc i here =
     (case here of (state, hcp, b, out) \<Rightarrow>
      if state = sw_chunk then
        case nxt_http_chunk_buffer alloc hcp i b of
          (ret, hcp, b, sl) \<Rightarrow>
            (case ret of
               CHUNK_MIDDLE \<Rightarrow> Inl (Goto_next, state, hcp, b, out @ sl)
             | CHUNK_NXT_ERROR \<Rightarrow> Inl (Goto_done, state, hcp\<lparr>cp_error := True\<rparr>, b, out @ sl)
             | CHUNK_END_ON_BORDER \<Rightarrow> Inl (Goto_next, sw_chunk_end_newline, hcp, b, out @ sl)
             | CHUNK_END \<Rightarrow> Inr (sw_chunk_end_newline, hcp, b, out @ sl))
      else Inr here)"

lemma chunk_data_shorter:
  "chunk_data alloc i (state, hcp, b, out) = Inr (state', hcp', b', out') \<Longrightarrow>
     length (cb_mem b') \<le> length (cb_mem b)"
  by (auto simp: chunk_data_def nxt_http_chunk_buffer_def Let_def
      split: if_splits chunk_ret.splits prod.splits)

text \<open>The loop over one buffer.  \<open>alloc n\<close> says whether the allocation of slice \<open>n\<close> succeeds.\<close>

function chunk_while :: "(nat \<Rightarrow> bool) \<Rightarrow> nat \<Rightarrow> chunk_here \<Rightarrow> chunk_exit \<times> chunk_here" where
  "chunk_while alloc i (state, hcp, b, out) =
     (if cb_mem b = [] then (Buf_end, state, hcp, b, out)
      else case chunk_data (alloc (length out)) i (state, hcp, b, out) of
        Inl r \<Rightarrow> r
      | Inr (state, hcp, b, out) \<Rightarrow>
          (case cb_mem b of
             [] \<Rightarrow> (Buf_end, state, hcp, b, out)
           | ch # mem \<Rightarrow>
               let b = b\<lparr>cb_mem := mem\<rparr> in
               (case chunk_switch state hcp ch of
                  Continue state hcp \<Rightarrow> chunk_while alloc i (state, hcp, b, out)
                | Chunk_error hcp \<Rightarrow> (Goto_done, state, hcp\<lparr>cp_chunk_error := True\<rparr>, b, out)
                | Chunk_done hcp \<Rightarrow> (Goto_done, state, hcp, b, out))))"
  by pat_completeness auto
termination
proof (relation "measure (\<lambda>(alloc, i, state, hcp, b, out). length (cb_mem b))")
qed (auto dest!: chunk_data_shorter)

declare chunk_while.simps [simp del]

text \<open>Whether the completion handler of a buffer is scheduled.\<close>

definition chunk_completes :: "chunk_parse \<Rightarrow> chunk_buf \<Rightarrow> bool" where
  "chunk_completes hcp b \<longleftrightarrow> cb_retain b = 0 \<and> \<not> retain_buffers hcp"

fun chunk_drain :: "chunk_parse \<Rightarrow> nat \<Rightarrow> chunk_buf list \<Rightarrow> nat list" where
  "chunk_drain hcp i [] = []"
| "chunk_drain hcp i (b # bs) =
     (if chunk_completes hcp b then [i] else []) @ chunk_drain hcp (i + 1) bs"

text \<open>
  The loop over the chain.  The result is the parser, the slices, the buffers as they are left,
  and the numbers of the buffers whose completion handlers are scheduled, in order.
\<close>

fun chunk_chain :: "(nat \<Rightarrow> bool) \<Rightarrow> nat \<Rightarrow> chunk_state \<Rightarrow> chunk_parse \<Rightarrow> chunk_slice list \<Rightarrow> chunk_buf list \<Rightarrow>
    chunk_parse \<times> chunk_slice list \<times> chunk_buf list \<times> nat list" where
  "chunk_chain alloc i state hcp out [] = (hcp\<lparr>cp_state := state\<rparr>, out, [], [])"
| "chunk_chain alloc i state hcp out (b # next) =
     (case chunk_while alloc i (state, hcp, b, out) of
        (Goto_done, state, hcp, b, out) \<Rightarrow> (hcp, out, b # next, chunk_drain hcp i (b # next))
      | (exit, state, hcp, b, out) \<Rightarrow>
          (case chunk_chain alloc (i + 1) state hcp out next of
             (hcp', out', next', queue) \<Rightarrow>
               (hcp', out', b # next',
                (if exit = Buf_end \<and> chunk_completes hcp b then [i] else []) @ queue)))"

definition nxt_http_chunk_parse ::
  "(nat \<Rightarrow> bool) \<Rightarrow> chunk_parse \<Rightarrow> chunk_buf list \<Rightarrow> chunk_parse \<times> chunk_slice list \<times> chunk_buf list \<times> nat list" where
  "nxt_http_chunk_parse alloc hcp bufs = chunk_chain alloc 0 (cp_state hcp) hcp [] bufs"

section \<open>One byte after the other\<close>

datatype stream_end = More chunk_state chunk_parse | Last nxt_str chunk_parse | Bad nxt_str chunk_parse

text \<open>The payload and how the input ends: in some state, or at the rest of the input.\<close>

fun chunk_stream :: "chunk_state \<Rightarrow> chunk_parse \<Rightarrow> nxt_str \<Rightarrow> nxt_str \<times> stream_end" where
  "chunk_stream state hcp [] = ([], More state hcp)"
| "chunk_stream state hcp (ch # s) =
     (if state = sw_chunk then
        let n = chunk_size hcp - 1 in
        apfst ((#) ch)
          (chunk_stream (if n = 0 then sw_chunk_end_newline else sw_chunk) (hcp\<lparr>chunk_size := n\<rparr>) s)
      else case chunk_switch state hcp ch of
        Continue state hcp \<Rightarrow> chunk_stream state hcp s
      | Chunk_error hcp \<Rightarrow> ([], Bad s hcp)
      | Chunk_done hcp \<Rightarrow> ([], Last s hcp))"

fun end_append :: "nxt_str \<times> stream_end \<Rightarrow> nxt_str \<Rightarrow> nxt_str \<times> stream_end" where
  "end_append (p, More state hcp) ys = apfst ((@) p) (chunk_stream state hcp ys)"
| "end_append (p, Last r hcp) ys = (p, Last (r @ ys) hcp)"
| "end_append (p, Bad r hcp) ys = (p, Bad (r @ ys) hcp)"

lemma end_append_Cons: "end_append (apfst ((#) ch) r) ys = apfst ((#) ch) (end_append r ys)"
  by (cases "(r, ys)" rule: end_append.cases) (auto simp: apfst_def map_prod_def split: prod.splits)

lemma chunk_stream_append:
  "chunk_stream state hcp (xs @ ys) = end_append (chunk_stream state hcp xs) ys"
proof (induction xs arbitrary: state hcp)
  case Nil
  then show ?case by (simp add: apfst_def map_prod_def split: prod.splits)
next
  case (Cons ch xs)
  then show ?case by (auto simp: Let_def end_append_Cons split: chunk_next.splits)
qed

lemma chunk_stream_data:
  "chunk_size hcp \<noteq> 0 \<Longrightarrow> length d < unat (chunk_size hcp) \<Longrightarrow>
     chunk_stream sw_chunk hcp d = (d, More sw_chunk (hcp\<lparr>chunk_size := chunk_size hcp - of_nat (length d)\<rparr>))"
proof (induction d arbitrary: hcp)
  case (Cons ch d)
  have u: "unat (chunk_size hcp - 1) = unat (chunk_size hcp) - 1"
    using Cons.prems(1) by (simp add: unat_minus_one)
  then have "chunk_size hcp - 1 \<noteq> 0" using Cons.prems(2) by (auto simp: word_unat_eq_iff)
  then show ?case
    using Cons.IH [of "hcp\<lparr>chunk_size := chunk_size hcp - 1\<rparr>"] Cons.prems u
    by (simp add: Let_def algebra_simps)
qed simp

lemma chunk_stream_data_end:
  "chunk_size hcp \<noteq> 0 \<Longrightarrow> unat (chunk_size hcp) = n \<Longrightarrow> n \<le> length d \<Longrightarrow>
     chunk_stream sw_chunk hcp d = apfst ((@) (take n d))
       (chunk_stream sw_chunk_end_newline (hcp\<lparr>chunk_size := 0\<rparr>) (drop n d))"
proof (induction n arbitrary: hcp d)
  case 0
  then show ?case by (simp add: word_unat_eq_iff)
next
  case (Suc n)
  then obtain ch d' where d: "d = ch # d'" by (cases d) auto
  have u: "unat (chunk_size hcp - 1) = n"
    using Suc.prems(1,2) by (simp add: unat_minus_one)
  show ?case
  proof (cases "n = 0")
    case True
    then have "chunk_size hcp - 1 = 0" using u by (simp add: word_unat_eq_iff)
    with True show ?thesis by (simp add: d Let_def id_def)
  next
    case False
    then have "chunk_size hcp - 1 \<noteq> 0" using u by (auto simp: word_unat_eq_iff)
    then show ?thesis
      using Suc.IH [of "hcp\<lparr>chunk_size := chunk_size hcp - 1\<rparr>" d'] Suc.prems u
      by (simp add: d Let_def apfst_def map_prod_def split: prod.splits)
  qed
qed

section \<open>Invariant\<close>

definition chunk_inv :: "chunk_state \<Rightarrow> chunk_parse \<Rightarrow> bool" where
  "chunk_inv state hcp \<longleftrightarrow>
     (case state of
        sw_chunk \<Rightarrow> chunk_size hcp \<noteq> 0 \<and> \<not> cp_trailer hcp
      | sw_trailer_name \<Rightarrow> cp_trailer hcp
      | sw_trailer_value \<Rightarrow> cp_trailer hcp
      | sw_trailer_linefeed \<Rightarrow> cp_trailer hcp
      | sw_chunk_end_newline \<Rightarrow> True
      | sw_chunk_end_linefeed \<Rightarrow> True
      | _ \<Rightarrow> \<not> cp_trailer hcp) \<and>
     (cp_trailer hcp \<longrightarrow> chunk_size hcp \<le> NXT_HTTP_TRAILER_MAX_SIZE)"

lemma chunk_switch_inv:
  "chunk_inv state hcp \<Longrightarrow> chunk_switch state hcp ch = Continue state' hcp' \<Longrightarrow> chunk_inv state' hcp'"
  by (cases state)
    (auto simp: chunk_inv_def trailer_count_def Let_def not_less NXT_HTTP_TRAILER_MAX_SIZE_def split: if_splits)

section \<open>The code refines the byte machine\<close>

text \<open>
  What of the parser's state matters: not the pool, not the saved state, and not a chunk size that
  is about to be overwritten.
\<close>

definition chunk_abs :: "chunk_state \<Rightarrow> chunk_parse \<Rightarrow> chunk_parse" where
  "chunk_abs state hcp =
     hcp\<lparr>mem_pool := 0, cp_state := sw_start,
         chunk_size := (if \<not> cp_trailer hcp \<and> state \<in> {sw_start, sw_chunk_end_newline, sw_chunk_end_linefeed}
                        then 0 else chunk_size hcp)\<rparr>"

definition chunk_flags :: "chunk_parse \<Rightarrow> chunk_parse" where
  "chunk_flags hcp = hcp\<lparr>mem_pool := 0, cp_state := sw_start, chunk_size := 0\<rparr>"

fun end_abs :: "stream_end \<Rightarrow> stream_end" where
  "end_abs (More state hcp) = More state (chunk_abs state hcp)"
| "end_abs (Last r hcp) = Last r (chunk_flags hcp)"
| "end_abs (Bad r hcp) = Bad r (chunk_flags hcp)"

fun next_abs :: "chunk_next \<Rightarrow> chunk_next" where
  "next_abs (Continue state hcp) = Continue state (chunk_abs state hcp)"
| "next_abs (Chunk_error hcp) = Chunk_error (chunk_flags hcp)"
| "next_abs (Chunk_done hcp) = Chunk_done (chunk_flags hcp)"

lemma switch_abs:
  assumes "state \<noteq> sw_chunk" and "chunk_abs state hcp = chunk_abs state hcp'"
  shows "next_abs (chunk_switch state hcp ch) = next_abs (chunk_switch state hcp' ch)"
  using assms
  by (cases hcp; cases hcp'; cases state)
    (auto simp: chunk_abs_def chunk_flags_def trailer_count_def Let_def split: if_splits)

lemma next_abs_cases:
  assumes "next_abs a = next_abs b"
  obtains (go_on) state h h' where "a = Continue state h" "b = Continue state h'" "chunk_abs state h = chunk_abs state h'"
    | (bad) h h' where "a = Chunk_error h" "b = Chunk_error h'" "chunk_flags h = chunk_flags h'"
    | (last) h h' where "a = Chunk_done h" "b = Chunk_done h'" "chunk_flags h = chunk_flags h'"
  using assms by (cases a; cases b) auto

lemma chunk_stream_abs:
  assumes "chunk_abs state hcp = chunk_abs state hcp'"
  shows "apsnd end_abs (chunk_stream state hcp s) = apsnd end_abs (chunk_stream state hcp' s)"
  using assms
proof (induction s arbitrary: state hcp hcp')
  case (Cons ch s)
  show ?case
  proof (cases "state = sw_chunk")
    case True
    define n where "n = chunk_size hcp - 1"
    have n: "chunk_size hcp' - 1 = n"
      using Cons.prems True by (cases hcp; cases hcp') (auto simp: chunk_abs_def n_def)
    have "chunk_abs st (hcp\<lparr>chunk_size := n\<rparr>) = chunk_abs st (hcp'\<lparr>chunk_size := n\<rparr>)" for st
      using Cons.prems True by (cases hcp; cases hcp') (auto simp: chunk_abs_def)
    from Cons.IH [OF this] show ?thesis
      by (simp add: True Let_def n n_def [symmetric] prod_eq_iff)
  next
    case False
    from switch_abs [OF False Cons.prems, of ch] show ?thesis
    proof (cases rule: next_abs_cases)
      case (go_on state' h h')
      then show ?thesis using Cons.IH [OF go_on(3)] by (simp add: False)
    qed (simp_all add: False)
  qed
qed simp

text \<open>One buffer.\<close>

lemma while_step:
  "cb_mem b = ch # mem \<Longrightarrow> state \<noteq> sw_chunk \<Longrightarrow>
     chunk_while alloc i (state, hcp, b, out) =
       (case chunk_switch state hcp ch of
          Continue state hcp \<Rightarrow> chunk_while alloc i (state, hcp, b\<lparr>cb_mem := mem\<rparr>, out)
        | Chunk_error hcp \<Rightarrow> (Goto_done, state, hcp\<lparr>cp_chunk_error := True\<rparr>, b\<lparr>cb_mem := mem\<rparr>, out)
        | Chunk_done hcp \<Rightarrow> (Goto_done, state, hcp, b\<lparr>cb_mem := mem\<rparr>, out))"
  by (subst chunk_while.simps) (simp add: chunk_data_def Let_def)

definition chunk_retain :: "chunk_parse \<Rightarrow> chunk_parse" where
  "chunk_retain hcp = (if retain_buffers hcp then hcp else hcp\<lparr>mem_pool := mem_pool hcp + 1\<rparr>)"

definition buf_retain :: "chunk_parse \<Rightarrow> chunk_buf \<Rightarrow> chunk_buf" where
  "buf_retain hcp b = (if retain_buffers hcp then b else b\<lparr>cb_retain := cb_retain b + 1\<rparr>)"

lemma chunk_data_chunk:
  "chunk_data True i (sw_chunk, hcp, b, out) =
    (if unat (chunk_size hcp) < length (cb_mem b) then
       Inr (sw_chunk_end_newline, chunk_retain hcp,
         buf_retain hcp (b\<lparr>cb_mem := drop (unat (chunk_size hcp)) (cb_mem b)\<rparr>),
         out @ [(i, take (unat (chunk_size hcp)) (cb_mem b))])
     else if chunk_size hcp = of_nat (length (cb_mem b)) then
       Inl (Goto_next, sw_chunk_end_newline, (chunk_retain hcp)\<lparr>chunk_size := 0\<rparr>,
         buf_retain hcp (b\<lparr>cb_mem := []\<rparr>), out @ [(i, cb_mem b)])
     else
       Inl (Goto_next, sw_chunk, (chunk_retain hcp)\<lparr>chunk_size := chunk_size hcp - of_nat (length (cb_mem b))\<rparr>,
         buf_retain hcp b, out @ [(i, cb_mem b)]))"
  by (simp add: chunk_data_def nxt_http_chunk_buffer_def chunk_retain_def buf_retain_def Let_def)

lemma while_stop:
  "cb_mem b \<noteq> [] \<Longrightarrow> chunk_data (alloc (length out)) i (state, hcp, b, out) = Inl r \<Longrightarrow>
     chunk_while alloc i (state, hcp, b, out) = r"
  by (subst chunk_while.simps) simp

lemma while_resume:
  assumes "cb_mem b \<noteq> []" and "chunk_data (alloc (length out)) i (state, hcp, b, out) = Inr (state', hcp', b', out')"
    and "cb_mem b' \<noteq> []" and "state' \<noteq> sw_chunk"
  shows "chunk_while alloc i (state, hcp, b, out) = chunk_while alloc i (state', hcp', b', out')"
proof -
  obtain ch mem where m: "cb_mem b' = ch # mem" using assms(3) by (cases "cb_mem b'") auto
  show ?thesis
    by (subst chunk_while.simps) (simp add: assms(1,2) m while_step [OF m assms(4)] Let_def)
qed

lemma while_data:
  assumes "cb_mem b \<noteq> []" and "alloc (length out)"
  shows "chunk_while alloc i (sw_chunk, hcp, b, out) =
    (if unat (chunk_size hcp) < length (cb_mem b) then
       chunk_while alloc i (sw_chunk_end_newline, chunk_retain hcp,
         buf_retain hcp (b\<lparr>cb_mem := drop (unat (chunk_size hcp)) (cb_mem b)\<rparr>),
         out @ [(i, take (unat (chunk_size hcp)) (cb_mem b))])
     else if chunk_size hcp = of_nat (length (cb_mem b)) then
       (Goto_next, sw_chunk_end_newline, (chunk_retain hcp)\<lparr>chunk_size := 0\<rparr>,
         buf_retain hcp (b\<lparr>cb_mem := []\<rparr>), out @ [(i, cb_mem b)])
     else
       (Goto_next, sw_chunk, (chunk_retain hcp)\<lparr>chunk_size := chunk_size hcp - of_nat (length (cb_mem b))\<rparr>,
         buf_retain hcp b, out @ [(i, cb_mem b)]))"
proof (cases "unat (chunk_size hcp) < length (cb_mem b)")
  case True
  then show ?thesis
    using while_resume [OF assms(1), of alloc out i sw_chunk hcp] assms(2)
    by (simp add: chunk_data_chunk buf_retain_def)
next
  case False
  then show ?thesis
    using while_stop [OF assms(1), of alloc out i sw_chunk hcp] assms(2) by (simp add: chunk_data_chunk)
qed

text \<open>What no case of the switch touches.\<close>

definition same_frame :: "chunk_parse \<Rightarrow> chunk_parse \<Rightarrow> bool" where
  "same_frame hcp hcp' \<longleftrightarrow> mem_pool hcp' = mem_pool hcp \<and> retain_buffers hcp' = retain_buffers hcp \<and>
     cp_error hcp' = cp_error hcp \<and> cp_chunk_error hcp' = cp_chunk_error hcp"

lemma switch_frame:
  "chunk_switch state hcp ch = Continue state' h \<Longrightarrow> same_frame hcp h \<and> cp_last h = cp_last hcp"
  "chunk_switch state hcp ch = Chunk_error h \<Longrightarrow> same_frame hcp h \<and> cp_last h = cp_last hcp"
  "chunk_switch state hcp ch = Chunk_done h \<Longrightarrow> same_frame hcp h \<and> cp_last h"
  by (cases state; auto simp: same_frame_def trailer_count_def Let_def split: if_splits)+

definition payload :: "chunk_slice list \<Rightarrow> nxt_str" where
  "payload out = concat (map snd out)"

lemma payload_simps [simp]:
  "payload [] = []" "payload (x # out) = snd x @ payload out" "payload (out @ out') = payload out @ payload out'"
  by (simp_all add: payload_def)

definition while_ok :: "chunk_exit \<Rightarrow> chunk_state \<Rightarrow> chunk_parse \<Rightarrow> chunk_buf \<Rightarrow> stream_end \<Rightarrow> bool" where
  "while_ok exit state hcp b e \<longleftrightarrow>
     (if exit = Goto_done then
        if cp_chunk_error hcp then \<exists>f. e = Bad (cb_mem b) f else cp_last hcp \<and> (\<exists>f. e = Last (cb_mem b) f)
      else e = More state (chunk_abs state hcp) \<and> chunk_inv state hcp \<and> \<not> cp_chunk_error hcp \<and> \<not> cp_last hcp)"

text \<open>Each slice retains the pool and the parent buffer once, unless the caller keeps the buffers.\<close>

definition accounted :: "chunk_parse \<Rightarrow> chunk_buf \<Rightarrow> nat \<Rightarrow> chunk_parse \<Rightarrow> chunk_buf \<Rightarrow> bool" where
  "accounted hcp b n hcp' b' \<longleftrightarrow>
     retain_buffers hcp' = retain_buffers hcp \<and> cp_error hcp' = cp_error hcp \<and>
     mem_pool hcp' = mem_pool hcp + (if retain_buffers hcp then 0 else n) \<and>
     cb_retain b' = cb_retain b + (if retain_buffers hcp then 0 else n)"

text \<open>The loop over one buffer does what the byte machine does on its data.\<close>

definition while_spec :: "nat \<Rightarrow> chunk_here \<Rightarrow> chunk_exit \<times> chunk_here \<Rightarrow> bool" where
  "while_spec i here r \<longleftrightarrow>
     (case (here, r) of ((state, hcp, b, out), (exit, state', hcp', b', out')) \<Rightarrow>
      \<exists>new e. out' = out @ new \<and> list_all (\<lambda>x. fst x = i) new \<and>
        apsnd end_abs (chunk_stream state hcp (cb_mem b)) = (payload new, e) \<and>
        while_ok exit state' hcp' b' e \<and> accounted hcp b (length new) hcp' b' \<and>
        (exit = Goto_next \<longrightarrow> new \<noteq> []))"

lemma while_specI:
  assumes "out' = out @ new" and "list_all (\<lambda>x. fst x = i) new"
    and "apsnd end_abs (chunk_stream state hcp (cb_mem b)) = (payload new, e)"
    and "while_ok exit state' hcp' b' e" and "accounted hcp b (length new) hcp' b'"
    and "exit = Goto_next \<Longrightarrow> new \<noteq> []"
  shows "while_spec i (state, hcp, b, out) (exit, state', hcp', b', out')"
  using assms by (auto simp: while_spec_def)

lemma while_specE:
  assumes "while_spec i (state, hcp, b, out) (exit, state', hcp', b', out')"
  obtains new e where "out' = out @ new" and "list_all (\<lambda>x. fst x = i) new"
    and "apsnd end_abs (chunk_stream state hcp (cb_mem b)) = (payload new, e)"
    and "while_ok exit state' hcp' b' e" and "accounted hcp b (length new) hcp' b'"
    and "exit = Goto_next \<longrightarrow> new \<noteq> []"
  using assms by (auto simp: while_spec_def)

lemma while_spec_Nil:
  assumes "cb_mem b = []" and "chunk_inv state hcp" and "\<not> cp_chunk_error hcp" and "\<not> cp_last hcp"
  shows "while_spec i (state, hcp, b, out) (Buf_end, state, hcp, b, out)"
  using assms by (intro while_specI [where new = "[]"]) (auto simp: while_ok_def accounted_def)

lemma while_spec_Continue:
  assumes "cb_mem b = ch # mem" and "state \<noteq> sw_chunk" and sw: "chunk_switch state hcp ch = Continue st h"
    and "while_spec i (st, h, b\<lparr>cb_mem := mem\<rparr>, out) r"
  shows "while_spec i (state, hcp, b, out) r"
  using assms(1,2,4) sw switch_frame(1) [OF sw]
  by (auto simp: while_spec_def same_frame_def accounted_def split: prod.splits)

lemma while_spec_stop:
  assumes "cb_mem b = ch # mem" and "state \<noteq> sw_chunk" and "\<not> cp_chunk_error hcp"
  shows "chunk_switch state hcp ch = Chunk_error h \<Longrightarrow>
      while_spec i (state, hcp, b, out) (Goto_done, state, h\<lparr>cp_chunk_error := True\<rparr>, b\<lparr>cb_mem := mem\<rparr>, out)"
    "chunk_switch state hcp ch = Chunk_done h \<Longrightarrow>
      while_spec i (state, hcp, b, out) (Goto_done, state, h, b\<lparr>cb_mem := mem\<rparr>, out)"
  using assms switch_frame(2,3) [of state hcp ch h]
  by (auto intro!: while_specI [where new = "[]"] simp: while_ok_def same_frame_def accounted_def)

lemma while_spec_long:
  assumes inv: "chunk_size hcp \<noteq> 0" "\<not> cp_trailer hcp" and n: "unat (chunk_size hcp) = n" "n < length (cb_mem b)"
    and rest: "while_spec i (sw_chunk_end_newline, chunk_retain hcp,
      buf_retain hcp (b\<lparr>cb_mem := drop n (cb_mem b)\<rparr>), out @ [(i, take n (cb_mem b))]) r"
  shows "while_spec i (sw_chunk, hcp, b, out) r"
proof -
  obtain exit state' hcp' b' out' where r: "r = (exit, state', hcp', b', out')" by (cases r)
  have b2: "cb_mem (buf_retain hcp (b\<lparr>cb_mem := drop n (cb_mem b)\<rparr>)) = drop n (cb_mem b)"
    by (simp add: buf_retain_def)
  from rest [unfolded r] show ?thesis
  proof (rule while_specE)
    fix new e
    assume new: "out' = (out @ [(i, take n (cb_mem b))]) @ new" "list_all (\<lambda>x. fst x = i) new"
      "apsnd end_abs (chunk_stream sw_chunk_end_newline (chunk_retain hcp)
         (cb_mem (buf_retain hcp (b\<lparr>cb_mem := drop n (cb_mem b)\<rparr>)))) = (payload new, e)"
      "while_ok exit state' hcp' b' e"
      and acc: "accounted (chunk_retain hcp) (buf_retain hcp (b\<lparr>cb_mem := drop n (cb_mem b)\<rparr>)) (length new) hcp' b'"
    have "chunk_abs sw_chunk_end_newline (chunk_retain hcp) = chunk_abs sw_chunk_end_newline (hcp\<lparr>chunk_size := 0\<rparr>)"
      using inv by (simp add: chunk_abs_def chunk_retain_def)
    from chunk_stream_abs [OF this]
    have "apsnd end_abs (chunk_stream sw_chunk hcp (cb_mem b)) = (take n (cb_mem b) @ payload new, e)"
      using chunk_stream_data_end [OF inv(1) n(1), of "cb_mem b"] n(2) new(3) unfolding b2
      by (simp add: prod_eq_iff)
    moreover have "accounted hcp b (Suc (length new)) hcp' b'"
      using acc by (auto simp: accounted_def chunk_retain_def buf_retain_def split: if_splits)
    ultimately show ?thesis
      unfolding r using new by (intro while_specI [where new = "(i, take n (cb_mem b)) # new" and e = e]) simp_all
  qed
qed

lemma while_spec_exact:
  assumes "chunk_size hcp \<noteq> 0" "\<not> cp_trailer hcp" and n: "unat (chunk_size hcp) = length (cb_mem b)"
    and "\<not> cp_chunk_error hcp" and "\<not> cp_last hcp"
  shows "while_spec i (sw_chunk, hcp, b, out) (Goto_next, sw_chunk_end_newline,
    (chunk_retain hcp)\<lparr>chunk_size := 0\<rparr>, buf_retain hcp (b\<lparr>cb_mem := []\<rparr>), out @ [(i, cb_mem b)])"
proof (rule while_specI)
  show "apsnd end_abs (chunk_stream sw_chunk hcp (cb_mem b)) =
      (payload [(i, cb_mem b)], More sw_chunk_end_newline (chunk_abs sw_chunk_end_newline ((chunk_retain hcp)\<lparr>chunk_size := 0\<rparr>)))"
    using chunk_stream_data_end [OF assms(1) n, of "cb_mem b"]
    by (simp add: chunk_abs_def chunk_retain_def)
qed (use assms in \<open>auto simp: while_ok_def accounted_def chunk_inv_def chunk_retain_def buf_retain_def\<close>)

lemma while_spec_short:
  assumes "chunk_size hcp \<noteq> 0" "\<not> cp_trailer hcp" and n: "length (cb_mem b) < unat (chunk_size hcp)"
    and "\<not> cp_chunk_error hcp" and "\<not> cp_last hcp"
    and "chunk_size hcp \<noteq> of_nat (length (cb_mem b))"
  shows "while_spec i (sw_chunk, hcp, b, out) (Goto_next, sw_chunk,
    (chunk_retain hcp)\<lparr>chunk_size := chunk_size hcp - of_nat (length (cb_mem b))\<rparr>, buf_retain hcp b, out @ [(i, cb_mem b)])"
proof (rule while_specI)
  show "apsnd end_abs (chunk_stream sw_chunk hcp (cb_mem b)) =
      (payload [(i, cb_mem b)], More sw_chunk (chunk_abs sw_chunk
        ((chunk_retain hcp)\<lparr>chunk_size := chunk_size hcp - of_nat (length (cb_mem b))\<rparr>)))"
    using chunk_stream_data [OF assms(1) n] by (simp add: chunk_abs_def chunk_retain_def)
qed (use assms in \<open>auto simp: while_ok_def accounted_def chunk_inv_def chunk_retain_def buf_retain_def\<close>)

lemma while_stream:
  assumes "\<And>n. alloc n" and "chunk_inv state hcp" and "\<not> cp_chunk_error hcp" and "\<not> cp_last hcp"
  shows "while_spec i (state, hcp, b, out) (chunk_while alloc i (state, hcp, b, out))"
  using assms(2-)
proof (induction "length (cb_mem b)" arbitrary: state hcp b out rule: less_induct)
  case less
  show ?case
  proof (cases "cb_mem b")
    case Nil
    then show ?thesis using while_spec_Nil [OF Nil less.prems] by (simp add: chunk_while.simps)
  next
    case (Cons ch mem)
    show ?thesis
    proof (cases "state = sw_chunk")
      case False
      show ?thesis
      proof (cases "chunk_switch state hcp ch")
        case (Continue st h)
        have "while_spec i (st, h, b\<lparr>cb_mem := mem\<rparr>, out) (chunk_while alloc i (st, h, b\<lparr>cb_mem := mem\<rparr>, out))"
          using switch_frame(1) [OF Continue] less.prems chunk_switch_inv [OF less.prems(1) Continue]
          by (intro less.hyps) (simp_all add: Cons same_frame_def)
        then show ?thesis
          using while_spec_Continue [OF Cons False Continue] by (simp add: while_step [OF Cons False] Continue)
      qed (use while_spec_stop [OF Cons False less.prems(2)] in \<open>simp_all add: while_step [OF Cons False]\<close>)
    next
      case True
      define n where "n = unat (chunk_size hcp)"
      have inv: "chunk_size hcp \<noteq> 0" "\<not> cp_trailer hcp"
        using less.prems(1) by (simp_all add: True chunk_inv_def)
      have ne: "cb_mem b \<noteq> []" by (simp add: Cons)
      note data = while_data [of b alloc out i hcp, OF ne assms(1)]
      consider (long) "n < length (cb_mem b)" | (exact) "n = length (cb_mem b)" | (short) "length (cb_mem b) < n"
        by linarith
      then show ?thesis
      proof cases
        case long
        have "0 < n" using inv(1) by (auto simp: n_def word_unat_eq_iff)
        then have "while_spec i (sw_chunk_end_newline, chunk_retain hcp,
            buf_retain hcp (b\<lparr>cb_mem := drop n (cb_mem b)\<rparr>), out @ [(i, take n (cb_mem b))])
          (chunk_while alloc i (sw_chunk_end_newline, chunk_retain hcp,
            buf_retain hcp (b\<lparr>cb_mem := drop n (cb_mem b)\<rparr>), out @ [(i, take n (cb_mem b))]))"
          using inv ne less.prems(2,3)
          by (intro less.hyps) (simp_all add: buf_retain_def chunk_retain_def chunk_inv_def)
        from while_spec_long [OF inv n_def [symmetric] long this] show ?thesis
          using data long by (simp add: True n_def)
      next
        case exact
        then have "chunk_size hcp = of_nat (length (cb_mem b))"
          unfolding n_def by (metis of_nat_unat ucast_id)
        then show ?thesis
          using while_spec_exact [OF inv _ less.prems(2,3)] exact data by (simp add: True n_def)
      next
        case short
        have "chunk_size hcp \<noteq> of_nat (length (cb_mem b))"
        proof
          assume e: "chunk_size hcp = of_nat (length (cb_mem b))"
          have "unat (chunk_size hcp) \<le> length (cb_mem b)"
            unfolding e by (simp add: unsigned_of_nat take_bit_nat_less_eq_self)
          with short show False by (simp add: n_def)
        qed
        then show ?thesis
          using while_spec_short [OF inv _ less.prems(2,3)] short data by (simp add: True n_def)
      qed
    qed
  qed
qed

text \<open>The chain of buffers.\<close>

lemma stream_append_abs:
  assumes "apsnd end_abs (chunk_stream state hcp xs) = (p, e)"
  shows "e = More st (chunk_abs st h) \<Longrightarrow>
      apsnd end_abs (chunk_stream state hcp (xs @ ys)) = apfst ((@) p) (apsnd end_abs (chunk_stream st h ys))"
    "e = Last r f \<Longrightarrow> apsnd end_abs (chunk_stream state hcp (xs @ ys)) = (p, Last (r @ ys) f)"
    "e = Bad r f \<Longrightarrow> apsnd end_abs (chunk_stream state hcp (xs @ ys)) = (p, Bad (r @ ys) f)"
proof -
  obtain e' where s: "chunk_stream state hcp xs = (p, e')" "end_abs e' = e"
    using assms by (cases "chunk_stream state hcp xs") auto
  show "e = More st (chunk_abs st h) \<Longrightarrow>
      apsnd end_abs (chunk_stream state hcp (xs @ ys)) = apfst ((@) p) (apsnd end_abs (chunk_stream st h ys))"
  proof -
    assume "e = More st (chunk_abs st h)"
    with s(2) obtain h' where h': "e' = More st h'" "chunk_abs st h' = chunk_abs st h"
      by (cases e') auto
    from chunk_stream_abs [OF h'(2)] show ?thesis
      by (simp add: chunk_stream_append s(1) h'(1) prod_eq_iff)
  qed
  show "e = Last r f \<Longrightarrow> apsnd end_abs (chunk_stream state hcp (xs @ ys)) = (p, Last (r @ ys) f)"
    "e = Bad r f \<Longrightarrow> apsnd end_abs (chunk_stream state hcp (xs @ ys)) = (p, Bad (r @ ys) f)"
    using s by (cases e'; simp add: chunk_stream_append)+
qed

text \<open>
  How the parser ends against how the byte machine ends: waiting in the same state, at the end of
  the body with the unread data in the rest of the chain, or in error.
\<close>

definition chain_ok :: "chunk_parse \<Rightarrow> chunk_buf list \<Rightarrow> stream_end \<Rightarrow> bool" where
  "chain_ok hcp bufs e \<longleftrightarrow>
     (case e of
        More state h \<Rightarrow> cp_state hcp = state \<and> h = chunk_abs state hcp \<and> chunk_inv state hcp \<and>
          \<not> cp_chunk_error hcp \<and> \<not> cp_last hcp
      | Last r h \<Rightarrow> cp_last hcp \<and> \<not> cp_chunk_error hcp \<and> (\<exists>k. r = concat (map cb_mem (drop k bufs)))
      | Bad r h \<Rightarrow> cp_chunk_error hcp)"

lemma chain_ok_Cons: "chain_ok hcp bufs e \<Longrightarrow> chain_ok hcp (b # bufs) e"
  unfolding chain_ok_def by (cases e) (auto intro: exI [of _ "Suc k" for k])

definition retained :: "bool \<Rightarrow> nat \<Rightarrow> chunk_slice list \<Rightarrow> nat" where
  "retained keep i out = (if keep then 0 else length (filter (\<lambda>x. fst x = i) out))"

lemma retained_simps:
  "retained keep i [] = 0" "retained keep i (out @ out') = retained keep i out + retained keep i out'"
  "list_all (\<lambda>x. fst x = j) out \<Longrightarrow> retained keep i out = (if keep \<or> i \<noteq> j then 0 else length out)"
  by (auto simp: retained_def list_all_iff filter_empty_conv intro!: arg_cong [of _ _ length] filter_True)

definition chain_spec :: "nat \<Rightarrow> chunk_state \<Rightarrow> chunk_parse \<Rightarrow> chunk_slice list \<Rightarrow> chunk_buf list \<Rightarrow>
    chunk_parse \<times> chunk_slice list \<times> chunk_buf list \<times> nat list \<Rightarrow> bool" where
  "chain_spec i state hcp out bufs r \<longleftrightarrow>
     (case r of (hcp', out', bufs', queue) \<Rightarrow>
      \<exists>new e. out' = out @ new \<and> list_all (\<lambda>x. i \<le> fst x) new \<and>
        apsnd end_abs (chunk_stream state hcp (concat (map cb_mem bufs))) = (payload new, e) \<and>
        chain_ok hcp' bufs' e \<and> length bufs' = length bufs \<and>
        (\<forall>j < length bufs. cb_retain (bufs' ! j) = cb_retain (bufs ! j) + retained (retain_buffers hcp) (i + j) new) \<and>
        mem_pool hcp' = mem_pool hcp + (if retain_buffers hcp then 0 else length new) \<and>
        cp_error hcp' = cp_error hcp \<and> retain_buffers hcp' = retain_buffers hcp \<and>
        queue = chunk_drain hcp' i bufs')"

lemma chunk_drain_frame: "retain_buffers hcp = retain_buffers hcp' \<Longrightarrow> chunk_drain hcp i bs = chunk_drain hcp' i bs"
  by (induction bs arbitrary: i) (simp_all add: chunk_completes_def)

lemma chunk_drain_filter:
  "chunk_drain hcp i bs = filter (\<lambda>j. chunk_completes hcp (bs ! (j - i))) [i..<i + length bs]"
proof (induction bs arbitrary: i)
  case (Cons b bs)
  have f: "filter (\<lambda>j. chunk_completes hcp ((b # bs) ! (j - i))) [Suc i..<Suc i + length bs] =
      filter (\<lambda>j. chunk_completes hcp (bs ! (j - Suc i))) [Suc i..<Suc i + length bs]"
    by (rule filter_cong) (auto simp: nth_Cons')
  have u: "[i..<i + length (b # bs)] = i # [Suc i..<Suc i + length bs]"
    by (simp add: upt_conv_Cons del: upt_Suc)
  show ?case unfolding u using Cons.IH [of "Suc i"] f by (simp del: upt_Suc)
qed simp

lemma chain_stop:
  assumes w: "while_spec i (state, hcp, b, out) (Goto_done, state', hcp', b', out')"
  shows "chain_spec i state hcp out (b # next) (hcp', out', b' # next, chunk_drain hcp' i (b' # next))"
  using w
proof (rule while_specE)
  fix new e
  assume new: "out' = out @ new" "list_all (\<lambda>x. fst x = i) new"
    and s: "apsnd end_abs (chunk_stream state hcp (cb_mem b)) = (payload new, e)"
    and ok: "while_ok Goto_done state' hcp' b' e" and acc: "accounted hcp b (length new) hcp' b'"
  have d0: "\<exists>k. cb_mem b' @ concat (map cb_mem next) = concat (map cb_mem (drop k (b' # next)))"
    by (rule exI [of _ 0]) simp
  obtain f where "if cp_chunk_error hcp' then e = Bad (cb_mem b') f else cp_last hcp' \<and> e = Last (cb_mem b') f"
    using ok by (auto simp: while_ok_def split: if_splits)
  then obtain e' where e': "apsnd end_abs (chunk_stream state hcp (concat (map cb_mem (b # next)))) = (payload new, e')"
      "chain_ok hcp' (b' # next) e'"
    using stream_append_abs(2,3) [OF s, of "cb_mem b'" f "concat (map cb_mem next)"]
      d0 by (cases "cp_chunk_error hcp'") (auto simp: chain_ok_def)
  have "\<forall>j < length (b # next). cb_retain ((b' # next) ! j) =
      cb_retain ((b # next) ! j) + retained (retain_buffers hcp) (i + j) new"
    using acc by (auto simp: retained_simps(3) [OF new(2)] accounted_def nth_Cons' split: if_splits)
  moreover have "list_all (\<lambda>x. i \<le> fst x) new" using new(2) by (simp add: list_all_iff)
  ultimately show ?thesis
    unfolding chain_spec_def using new e' acc by (auto simp: accounted_def)
qed

lemma chain_go_on:
  assumes w: "while_spec i (state, hcp, b, out) (exit, state', hcp', b', out')" and "exit \<noteq> Goto_done"
    and c: "chain_spec (i + 1) state' hcp' out' next (h, o', next', queue)"
  shows "chain_spec i state hcp out (b # next)
    (h, o', b' # next', (if exit = Buf_end \<and> chunk_completes hcp' b' then [i] else []) @ queue)"
  using w
proof (rule while_specE)
  fix new e
  assume new: "out' = out @ new" "list_all (\<lambda>x. fst x = i) new"
    and s: "apsnd end_abs (chunk_stream state hcp (cb_mem b)) = (payload new, e)"
    and ok: "while_ok exit state' hcp' b' e" and acc: "accounted hcp b (length new) hcp' b'"
    and nn: "exit = Goto_next \<longrightarrow> new \<noteq> []"
  obtain new2 e2 where c2: "o' = out' @ new2" "list_all (\<lambda>x. i + 1 \<le> fst x) new2"
    "apsnd end_abs (chunk_stream state' hcp' (concat (map cb_mem next))) = (payload new2, e2)"
    "chain_ok h next' e2" "length next' = length next"
    "\<forall>j < length next. cb_retain (next' ! j) = cb_retain (next ! j) + retained (retain_buffers hcp') (i + 1 + j) new2"
    "mem_pool h = mem_pool hcp' + (if retain_buffers hcp' then 0 else length new2)"
    "cp_error h = cp_error hcp'" "retain_buffers h = retain_buffers hcp'" "queue = chunk_drain h (i + 1) next'"
    using c by (auto simp: chain_spec_def)
  have e: "e = More state' (chunk_abs state' hcp')" using ok assms(2) by (simp add: while_ok_def)
  have str: "apsnd end_abs (chunk_stream state hcp (concat (map cb_mem (b # next)))) = (payload (new @ new2), e2)"
    using stream_append_abs(1) [OF s e, of "concat (map cb_mem next)"] c2(3) by simp
  have r2: "retained keep i new2 = 0" for keep
    using c2(2) by (auto simp: retained_def list_all_iff filter_empty_conv)
  have ret: "cb_retain ((b' # next') ! j) = cb_retain ((b # next) ! j) + retained (retain_buffers hcp) (i + j) (new @ new2)"
    if "j < length (b # next)" for j
    using acc c2(6) that r2
    by (cases j) (auto simp: retained_simps(2) retained_simps(3) [OF new(2)] accounted_def split: if_splits)
  have le: "list_all (\<lambda>x. i \<le> fst x) (new @ new2)" using new(2) c2(2) by (auto simp: list_all_iff)
  have q: "(if exit = Buf_end \<and> chunk_completes hcp' b' then [i] else []) @ queue = chunk_drain h i (b' # next')"
    using acc nn assms(2) c2(9,10)
    by (cases exit) (auto simp: chunk_completes_def accounted_def split: if_splits)
  show ?thesis
    unfolding chain_spec_def using new(1) c2 str ret le q acc
    by (auto simp: accounted_def intro!: exI [of _ "new @ new2"] exI [of _ e2] chain_ok_Cons split: if_splits)
qed

lemma chain_stream:
  assumes "\<And>n. alloc n" and "chunk_inv state hcp" and "\<not> cp_chunk_error hcp" and "\<not> cp_last hcp"
  shows "chain_spec i state hcp out bufs (chunk_chain alloc i state hcp out bufs)"
  using assms(2-)
proof (induction bufs arbitrary: i state hcp out)
  case Nil
  then show ?case
    by (auto simp: chain_spec_def chain_ok_def chunk_abs_def chunk_inv_def split: chunk_state.splits)
next
  case (Cons b "next")
  obtain exit state' hcp' b' out' where w: "chunk_while alloc i (state, hcp, b, out) = (exit, state', hcp', b', out')"
    by (cases "chunk_while alloc i (state, hcp, b, out)") auto
  have ws: "while_spec i (state, hcp, b, out) (exit, state', hcp', b', out')"
    using while_stream [of alloc, OF assms(1) Cons.prems, of i b out] w by simp
  show ?case
  proof (cases "exit = Goto_done")
    case True
    then show ?thesis using chain_stop ws w by simp
  next
    case False
    then have inv: "chunk_inv state' hcp'" "\<not> cp_chunk_error hcp'" "\<not> cp_last hcp'"
      using ws by (auto simp: while_spec_def while_ok_def)
    obtain h o' next' queue where c: "chunk_chain alloc (i + 1) state' hcp' out' next = (h, o', next', queue)"
      by (cases "chunk_chain alloc (i + 1) state' hcp' out' next") auto
    have "chain_spec (i + 1) state' hcp' out' next (h, o', next', queue)"
      using Cons.IH [OF inv, where i = "i + 1" and out = out'] c by simp
    from chain_go_on [OF ws False this] show ?thesis
      using False w c by (cases exit) simp_all
  qed
qed

section \<open>The grammar\<close>

text \<open>A hexadecimal digit as the parser reads it, and the value of a string of them.\<close>

definition chunk_hex :: "u_char \<Rightarrow> nat option" where
  "chunk_hex ch =
     (if ch - c_0 \<le> 9 then Some (unat (ch - c_0))
      else if (ch OR 0x20) - c_a \<le> 5 then Some (10 + unat ((ch OR 0x20) - c_a))
      else None)"

fun hex_value :: "nat \<Rightarrow> nxt_str \<Rightarrow> nat" where
  "hex_value v [] = v"
| "hex_value v (ch # ds) = hex_value (16 * v + the (chunk_hex ch)) ds"

definition hex_digits :: "nxt_str \<Rightarrow> bool" where
  "hex_digits ds \<longleftrightarrow> list_all (\<lambda>ch. chunk_hex ch \<noteq> None) ds"

text \<open>An extension: nothing, or a semicolon and bytes other than CR.\<close>

definition chunk_extension :: "nxt_str \<Rightarrow> bool" where
  "chunk_extension ext \<longleftrightarrow> ext = [] \<or> hd ext = c_semicolon \<and> c_cr \<notin> set ext"

definition size_line :: "nxt_str \<Rightarrow> nat \<Rightarrow> bool" where
  "size_line l v \<longleftrightarrow> (\<exists>ds ext. l = ds @ ext @ [c_cr, c_lf] \<and> ds \<noteq> [] \<and> hex_digits ds \<and>
     hex_value 0 ds = v \<and> v < 2 ^ 64 \<and> chunk_extension ext)"

definition value_char :: "u_char \<Rightarrow> bool" where
  "value_char ch \<longleftrightarrow> \<not> ((ch < 0x20 \<or> ch = 0x7f) \<and> ch \<noteq> c_tab)"

definition trailer_line :: "nxt_str \<Rightarrow> bool" where
  "trailer_line l \<longleftrightarrow> (\<exists>name val. l = name @ c_colon # val @ [c_cr, c_lf] \<and> name \<noteq> [] \<and>
     list_all trailer_tchar name \<and> list_all value_char val)"

text \<open>A chunked body, with its payload.\<close>

inductive chunked :: "nxt_str \<Rightarrow> nxt_str \<Rightarrow> bool" where
  chunked_last: "size_line l 0 \<Longrightarrow> list_all trailer_line ts \<Longrightarrow> length (concat ts) \<le> 4096 \<Longrightarrow>
    chunked (l @ concat ts @ [c_cr, c_lf]) []"
| chunked_data: "size_line l (length d) \<Longrightarrow> d \<noteq> [] \<Longrightarrow> chunked s p \<Longrightarrow>
    chunked (l @ d @ [c_cr, c_lf] @ s) (d @ p)"

text \<open>Reading the size.\<close>

lemma chunk_hex_le: "chunk_hex ch = Some v \<Longrightarrow> v \<le> 15"
  by (auto simp: chunk_hex_def word_le_nat_alt split: if_splits)

lemma chunk_hex_cr: "chunk_hex c_cr = None" "chunk_hex c_semicolon = None"
  by code_simp+

definition sized :: "nat \<Rightarrow> chunk_parse \<Rightarrow> chunk_parse" where
  "sized v hcp = hcp\<lparr>chunk_size := of_nat v\<rparr>"

lemma sized_simps [simp]:
  "chunk_size (sized v hcp) = of_nat v" "cp_trailer (sized v hcp) = cp_trailer hcp"
  "sized v (sized w hcp) = sized v hcp" "(sized v hcp)\<lparr>chunk_size := n\<rparr> = hcp\<lparr>chunk_size := n\<rparr>"
  by (simp_all add: sized_def)

lemma switch_start:
  "chunk_switch sw_start hcp ch =
     (case chunk_hex ch of None \<Rightarrow> Chunk_error hcp | Some v \<Rightarrow> Continue sw_chunk_size (sized v hcp))"
  by (auto simp: chunk_hex_def Let_def sized_def)

lemma switch_size:
  "chunk_switch sw_chunk_size hcp ch =
     (case chunk_hex ch of
        None \<Rightarrow> if ch = c_cr then Continue sw_chunk_size_linefeed hcp
                else if ch = c_semicolon then Continue sw_chunk_ext hcp
                else Chunk_error hcp
      | Some v \<Rightarrow> if unat (chunk_size hcp) < 2 ^ 60
                  then Continue sw_chunk_size (sized (16 * unat (chunk_size hcp) + v) hcp)
                  else Chunk_error hcp)"
proof -
  define f :: "u_char \<Rightarrow> chunk_next" where "f c =
    (if nxt_size_is_sufficient (chunk_size hcp)
     then Continue sw_chunk_size (hcp\<lparr>chunk_size := push_bit 4 (chunk_size hcp) + ucast c\<rparr>)
     else Chunk_error hcp)" for c
  have f: "f c = (if unat (chunk_size hcp) < 2 ^ 60
      then Continue sw_chunk_size (sized (16 * unat (chunk_size hcp) + unat c) hcp)
      else Chunk_error hcp)" for c
    by (simp add: f_def sized_def nxt_size_is_sufficient_def word_less_nat_alt push_bit_eq_mult)
  have u: "unat (c + 0xA :: u_char) = 10 + unat c" if "c \<le> 5" for c
    using that by (simp add: word_le_nat_alt unat_word_ariths)
  have sw: "chunk_switch sw_chunk_size hcp ch =
     (if 9 < ch - c_0 then
        if (ch OR 0x20) - c_a \<le> 5 then f ((ch OR 0x20) - c_a + 0x0A)
        else if ch = c_cr then Continue sw_chunk_size_linefeed hcp
        else if ch = c_semicolon then Continue sw_chunk_ext hcp
        else Chunk_error hcp
      else f (ch - c_0))"
    by (simp add: f_def Let_def)
  consider (dec) "ch - c_0 \<le> 9" | (letter) "\<not> ch - c_0 \<le> 9" "(ch OR 0x20) - c_a \<le> 5"
    | (other) "\<not> ch - c_0 \<le> 9" "\<not> (ch OR 0x20) - c_a \<le> 5" by blast
  then show ?thesis
  proof cases
    case dec
    then have h: "chunk_hex ch = Some (unat (ch - c_0))" by (simp add: chunk_hex_def)
    have n: "(9 < ch - c_0) = False" using dec by (simp add: not_less)
    show ?thesis unfolding sw h f n if_False option.case ..
  next
    case letter
    then have h: "chunk_hex ch = Some (10 + unat ((ch OR 0x20) - c_a))" by (simp add: chunk_hex_def)
    have n: "(9 < ch - c_0) = True" "((ch OR 0x20) - c_a \<le> 5) = True" using letter by (simp_all add: not_le)
    show ?thesis unfolding sw h f n if_True option.case u [OF letter(2)] ..
  next
    case other
    then have h: "chunk_hex ch = None" by (simp add: chunk_hex_def)
    have n: "(9 < ch - c_0) = True" "((ch OR 0x20) - c_a \<le> 5) = False" using other by (simp_all add: not_le)
    show ?thesis unfolding sw h n if_True if_False option.case ..
  qed
qed

lemma unat_of_nat_64: "v < 2 ^ 64 \<Longrightarrow> unat (of_nat v :: uint64) = v"
  by (simp add: unsigned_of_nat take_bit_nat_eq_self_iff)

lemma hex_value_ge: "v \<le> hex_value v ds"
proof (induction ds arbitrary: v)
  case (Cons ch ds)
  have "v \<le> 16 * v + the (chunk_hex ch)" by simp
  also have "\<dots> \<le> hex_value (16 * v + the (chunk_hex ch)) ds" by (rule Cons.IH)
  finally show ?case by simp
qed simp

lemma sized_trailer [simp]: "(sized v hcp)\<lparr>cp_trailer := b\<rparr> = sized v (hcp\<lparr>cp_trailer := b\<rparr>)"
  by (simp add: sized_def)

text \<open>What follows the size line.\<close>

definition after_size :: "nat \<Rightarrow> chunk_parse \<Rightarrow> nxt_str \<Rightarrow> nxt_str \<times> stream_end" where
  "after_size v hcp s =
     (if v = 0 then chunk_stream sw_chunk_end_newline (sized 0 (hcp\<lparr>cp_trailer := True\<rparr>)) s
      else chunk_stream sw_chunk (sized v hcp) s)"

lemma stream_ext: "c_cr \<notin> set e \<Longrightarrow> chunk_stream sw_chunk_ext hcp (e @ c_cr # s) = chunk_stream sw_chunk_size_linefeed hcp s"
  by (induction e) auto

lemma stream_size_end:
  assumes "chunk_extension ext" and "v < 2 ^ 64"
  shows "chunk_stream sw_chunk_size (sized v hcp) (ext @ c_cr # c_lf # s) = after_size v hcp s"
proof -
  have lf: "chunk_stream sw_chunk_size_linefeed (sized v hcp) (c_lf # s) = after_size v hcp s"
  proof -
    have "(of_nat v :: uint64) = 0 \<longleftrightarrow> v = 0"
      unfolding word_unat_eq_iff unat_of_nat_64 [OF assms(2)] unat_0 ..
    then show ?thesis by (cases "v = 0") (simp_all add: after_size_def)
  qed
  show ?thesis
  proof (cases ext)
    case Nil
    then show ?thesis
      using lf by (simp add: switch_size chunk_hex_cr del: chunk_switch.simps(2))
  next
    case (Cons c e)
    then have "c = c_semicolon" "c_cr \<notin> set e" using assms(1) by (auto simp: chunk_extension_def)
    then show ?thesis
      using lf Cons stream_ext [of e "sized v hcp" "c_lf # s"]
      by (simp add: switch_size chunk_hex_cr del: chunk_switch.simps(2))
  qed
qed

lemma stream_size_complete:
  assumes "hex_digits ds" and "hex_value v ds < 2 ^ 64" and "chunk_extension ext"
  shows "chunk_stream sw_chunk_size (sized v hcp) (ds @ ext @ c_cr # c_lf # s) = after_size (hex_value v ds) hcp s"
  using assms
proof (induction ds arbitrary: v)
  case Nil
  then show ?case by (simp add: stream_size_end)
next
  case (Cons ch ds)
  then obtain d where d: "chunk_hex ch = Some d" by (auto simp: hex_digits_def)
  have "16 * v \<le> hex_value (16 * v + d) ds" using hex_value_ge [of "16 * v + d" ds] by simp
  then have v: "v < 2 ^ 60" using Cons.prems(2) by (simp add: d)
  then have "unat (of_nat v :: uint64) = v" by (intro unat_of_nat_64) simp
  then show ?case
    using Cons v by (simp add: switch_size d hex_digits_def del: chunk_switch.simps(2))
qed

lemma stream_start:
  assumes "size_line l v"
  shows "chunk_stream sw_start hcp (l @ s) = after_size v hcp s"
proof -
  obtain ds ext where l: "l = ds @ ext @ [c_cr, c_lf]" "ds \<noteq> []" "hex_digits ds" "hex_value 0 ds = v"
      "v < 2 ^ 64" "chunk_extension ext"
    using assms by (auto simp: size_line_def)
  then obtain ch ds' d where ds: "ds = ch # ds'" "chunk_hex ch = Some d" "hex_digits ds'" "hex_value d ds' = v"
    by (cases ds) (auto simp: hex_digits_def)
  then show ?thesis
    using stream_size_complete [of ds' d ext hcp s] l
    by (simp add: switch_start del: chunk_switch.simps(1))
qed

text \<open>The states in front of a size line lead to the end only over a size line.\<close>

lemma stream_ext_sound:
  "chunk_stream sw_chunk_ext hcp s = (p, Last r h) \<Longrightarrow> \<exists>e s'. s = e @ c_cr # s' \<and> c_cr \<notin> set e"
proof (induction s)
  case (Cons ch s)
  show ?case
  proof (cases "ch = c_cr")
    case True
    then show ?thesis by (simp add: exI [of _ "[]"])
  next
    case False
    with Cons obtain e s' where "s = e @ c_cr # s'" "c_cr \<notin> set e" by auto
    with False have "ch # s = (ch # e) @ c_cr # s'" "c_cr \<notin> set (ch # e)" by auto
    then show ?thesis by blast
  qed
qed simp

lemma stream_linefeed_sound:
  "chunk_stream sw_chunk_size_linefeed hcp s = (p, Last r h) \<Longrightarrow> \<exists>s'. s = c_lf # s'"
  by (cases s) (auto split: if_splits)

lemma stream_size_sound:
  assumes "chunk_stream sw_chunk_size (sized v hcp) s = (p, Last r h)" and "v < 2 ^ 64"
  shows "\<exists>ds ext s'. s = ds @ ext @ c_cr # c_lf # s' \<and> hex_digits ds \<and> hex_value v ds < 2 ^ 64 \<and> chunk_extension ext"
  using assms
proof (induction s arbitrary: v)
  case (Cons ch s)
  note st = Cons.prems(1)
  show ?case
  proof (cases "chunk_hex ch")
    case (Some d)
    have "unat (of_nat v :: uint64) = v" by (rule unat_of_nat_64 [OF Cons.prems(2)])
    then have v: "v < 2 ^ 60" "chunk_stream sw_chunk_size (sized (16 * v + d) hcp) s = (p, Last r h)"
      using st by (auto simp: switch_size Some split: if_splits simp del: chunk_switch.simps(2))
    have "16 * v + d < 2 ^ 64" using v(1) chunk_hex_le [OF Some] by simp
    from Cons.IH [OF v(2) this] obtain ds ext s' where "s = ds @ ext @ c_cr # c_lf # s'" "hex_digits ds"
        "hex_value (16 * v + d) ds < 2 ^ 64" "chunk_extension ext" by blast
    then have "ch # s = (ch # ds) @ ext @ c_cr # c_lf # s'" "hex_digits (ch # ds)"
        "hex_value v (ch # ds) < 2 ^ 64" "chunk_extension ext"
      using Some by (simp_all add: hex_digits_def)
    then show ?thesis by blast
  next
    case None
    then consider (cr) "ch = c_cr" "chunk_stream sw_chunk_size_linefeed (sized v hcp) s = (p, Last r h)"
      | (ext) "ch = c_semicolon" "chunk_stream sw_chunk_ext (sized v hcp) s = (p, Last r h)"
      using st by (auto simp: switch_size split: if_splits simp del: chunk_switch.simps(2))
    then show ?thesis
    proof cases
      case cr
      then obtain s' where "ch # s = [] @ [] @ c_cr # c_lf # s'" using stream_linefeed_sound by fastforce
      moreover have "hex_digits []" "chunk_extension []" "hex_value v [] < 2 ^ 64"
        using Cons.prems(2) by (simp_all add: hex_digits_def chunk_extension_def)
      ultimately show ?thesis by blast
    next
      case ext
      then obtain e s' where e: "s = e @ c_cr # s'" "c_cr \<notin> set e" using stream_ext_sound by blast
      with ext obtain s'' where "s' = c_lf # s''" using stream_ext stream_linefeed_sound by metis
      with e ext have "ch # s = [] @ (ch # e) @ c_cr # c_lf # s''" "hex_digits []" "chunk_extension (ch # e)"
          "hex_value v [] < 2 ^ 64"
        using Cons.prems(2) by (auto simp: hex_digits_def chunk_extension_def)
      then show ?thesis by blast
    qed
  qed
qed simp

lemma stream_start_sound:
  assumes "chunk_stream sw_start hcp s = (p, Last r h)"
  obtains l v s' where "s = l @ s'" "size_line l v" "after_size v hcp s' = (p, Last r h)"
proof -
  obtain ch s1 d where s: "s = ch # s1" "chunk_hex ch = Some d" "chunk_stream sw_chunk_size (sized d hcp) s1 = (p, Last r h)"
    using assms by (cases s) (auto simp: switch_start split: option.splits simp del: chunk_switch.simps(1))
  have "d < 2 ^ 64" using chunk_hex_le [OF s(2)] by simp
  from stream_size_sound [OF s(3) this] obtain ds ext s'
    where l: "s1 = ds @ ext @ c_cr # c_lf # s'" "hex_digits ds" "hex_value d ds < 2 ^ 64" "chunk_extension ext" by blast
  have "size_line ((ch # ds) @ ext @ [c_cr, c_lf]) (hex_value d ds)"
    unfolding size_line_def
    by (rule exI [of _ "ch # ds"], rule exI [of _ ext]) (use l s(2) in \<open>auto simp: hex_digits_def\<close>)
  moreover have "s = ((ch # ds) @ ext @ [c_cr, c_lf]) @ s'" by (simp add: s l)
  ultimately show thesis using that stream_start assms by metis
qed

text \<open>Trailer lines.\<close>

lemma trailer_count_sized:
  "n \<le> 4096 \<Longrightarrow> trailer_count state (sized n hcp) =
     (if n < 4096 then Continue state (sized (n + 1) hcp) else Chunk_error (sized (n + 1) hcp))"
proof -
  assume n: "n \<le> 4096"
  then have "unat (of_nat (n + 1) :: uint64) = n + 1" by (intro unat_of_nat_64) simp
  then have "(4096 < (of_nat (n + 1) :: uint64)) \<longleftrightarrow> \<not> n < 4096"
    by (simp add: word_less_nat_alt del: of_nat_add) linarith
  moreover have "(sized n hcp)\<lparr>chunk_size := chunk_size (sized n hcp) + 1\<rparr> = sized (n + 1) hcp"
    by (simp add: sized_def add.commute)
  ultimately show ?thesis
    unfolding trailer_count_def Let_def NXT_HTTP_TRAILER_MAX_SIZE_def by simp
qed

lemma value_char_cr: "\<not> value_char c_cr" "\<not> trailer_tchar c_colon" "\<not> trailer_tchar c_cr"
  by code_simp+

lemma switch_value:
  "chunk_switch sw_trailer_value hcp ch =
     (if ch = c_cr then trailer_count sw_trailer_linefeed hcp
      else if value_char ch then trailer_count sw_trailer_value hcp
      else Chunk_error hcp)"
  by (simp add: value_char_def)

lemma stream_name:
  "list_all trailer_tchar name \<Longrightarrow> n + length name < 4096 \<Longrightarrow>
     chunk_stream sw_trailer_name (sized n hcp) (name @ c_colon # s) =
     chunk_stream sw_trailer_value (sized (n + length name + 1) hcp) s"
proof (induction name arbitrary: n)
  case Nil
  then show ?case by (simp add: trailer_count_sized)
next
  case (Cons c name)
  then show ?case using Cons.IH [of "n + 1"] value_char_cr by (auto simp: trailer_count_sized)
qed

lemma stream_value:
  "list_all value_char val \<Longrightarrow> n + length val < 4096 \<Longrightarrow>
     chunk_stream sw_trailer_value (sized n hcp) (val @ c_cr # s) =
     chunk_stream sw_trailer_linefeed (sized (n + length val + 1) hcp) s"
proof (induction val arbitrary: n)
  case Nil
  then show ?case by (simp add: trailer_count_sized)
next
  case (Cons c val)
  then have "c \<noteq> c_cr" using value_char_cr by auto
  then show ?case
    using Cons Cons.IH [of "n + 1"] by (simp add: switch_value trailer_count_sized del: chunk_switch.simps(9))
qed

lemma stream_line:
  assumes "trailer_line l" and "n + length l \<le> 4096" and "cp_trailer hcp"
  shows "chunk_stream sw_chunk_end_newline (sized n hcp) (l @ s) =
    chunk_stream sw_chunk_end_newline (sized (n + length l) hcp) s"
proof -
  obtain name val where l: "l = name @ c_colon # val @ [c_cr, c_lf]" "name \<noteq> []"
     "list_all trailer_tchar name" "list_all value_char val"
    using assms(1) by (auto simp: trailer_line_def)
  then obtain c name' where nm: "name = c # name'" by (cases name) auto
  have "c \<noteq> c_cr" using l nm value_char_cr by auto
  then have "chunk_stream sw_chunk_end_newline (sized n hcp) (l @ s) =
      chunk_stream sw_trailer_name (sized (n + 1) hcp) (name' @ c_colon # val @ c_cr # c_lf # s)"
    using l nm assms by (simp add: trailer_count_sized)
  also have "\<dots> = chunk_stream sw_trailer_linefeed (sized (n + length name' + length val + 3) hcp) (c_lf # s)"
    using stream_name [of name' "n + 1" hcp] stream_value [of val "n + 1 + length name' + 1" hcp] l nm assms(2)
    by (simp add: ac_simps numeral_3_eq_3)
  also have "\<dots> = chunk_stream sw_chunk_end_newline (sized (n + length l) hcp) s"
    using l nm assms(2) by (simp add: trailer_count_sized ac_simps numeral_3_eq_3)
  finally show ?thesis .
qed

lemma stream_trailer:
  "list_all trailer_line ts \<Longrightarrow> n + length (concat ts) \<le> 4096 \<Longrightarrow> cp_trailer hcp \<Longrightarrow>
     \<exists>h. chunk_stream sw_chunk_end_newline (sized n hcp) (concat ts @ c_cr # c_lf # r) = ([], Last r h)"
proof (induction ts arbitrary: n)
  case (Cons l ts)
  then show ?case
    using stream_line [of l n hcp "concat ts @ c_cr # c_lf # r"] Cons.IH [of "n + length l"] by simp
qed simp

lemma stream_value_sound:
  "chunk_stream sw_trailer_value (sized n hcp) s = (p, Last r h) \<Longrightarrow> n \<le> 4096 \<Longrightarrow>
     \<exists>val s'. s = val @ c_cr # c_lf # s' \<and> list_all value_char val \<and> n + length val + 2 \<le> 4096"
proof (induction s arbitrary: n)
  case (Cons ch s)
  show ?case
  proof (cases "ch = c_cr")
    case True
    with Cons.prems have n: "n < 4096" "chunk_stream sw_trailer_linefeed (sized (n + 1) hcp) s = (p, Last r h)"
      by (auto simp: trailer_count_sized split: if_splits)
    then obtain s' where "s = c_lf # s'" "n + 1 < 4096"
      by (cases s) (auto simp: trailer_count_sized split: if_splits)
    with True have "ch # s = [] @ c_cr # c_lf # s'" "list_all value_char []" "n + length [] + 2 \<le> 4096" by simp_all
    then show ?thesis by blast
  next
    case False
    with Cons.prems have n: "n < 4096" "value_char ch" "chunk_stream sw_trailer_value (sized (n + 1) hcp) s = (p, Last r h)"
      by (auto simp: switch_value trailer_count_sized simp del: chunk_switch.simps(9) split: if_splits)
    with Cons.IH [of "n + 1"] obtain val s' where "s = val @ c_cr # c_lf # s'" "list_all value_char val" "n + 1 + length val + 2 \<le> 4096"
      by auto
    with n have "ch # s = (ch # val) @ c_cr # c_lf # s'" "list_all value_char (ch # val)" "n + length (ch # val) + 2 \<le> 4096"
      by simp_all
    then show ?thesis by blast
  qed
qed simp

lemma stream_name_sound:
  "chunk_stream sw_trailer_name (sized n hcp) s = (p, Last r h) \<Longrightarrow> n \<le> 4096 \<Longrightarrow>
     \<exists>name val s'. s = name @ c_colon # val @ c_cr # c_lf # s' \<and> list_all trailer_tchar name \<and>
       list_all value_char val \<and> n + length name + length val + 3 \<le> 4096"
proof (induction s arbitrary: n)
  case (Cons ch s)
  show ?case
  proof (cases "ch = c_colon")
    case True
    with Cons.prems have n: "n < 4096" "chunk_stream sw_trailer_value (sized (n + 1) hcp) s = (p, Last r h)"
      by (auto simp: trailer_count_sized split: if_splits)
    from stream_value_sound [OF n(2)] n(1) obtain val s' where "s = val @ c_cr # c_lf # s'" "list_all value_char val"
        "n + 1 + length val + 2 \<le> 4096" by auto
    with True have "ch # s = [] @ c_colon # val @ c_cr # c_lf # s'" "list_all trailer_tchar []" "list_all value_char val"
      "n + length [] + length val + 3 \<le> 4096" by simp_all
    then show ?thesis by blast
  next
    case False
    with Cons.prems have n: "n < 4096" "trailer_tchar ch" "chunk_stream sw_trailer_name (sized (n + 1) hcp) s = (p, Last r h)"
      by (auto simp: trailer_count_sized split: if_splits)
    with Cons.IH [of "n + 1"] obtain name val s' where "s = name @ c_colon # val @ c_cr # c_lf # s'"
        "list_all trailer_tchar name" "list_all value_char val" "n + 1 + length name + length val + 3 \<le> 4096" by auto
    with n have "ch # s = (ch # name) @ c_colon # val @ c_cr # c_lf # s'" "list_all trailer_tchar (ch # name)"
      "list_all value_char val" "n + length (ch # name) + length val + 3 \<le> 4096" by simp_all
    then show ?thesis by blast
  qed
qed simp

lemma stream_trailer_sound:
  "chunk_stream sw_chunk_end_newline (sized n hcp) s = (p, Last r h) \<Longrightarrow> n \<le> 4096 \<Longrightarrow> cp_trailer hcp \<Longrightarrow>
     \<exists>ts. s = concat ts @ c_cr # c_lf # r \<and> list_all trailer_line ts \<and> n + length (concat ts) \<le> 4096 \<and> p = []"
proof (induction "length s" arbitrary: n s rule: less_induct)
  case less
  note st = less.prems(1)
  obtain ch s1 where s: "s = ch # s1" using st by (cases s) auto
  show ?case
  proof (cases "ch = c_cr")
    case True
    then have "s1 = c_lf # r \<and> p = []"
      using st less.prems(3) by (cases s1) (auto simp: s split: if_splits)
    with True less.prems(2) have "s = concat [] @ c_cr # c_lf # r" "list_all trailer_line []" "n + length (concat []) \<le> 4096" "p = []"
      by (simp_all add: s)
    then show ?thesis by blast
  next
    case False
    with st less.prems have n: "n < 4096" "trailer_tchar ch" "chunk_stream sw_trailer_name (sized (n + 1) hcp) s1 = (p, Last r h)"
      by (auto simp: s trailer_count_sized split: if_splits)
    from stream_name_sound [OF n(3)] n(1) obtain name val s' where l: "s1 = name @ c_colon # val @ c_cr # c_lf # s'"
        "list_all trailer_tchar name" "list_all value_char val" "n + 1 + length name + length val + 3 \<le> 4096" by auto
    define l' where "l' = (ch # name) @ c_colon # val @ [c_cr, c_lf]"
    have tl: "trailer_line l'"
      unfolding trailer_line_def l'_def using l n(2) by (intro exI [of _ "ch # name"] exI [of _ val]) simp
    have len: "n + length l' \<le> 4096" using l(4) by (simp add: l'_def)
    have s': "s = l' @ s'" by (simp add: s l l'_def)
    have "chunk_stream sw_chunk_end_newline (sized (n + length l') hcp) s' = (p, Last r h)"
      using stream_line [OF tl len less.prems(3), of s'] st s' by simp
    with less.hyps [of s' "n + length l'"] len less.prems(3) obtain ts where "s' = concat ts @ c_cr # c_lf # r"
        "list_all trailer_line ts" "n + length l' + length (concat ts) \<le> 4096" "p = []"
      by (auto simp: s' l'_def)
    with tl s' have "s = concat (l' # ts) @ c_cr # c_lf # r" "list_all trailer_line (l' # ts)"
        "n + length (concat (l' # ts)) \<le> 4096" "p = []" by simp_all
    then show ?thesis by blast
  qed
qed

section \<open>Acceptance\<close>

lemma stream_chunked:
  "chunked s p \<Longrightarrow> \<not> cp_trailer hcp \<Longrightarrow> \<exists>h. chunk_stream sw_start hcp (s @ r) = (p, Last r h)"
proof (induction s p arbitrary: hcp rule: chunked.induct)
  case (chunked_last l ts)
  then show ?case
    using stream_start [OF chunked_last(1), of hcp "concat ts @ c_cr # c_lf # r"]
      stream_trailer [of ts 0 "hcp\<lparr>cp_trailer := True\<rparr>" r]
    by (simp add: after_size_def)
next
  case (chunked_data l d s p)
  have v: "length d < 2 ^ 64" using chunked_data(1) by (auto simp: size_line_def)
  then have u: "unat (of_nat (length d) :: uint64) = length d" by (rule unat_of_nat_64)
  then have nz: "chunk_size (sized (length d) hcp) \<noteq> 0" using chunked_data(2) by (auto simp: word_unat_eq_iff)
  define hcp2 where "hcp2 = (sized (length d) hcp)\<lparr>chunk_size := 0\<rparr>"
  have "chunk_stream sw_start hcp (l @ d @ c_cr # c_lf # s @ r) = apfst ((@) d) (chunk_stream sw_start hcp2 (s @ r))"
    using stream_start [OF chunked_data(1), of hcp "d @ c_cr # c_lf # s @ r"] chunked_data(2,5)
      chunk_stream_data_end [OF nz, of "length d" "d @ c_cr # c_lf # s @ r"] u
    by (simp add: after_size_def hcp2_def)
  then show ?case using chunked_data(4) [of hcp2] chunked_data(5) by (auto simp: hcp2_def sized_def)
qed

lemma stream_chunked_sound:
  "chunk_stream sw_start hcp s = (p, Last r h) \<Longrightarrow> \<not> cp_trailer hcp \<Longrightarrow> \<exists>s0. s = s0 @ r \<and> chunked s0 p"
proof (induction "length s" arbitrary: s p hcp rule: less_induct)
  case less
  from less.prems(1) obtain l v s' where l: "s = l @ s'" "size_line l v" and st: "after_size v hcp s' = (p, Last r h)"
    by (rule stream_start_sound)
  show ?case
  proof (cases "v = 0")
    case True
    then have "chunk_stream sw_chunk_end_newline (sized 0 (hcp\<lparr>cp_trailer := True\<rparr>)) s' = (p, Last r h)"
      using st by (simp add: after_size_def)
    from stream_trailer_sound [OF this] obtain ts where ts: "s' = concat ts @ c_cr # c_lf # r"
      "list_all trailer_line ts" "length (concat ts) \<le> 4096" "p = []" by auto
    have "chunked (l @ concat ts @ [c_cr, c_lf]) p"
      using chunked_last [of l ts] l(2) True ts by simp
    moreover have "s = (l @ concat ts @ [c_cr, c_lf]) @ r" by (simp add: l ts)
    ultimately show ?thesis by blast
  next
    case False
    have v: "v < 2 ^ 64" using l(2) by (auto simp: size_line_def)
    then have u: "unat (chunk_size (sized v hcp)) = v" by (simp add: unat_of_nat_64)
    then have nz: "chunk_size (sized v hcp) \<noteq> 0" using False by (auto simp: word_unat_eq_iff)
    have st': "chunk_stream sw_chunk (sized v hcp) s' = (p, Last r h)"
      using st False by (simp add: after_size_def)
    have len: "v \<le> length s'"
      using chunk_stream_data [OF nz, of s'] st' u by (cases "length s' < v") auto
    define hcp2 where "hcp2 = (sized v hcp)\<lparr>chunk_size := 0\<rparr>"
    obtain p2 where p2: "p = take v s' @ p2" "chunk_stream sw_chunk_end_newline hcp2 (drop v s') = (p2, Last r h)"
      using chunk_stream_data_end [OF nz u len] st' by (cases "chunk_stream sw_chunk_end_newline hcp2 (drop v s')") (auto simp: hcp2_def)
    have nt: "\<not> cp_trailer hcp2" using less.prems(2) by (simp add: hcp2_def)
    from p2(2) nt obtain s2 where s2: "drop v s' = c_cr # c_lf # s2" "chunk_stream sw_start hcp2 s2 = (p2, Last r h)"
      by (cases "drop v s'"; cases "tl (drop v s')") (auto split: if_splits)
    have s'': "s' = take v s' @ [c_cr, c_lf] @ s2" using append_take_drop_id [of v s'] s2(1) by simp
    have "length s2 < length s'" using arg_cong [OF s2(1), of length] by simp
    then obtain s0 where s0: "s2 = s0 @ r" "chunked s0 p2"
      using less.hyps [OF _ s2(2) nt] l by auto
    have "chunked (l @ take v s' @ [c_cr, c_lf] @ s0) p"
      unfolding p2(1) using l(2) len False s0(2) by (intro chunked_data) auto
    moreover have "s = (l @ take v s' @ [c_cr, c_lf] @ s0) @ r" using l(1) s'' s0(1) by simp
    ultimately show ?thesis by blast
  qed
qed

section \<open>Properties\<close>

definition all_ok :: "nat \<Rightarrow> bool" where
  "all_ok n = True"

definition chunk_zero :: chunk_parse where
  "chunk_zero = \<lparr>mem_pool = 1, chunk_size = 0, cp_state = sw_start, cp_last = False, cp_trailer = False,
     cp_chunk_error = False, cp_error = False, retain_buffers = False\<rparr>"

definition chunk_example :: "chunk_buf list" where
  "chunk_example =
     [\<lparr>cb_mem = [0x34, 0x0d, 0x0a, 0x57, 0x69], cb_retain = 0\<rparr>,
      \<lparr>cb_mem = [0x6b, 0x69, 0x0d], cb_retain = 0\<rparr>,
      \<lparr>cb_mem = [0x0a, 0x30, 0x0d, 0x0a, 0x0d, 0x0a, 0x47], cb_retain = 0\<rparr>]"

text \<open>C2: however the body is cut into buffers, and in whatever reachable state the parser is
  called, the slices that \<^verbatim>\<open>nxt_http_chunk_parse\<close> returns hold exactly the payload that the byte
  machine produces on the concatenated input, and the parser ends the same way: in the same state,
  with the invariant (a chunk is open only with bytes left, trailers are counted up to 4096), or
  at the end of the body with the unread bytes left in the chain, or in error.\<close>

theorem nxt_http_chunk_parse_refines:
  assumes "\<And>n. alloc n" and "chunk_inv (cp_state hcp) hcp" and "\<not> cp_chunk_error hcp" and "\<not> cp_last hcp"
    and "nxt_http_chunk_parse alloc hcp bufs = (hcp', out, bufs', queue)"
  shows "\<exists>e. apsnd end_abs (chunk_stream (cp_state hcp) hcp (concat (map cb_mem bufs))) = (concat (map snd out), e) \<and>
    chain_ok hcp' bufs' e"
  using chain_stream [of alloc, OF assms(1-4), of 0 "[]" bufs] assms(5)
  by (auto simp: chain_spec_def nxt_http_chunk_parse_def payload_def)

theorem nxt_http_chunk_parse_refines_witness:
  "\<exists>hcp' out bufs' queue e. nxt_http_chunk_parse all_ok chunk_zero chunk_example = (hcp', out, bufs', queue) \<and>
     apsnd end_abs (chunk_stream sw_start chunk_zero (concat (map cb_mem chunk_example))) = (concat (map snd out), e) \<and>
     chain_ok hcp' bufs' e"
proof -
  obtain hcp' out bufs' queue where r: "nxt_http_chunk_parse all_ok chunk_zero chunk_example = (hcp', out, bufs', queue)"
    by (cases "nxt_http_chunk_parse all_ok chunk_zero chunk_example") auto
  have "all_ok n" for n by (simp add: all_ok_def)
  moreover have "chunk_inv (cp_state chunk_zero) chunk_zero" "\<not> cp_chunk_error chunk_zero" "\<not> cp_last chunk_zero"
    "cp_state chunk_zero = sw_start" by (simp_all add: chunk_zero_def chunk_inv_def)
  ultimately show ?thesis
    using nxt_http_chunk_parse_refines [of all_ok chunk_zero chunk_example hcp' out bufs' queue] r by auto
qed





end
