(* ===== verification/Nxt_List.thy ===== *)
theory Nxt_List
  imports Nxt_Prelude
begin

text \<open>
  The growing arrays of \<^verbatim>\<open>src/nxt_list.c\<close> and \<^verbatim>\<open>src/nxt_list.h\<close>: a chain of parts with room for
  \<^verbatim>\<open>nalloc\<close> elements each.  The interface a client relies on, a store of elements in the order
  in which they were added, is the locale \<open>append_store\<close>; the lists are its first
  interpretation, the field store of the HTTP parser (theory \<open>Nxt_Http_Target\<close>) is the second.
\<close>

section \<open>The interface\<close>

text \<open>
  \<open>add alloc v s\<close> adds \<open>v\<close>, where \<open>alloc\<close> tells whether the memory pool can provide memory; the
  result is None when memory was needed and there was none.
\<close>

primrec add_all :: "(bool \<Rightarrow> 'a \<Rightarrow> 's \<Rightarrow> 's option) \<Rightarrow> 'a list \<Rightarrow> 's \<Rightarrow> 's option" where
  "add_all add [] s = Some s"
| "add_all add (v # vs) s = (case add True v s of None \<Rightarrow> None | Some s \<Rightarrow> add_all add vs s)"

locale append_store =
  fixes inv :: "'s \<Rightarrow> bool"
    and contents :: "'s \<Rightarrow> 'a list"
    and add :: "bool \<Rightarrow> 'a \<Rightarrow> 's \<Rightarrow> 's option"
  assumes add_inv: "inv s \<Longrightarrow> add alloc v s = Some s' \<Longrightarrow> inv s'"
    and add_contents: "inv s \<Longrightarrow> add alloc v s = Some s' \<Longrightarrow> contents s' = contents s @ [v]"
    and add_alloc: "inv s \<Longrightarrow> add True v s \<noteq> None"
begin

lemma add_cases:
  assumes "inv s"
  obtains s' where "add True v s = Some s'" "inv s'" "contents s' = contents s @ [v]"
  using assms add_alloc add_inv add_contents by (metis option.exhaust)

lemma add_all_contents:
  "inv s \<Longrightarrow> \<exists>s'. add_all add vs s = Some s' \<and> inv s' \<and> contents s' = contents s @ vs"
proof (induction vs arbitrary: s)
  case (Cons v vs)
  obtain t where "add True v s = Some t" "inv t" "contents t = contents s @ [v]"
    using add_cases [OF Cons.prems] .
  with Cons.IH [of t] show ?case by auto
qed simp

end

section \<open>Lists\<close>

text \<open>
  \<open>nl_full\<close> are the parts in front of the one that \<^verbatim>\<open>list->last\<close> points to, and \<open>nl_last\<close> is
  that part; a part is given by its elements, so that \<^verbatim>\<open>nelts\<close> is a length.
\<close>

record 'a nxt_list =
  nl_nalloc :: nat
  nl_full :: "'a list list"
  nl_last :: "'a list"

definition nxt_list_create :: "bool \<Rightarrow> nat \<Rightarrow> 'a nxt_list option" where
  "nxt_list_create alloc n =
     (if alloc then Some \<lparr>nl_nalloc = n, nl_full = [], nl_last = []\<rparr> else None)"

text \<open>
  \<^verbatim>\<open>nxt_list_add\<close> returns a pointer to the new element, which the caller fills with \<open>v\<close>.
\<close>

definition nxt_list_add :: "bool \<Rightarrow> 'a \<Rightarrow> 'a nxt_list \<Rightarrow> 'a nxt_list option" where
  "nxt_list_add alloc v l =
     (if length (nl_last l) = nl_nalloc l then
        if \<not> alloc then None
        else Some (l\<lparr>nl_full := nl_full l @ [nl_last l], nl_last := [v]\<rparr>)
      else Some (l\<lparr>nl_last := nl_last l @ [v]\<rparr>))"

definition nxt_list_zero_add :: "bool \<Rightarrow> 'a::zero nxt_list \<Rightarrow> 'a nxt_list option" where
  "nxt_list_zero_add alloc l = nxt_list_add alloc 0 l"

definition nxt_list_part :: "'a nxt_list \<Rightarrow> 'a list list" where
  "nxt_list_part l = nl_full l @ [nl_last l]"

fun list_elt_while :: "'a list list \<Rightarrow> nat \<Rightarrow> 'a option" where
  "list_elt_while [] n = None"
| "list_elt_while (part # parts) n =
     (if n < length part then Some (part ! n) else list_elt_while parts (n - length part))"

definition nxt_list_elt :: "'a nxt_list option \<Rightarrow> nat \<Rightarrow> 'a option" where
  "nxt_list_elt l n = (case l of None \<Rightarrow> None | Some l \<Rightarrow> list_elt_while (nxt_list_part l) n)"

definition nxt_list_nelts :: "'a nxt_list option \<Rightarrow> nat" where
  "nxt_list_nelts l =
     (case l of None \<Rightarrow> 0 | Some l \<Rightarrow> foldl (\<lambda>n part. n + length part) 0 (nxt_list_part l))"

text \<open>The body of \<^verbatim>\<open>nxt_list_each\<close> sees the elements part by part.\<close>

definition nxt_list_each :: "'a nxt_list option \<Rightarrow> 'a list" where
  "nxt_list_each l = (case l of None \<Rightarrow> [] | Some l \<Rightarrow> concat (nxt_list_part l))"

section \<open>Lists as stores\<close>

definition list_inv :: "'a nxt_list \<Rightarrow> bool" where
  "list_inv l \<longleftrightarrow> 0 < nl_nalloc l \<and> length (nl_last l) \<le> nl_nalloc l
     \<and> list_all (\<lambda>part. length part = nl_nalloc l) (nl_full l)"

interpretation parts: append_store list_inv "\<lambda>l. nxt_list_each (Some l)" nxt_list_add
  by unfold_locales
    (auto simp: list_inv_def nxt_list_add_def nxt_list_each_def nxt_list_part_def split: if_splits)

lemma list_elt_while_concat:
  "list_elt_while parts n = (if n < length (concat parts) then Some (concat parts ! n) else None)"
  by (induction parts n rule: list_elt_while.induct) (auto simp: nth_append)

lemma nelts_fold: "foldl (\<lambda>n part. n + length part) k parts = k + length (concat parts)"
  by (induction parts arbitrary: k) auto

lemma create_store:
  "0 < n \<Longrightarrow> nxt_list_create True n = Some l \<Longrightarrow> list_inv l \<and> nxt_list_each (Some l) = []"
  by (auto simp: nxt_list_create_def list_inv_def nxt_list_each_def nxt_list_part_def)



end
