(* ===== verification/Nxt_Http_Target.thy ===== *)
theory Nxt_Http_Target
  imports Nxt_List Nxt_Uri
begin

text \<open>
  The state of the HTTP request parser (\<^verbatim>\<open>src/nxt_http_parse.h\<close>) and the normalization of
  request targets, \<^verbatim>\<open>nxt_http_parse_complex_target\<close> of \<^verbatim>\<open>src/nxt_http_parse.c\<close>.  The
  function is a state machine that decodes percent escapes and removes dot segments in one
  pass; its specification is a decoder (\<open>target_decode\<close>) followed by the resolution of the
  path segments on a stack (\<open>walk\<close>).  The theorems say that the machine computes the
  specification, that an accepted path cannot leave the document root, and that the machine
  stays within the memory it has allocated.
\<close>

section \<open>The parser state\<close>

text \<open>What the parser functions return: an \<^verbatim>\<open>NXT_*\<close> code or a \<^verbatim>\<open>nxt_http_parse_error_t\<close>.\<close>

datatype http_rc =
    Rc nxt_rc
  | NXT_HTTP_PARSE_INVALID | NXT_HTTP_PARSE_UNSUPPORTED_VERSION | NXT_HTTP_PARSE_TOO_LARGE_FIELD

text \<open>
  The function \<^verbatim>\<open>rp->handler\<close> points to; \<open>No_handler\<close> is the null pointer.
\<close>

datatype http_handler =
    No_handler | Request_line_handler | Field_name_handler | Field_value_handler | Field_end_handler

text \<open>
  A field, with the bytes that its pointers and lengths describe.  \<^verbatim>\<open>name_length\<close> has 8 and
  \<^verbatim>\<open>value_length\<close> 32 bits.
\<close>

record http_field =
  hf_hash :: uint16
  hf_skip :: bool
  hf_hopbyhop :: bool
  hf_name_length :: uint8
  hf_value_length :: uint32
  hf_name :: nxt_str
  hf_value :: nxt_str

text \<open>
  A pointer into the input buffer is represented by the bytes from the pointer to the end of the
  data; the distance of two pointers is the difference of the lengths.  \<^verbatim>\<open>method\<close>, \<^verbatim>\<open>path\<close> and
  \<^verbatim>\<open>args\<close> are always set with their lengths and carry their bytes.  The lengths of
  \<^verbatim>\<open>field_name\<close> and \<^verbatim>\<open>field_value\<close> are also set without their starts, while the name or the value
  is still incomplete, and are fields of their own; the bytes are set with the start.
\<close>

record http_request_parse =
  rp_handler :: http_handler
  rp_method :: nxt_str
  target_start :: nxt_str
  target_end :: nxt_str
  request_line_end :: nxt_str
  rp_path :: nxt_str
  rp_args :: nxt_str
  rp_version :: nxt_str
  inline_fields :: "http_field list"
  rp_fields :: "http_field nxt_list option"
  field_name :: nxt_str
  field_name_length :: nat
  field_value :: nxt_str
  field_value_length :: nat
  field_hash :: uint32
  skip_field :: bool
  discard_unsafe_fields :: bool
  discard_fields :: bool
  complex_target :: bool
  quoted_target :: bool
  encoded_slashes :: bool
  num_inline_fields :: nat

section \<open>The field store\<close>

text \<open>
  The part of \<^verbatim>\<open>nxt_http_parse_field_end\<close> that finds room for a field: the first sixteen go to
  the inline array, the others to a list that is created when it is first needed.  \<open>alloc\<close>
  tells whether the memory pool has memory.
\<close>

definition field_store_add ::
  "bool \<Rightarrow> http_field \<Rightarrow> http_request_parse \<Rightarrow> http_request_parse option" where
  "field_store_add alloc field rp =
     (if num_inline_fields rp < 16 then
        Some (rp\<lparr>inline_fields := (inline_fields rp)[num_inline_fields rp := field],
                 num_inline_fields := num_inline_fields rp + 1\<rparr>)
      else
        case (case rp_fields rp of None \<Rightarrow> nxt_list_create alloc 16 | Some l \<Rightarrow> Some l) of
          None \<Rightarrow> None
        | Some l \<Rightarrow>
            (case nxt_list_add alloc field l of
               None \<Rightarrow> None
             | Some l \<Rightarrow> Some (rp\<lparr>rp_fields := Some l\<rparr>)))"

record http_fields_iter =
  it_inline_fields :: "http_field list"
  it_num_inline_fields :: nat
  it_inline_index :: nat
  it_part :: "http_field list list"
  it_elt :: nat

text \<open>The loop \<^verbatim>\<open>while (iter->part != NULL)\<close> of \<^verbatim>\<open>nxt_http_fields_first\<close>.\<close>

fun fields_first_while :: "http_fields_iter \<Rightarrow> http_field list list \<Rightarrow> (http_field \<times> http_fields_iter) option" where
  "fields_first_while it [] = None"
| "fields_first_while it (part # parts) =
     (if 0 < length part then Some (part ! 0, it\<lparr>it_part := part # parts, it_elt := 1\<rparr>)
      else fields_first_while it parts)"

definition nxt_http_fields_first ::
  "http_field list \<Rightarrow> nat \<Rightarrow> http_field nxt_list option \<Rightarrow> (http_field \<times> http_fields_iter) option" where
  "nxt_http_fields_first inline num spill =
     (let it = \<lparr>it_inline_fields = inline, it_num_inline_fields = num, it_inline_index = 0,
                it_part = (case spill of None \<Rightarrow> [] | Some l \<Rightarrow> nxt_list_part l), it_elt = 0\<rparr> in
      if it_inline_index it < it_num_inline_fields it
      then Some (it_inline_fields it ! it_inline_index it, it\<lparr>it_inline_index := it_inline_index it + 1\<rparr>)
      else fields_first_while it (it_part it))"

text \<open>The loop of \<^verbatim>\<open>nxt_http_fields_next\<close>; it starts with the current part and element.\<close>

fun fields_next_while ::
  "http_fields_iter \<Rightarrow> http_field list list \<Rightarrow> nat \<Rightarrow> (http_field \<times> http_fields_iter) option" where
  "fields_next_while it [] elt = None"
| "fields_next_while it (part # parts) elt =
     (if elt < length part then Some (part ! elt, it\<lparr>it_part := part # parts, it_elt := elt + 1\<rparr>)
      else fields_next_while it parts 0)"

definition nxt_http_fields_next :: "http_fields_iter \<Rightarrow> (http_field \<times> http_fields_iter) option" where
  "nxt_http_fields_next it =
     (if it_inline_index it < it_num_inline_fields it
      then Some (it_inline_fields it ! it_inline_index it, it\<lparr>it_inline_index := it_inline_index it + 1\<rparr>)
      else fields_next_while it (it_part it) (it_elt it))"

text \<open>The loop \<^verbatim>\<open>nxt_http_fields_each\<close>: the fields that its body sees.\<close>

fun parts_left :: "'a list list \<Rightarrow> nat \<Rightarrow> nat" where
  "parts_left [] elt = 0"
| "parts_left (part # parts) elt = Suc (length part - elt) + parts_left parts 0"

definition iter_left :: "http_fields_iter \<Rightarrow> nat" where
  "iter_left it = it_num_inline_fields it - it_inline_index it + parts_left (it_part it) (it_elt it)"

lemma fields_next_while_left:
  "fields_next_while it parts elt = Some (f, it') \<Longrightarrow>
   it_num_inline_fields it' - it_inline_index it' = it_num_inline_fields it - it_inline_index it
   \<and> parts_left (it_part it') (it_elt it') < parts_left parts elt"
  by (induction it parts elt rule: fields_next_while.induct) (auto split: if_splits)

lemma nxt_http_fields_next_left: "nxt_http_fields_next it = Some (f, it') \<Longrightarrow> iter_left it' < iter_left it"
  by (auto simp: nxt_http_fields_next_def iter_left_def split: if_splits dest: fields_next_while_left)

function fields_each_loop :: "(http_field \<times> http_fields_iter) option \<Rightarrow> http_field list" where
  "fields_each_loop None = []"
| "fields_each_loop (Some (field, it)) = field # fields_each_loop (nxt_http_fields_next it)"
  by pat_completeness auto
termination
  by (relation "measure (\<lambda>r. case r of None \<Rightarrow> 0 | Some (f, it) \<Rightarrow> Suc (iter_left it))")
    (auto split: option.split dest: nxt_http_fields_next_left)

definition nxt_http_fields_each :: "http_field list \<Rightarrow> nat \<Rightarrow> http_field nxt_list option \<Rightarrow> http_field list" where
  "nxt_http_fields_each inline num spill = fields_each_loop (nxt_http_fields_first inline num spill)"

text \<open>The iterator returns the inline fields and then the fields of the list.\<close>

definition iter_rest :: "http_fields_iter \<Rightarrow> http_field list" where
  "iter_rest it =
     drop (it_inline_index it) (take (it_num_inline_fields it) (it_inline_fields it))
     @ (case it_part it of [] \<Rightarrow> [] | part # parts \<Rightarrow> drop (it_elt it) part @ concat parts)"

lemma fields_next_while_rest:
  "(case fields_next_while it parts elt of
      None \<Rightarrow> (case parts of [] \<Rightarrow> [] | part # parts \<Rightarrow> drop elt part @ concat parts) = []
    | Some (f, it') \<Rightarrow> (case parts of [] \<Rightarrow> [] | part # parts \<Rightarrow> drop elt part @ concat parts)
        = f # (case it_part it' of [] \<Rightarrow> [] | part # parts \<Rightarrow> drop (it_elt it') part @ concat parts)
        \<and> it_inline_index it' = it_inline_index it
        \<and> it_num_inline_fields it' = it_num_inline_fields it
        \<and> it_inline_fields it' = it_inline_fields it)"
  by (induction it parts elt rule: fields_next_while.induct)
    (auto simp: Cons_nth_drop_Suc [symmetric] split: option.splits list.splits)

lemma fields_each_rest:
  "(case r of None \<Rightarrow> True | Some (f, it) \<Rightarrow> it_num_inline_fields it \<le> length (it_inline_fields it)) \<Longrightarrow>
   fields_each_loop r = (case r of None \<Rightarrow> [] | Some (f, it) \<Rightarrow> f # iter_rest it)"
proof (induction r rule: fields_each_loop.induct)
  case (2 f it)
  show ?case
  proof (cases "it_inline_index it < it_num_inline_fields it")
    case True
    with 2 show ?thesis
      by (auto simp: nxt_http_fields_next_def iter_rest_def Cons_nth_drop_Suc [symmetric] split: list.split)
  next
    case False
    with 2 fields_next_while_rest [where it = it and parts = "it_part it" and elt = "it_elt it"] show ?thesis
      by (auto simp: nxt_http_fields_next_def iter_rest_def split: option.splits)
  qed
qed simp

lemma fields_first_while_next: "fields_first_while it parts = fields_next_while it parts 0"
  by (induction it parts rule: fields_first_while.induct) auto

lemma nxt_http_fields_each_eq:
  assumes "num \<le> length inline"
  shows "nxt_http_fields_each inline num spill = take num inline @ nxt_list_each spill"
proof -
  define it where "it = \<lparr>it_inline_fields = inline, it_num_inline_fields = num, it_inline_index = 0,
     it_part = (case spill of None \<Rightarrow> [] | Some l \<Rightarrow> nxt_list_part l), it_elt = 0\<rparr>"
  have first: "nxt_http_fields_first inline num spill = nxt_http_fields_next it"
    by (simp add: nxt_http_fields_first_def nxt_http_fields_next_def fields_first_while_next it_def)
  have "undefined # nxt_http_fields_each inline num spill = fields_each_loop (Some (undefined, it))"
    by (simp add: nxt_http_fields_each_def first)
  also have "\<dots> = undefined # iter_rest it"
    using assms by (subst fields_each_rest) (simp_all add: it_def)
  finally show ?thesis
    by (cases "nl_full (the spill)")
      (auto simp: iter_rest_def it_def nxt_list_each_def nxt_list_part_def split: option.split)
qed

definition field_store_inv :: "http_request_parse \<Rightarrow> bool" where
  "field_store_inv rp \<longleftrightarrow> length (inline_fields rp) = 16 \<and> num_inline_fields rp \<le> 16
     \<and> (case rp_fields rp of None \<Rightarrow> True | Some l \<Rightarrow> num_inline_fields rp = 16 \<and> list_inv l)"

definition rp_field_list :: "http_request_parse \<Rightarrow> http_field list" where
  "rp_field_list rp = nxt_http_fields_each (inline_fields rp) (num_inline_fields rp) (rp_fields rp)"

lemma field_store_list:
  "field_store_inv rp \<Longrightarrow>
   rp_field_list rp = take (num_inline_fields rp) (inline_fields rp) @ nxt_list_each (rp_fields rp)"
  by (simp add: rp_field_list_def field_store_inv_def nxt_http_fields_each_eq)

lemma take_store_update: "n < length xs \<Longrightarrow> take (Suc n) (xs[n := v]) = take n xs @ [v]"
  by (simp add: take_Suc_conv_app_nth)

lemma field_store_add_facts:
  assumes "field_store_inv rp" and "field_store_add alloc f rp = Some rp'"
  shows "field_store_inv rp' \<and> rp_field_list rp' = rp_field_list rp @ [f]"
proof (cases "num_inline_fields rp < 16")
  case True
  with assms have rp': "rp' = rp\<lparr>inline_fields := (inline_fields rp)[num_inline_fields rp := f],
      num_inline_fields := num_inline_fields rp + 1\<rparr>" and none: "rp_fields rp = None"
    by (auto simp: field_store_add_def field_store_inv_def split: option.splits)
  then have "field_store_inv rp'"
    using assms(1) True by (auto simp: field_store_inv_def)
  moreover have "nxt_list_each (rp_fields rp') = []" "nxt_list_each (rp_fields rp) = []"
    by (simp_all add: rp' none nxt_list_each_def)
  moreover have "num_inline_fields rp < length (inline_fields rp)"
    using assms(1) True by (simp add: field_store_inv_def)
  ultimately show ?thesis
    using assms(1) by (simp add: field_store_list take_store_update) (simp add: rp' take_store_update)
next
  case False
  with assms obtain l l' where l': "nxt_list_add alloc f l = Some l'" "rp' = rp\<lparr>rp_fields := Some l'\<rparr>"
    and l: "(case rp_fields rp of None \<Rightarrow> nxt_list_create alloc 16 | Some l \<Rightarrow> Some l) = Some l"
    by (auto simp: field_store_add_def split: option.splits)
  have "list_inv l \<and> nxt_list_each (Some l) = nxt_list_each (rp_fields rp)"
    using l assms(1) create_store [of 16 l]
    by (auto simp: field_store_inv_def nxt_list_create_def nxt_list_each_def split: option.splits if_splits)
  with parts.add_inv [of l alloc f l'] parts.add_contents [of l alloc f l'] l'
  have "list_inv l' \<and> nxt_list_each (Some l') = nxt_list_each (rp_fields rp) @ [f]" by simp
  moreover from this assms(1) False l' have "field_store_inv rp'"
    by (auto simp: field_store_inv_def)
  ultimately show ?thesis
    using assms(1) l' by (simp add: field_store_list)
qed

interpretation store: append_store field_store_inv rp_field_list field_store_add
proof
  fix rp :: http_request_parse and f
  assume "field_store_inv rp"
  then show "field_store_add True f rp \<noteq> None"
    by (auto simp: field_store_add_def nxt_list_create_def nxt_list_add_def split: option.splits)
qed (use field_store_add_facts in blast)+

section \<open>Normalization of the target\<close>

definition nxt_http_normal :: "uint8 list" where
  "nxt_http_normal =
    [0xFE, 0xDB, 0xFF, 0xFF, 0xD6, 0x37, 0xFF, 0x7F,
     0xFF, 0xFF, 0xFF, 0xFF, 0xFF, 0xFF, 0xFF, 0xFF,
     0xFF, 0xFF, 0xFF, 0xFF, 0xFF, 0xFF, 0xFF, 0xFF,
     0xFF, 0xFF, 0xFF, 0xFF, 0xFF, 0xFF, 0xFF, 0xFF]"

definition nxt_http_is_normal :: "u_char \<Rightarrow> bool" where
  "nxt_http_is_normal c \<longleftrightarrow> nxt_http_normal ! unat (c div 8) AND push_bit (unat (c AND 7)) 1 \<noteq> 0"

text \<open>
  The states.  \<^verbatim>\<open>saved_state\<close> is only ever assigned in one of the first four states, which
  are a type of their own.
\<close>

datatype path_state = sw_normal | sw_slash | sw_dot | sw_dot_dot

datatype target_state = Path path_state | sw_quoted | sw_quoted_second

text \<open>
  The local variables of the function: \<open>t_u\<close> holds the bytes from \<^verbatim>\<open>rp->path.start\<close> to \<^verbatim>\<open>u\<close>,
  the last one first, so that \<^verbatim>\<open>*u++ = ch\<close> is a cons and \<^verbatim>\<open>u--\<close> is a tail; \<open>t_quoted\<close> is
  \<^verbatim>\<open>rp->quoted_target\<close>.
\<close>

record target_vars =
  t_state :: target_state
  t_saved_state :: path_state
  t_u :: nxt_str
  t_high :: u_char
  t_quoted :: bool

text \<open>How a case of the switch ends.\<close>

datatype target_next =
    Target_continue target_vars | Target_args target_vars | Target_done target_vars | Target_invalid target_vars

text \<open>The loop after \<^verbatim>\<open>u -= 5\<close>; the result is None when \<^verbatim>\<open>u < rp->path.start\<close>.\<close>

fun dot_dot_back :: "nxt_str \<Rightarrow> nxt_str option" where
  "dot_dot_back [] = None"
| "dot_dot_back (c # u) = (if c = c_slash then Some (c # u) else dot_dot_back u)"

definition go :: "path_state \<Rightarrow> target_vars \<Rightarrow> target_next" where
  "go state t = Target_continue (t\<lparr>t_state := Path state\<rparr>)"

definition put :: "u_char \<Rightarrow> target_vars \<Rightarrow> target_vars" where
  "put ch t = t\<lparr>t_u := ch # t_u t\<rparr>"

definition quote :: "path_state \<Rightarrow> target_vars \<Rightarrow> target_next" where
  "quote state t = Target_continue (t\<lparr>t_saved_state := state, t_state := sw_quoted\<rparr>)"

fun path_switch :: "path_state \<Rightarrow> target_vars \<Rightarrow> u_char \<Rightarrow> target_next" where
  "path_switch sw_normal t ch =
     (if nxt_http_is_normal ch then go sw_normal (put ch t)
      else if ch = c_slash then go sw_slash (put ch t)
      else if ch = c_percent then quote sw_normal t
      else if ch = c_question then Target_args t
      else if ch = c_hash then Target_done t
      else go sw_normal (put ch t))"
| "path_switch sw_slash t ch =
     (if nxt_http_is_normal ch then go sw_normal (put ch t)
      else if ch = c_slash then go sw_slash t
      else if ch = c_dot then go sw_dot (put ch t)
      else if ch = c_percent then quote sw_slash t
      else if ch = c_question then Target_args t
      else if ch = c_hash then Target_done t
      else go sw_normal (put ch t))"
| "path_switch sw_dot t ch =
     (if nxt_http_is_normal ch then go sw_normal (put ch t)
      else if ch = c_slash then go sw_slash (t\<lparr>t_u := tl (t_u t)\<rparr>)
      else if ch = c_dot then go sw_dot_dot (put ch t)
      else if ch = c_percent then quote sw_dot t
      else if ch = c_question then Target_args (t\<lparr>t_u := tl (t_u t)\<rparr>)
      else if ch = c_hash then Target_done (t\<lparr>t_u := tl (t_u t)\<rparr>)
      else go sw_normal (put ch t))"
| "path_switch sw_dot_dot t ch =
     (if nxt_http_is_normal ch then go sw_normal (put ch t)
      else if ch = c_slash \<or> ch = c_question \<or> ch = c_hash then
        case dot_dot_back (drop 4 (t_u t)) of
          None \<Rightarrow> Target_invalid t
        | Some u \<Rightarrow>
            let t = t\<lparr>t_u := u\<rparr> in
            if ch = c_question then Target_args t
            else if ch = c_hash then Target_done t
            else go sw_slash t
      else if ch = c_percent then quote sw_dot_dot t
      else go sw_normal (put ch t))"

text \<open>The whole switch; \<^verbatim>\<open>goto again\<close> re-enters it in \<^verbatim>\<open>saved_state\<close> with the decoded byte.\<close>

definition target_switch :: "bool \<Rightarrow> target_vars \<Rightarrow> u_char \<Rightarrow> target_next" where
  "target_switch es t ch =
     (case t_state t of
        Path state \<Rightarrow> path_switch state t ch
      | sw_quoted \<Rightarrow>
          let t = t\<lparr>t_quoted := True\<rparr> in
          if c_0 \<le> ch \<and> ch \<le> c_9
          then Target_continue (t\<lparr>t_high := ch - c_0, t_state := sw_quoted_second\<rparr>)
          else
            let c = ch OR 0x20 in
            if c_a \<le> c \<and> c \<le> c_f
            then Target_continue (t\<lparr>t_high := c - c_a + 10, t_state := sw_quoted_second\<rparr>)
            else Target_invalid t
      | sw_quoted_second \<Rightarrow>
          if c_0 \<le> ch \<and> ch \<le> c_9 then
            let ch = push_bit 4 (t_high t) + ch - c_0 in
            if ch = c_percent then
              go sw_normal (if es then put c_5 (put c_2 (put c_percent t)) else put c_percent t)
            else if ch = c_hash then go sw_normal (put c_hash t)
            else if ch = c_nul then Target_invalid t
            else path_switch (t_saved_state t) (t\<lparr>t_state := Path (t_saved_state t)\<rparr>) ch
          else
            let c = ch OR 0x20; last = ch in
            if c_a \<le> c \<and> c \<le> c_f then
              let ch = push_bit 4 (t_high t) + c - c_a + 10 in
              if ch = c_question then go sw_normal (put ch t)
              else if ch = c_slash \<and> es
              then go sw_normal (put last (put c_2 (put c_percent t)))
              else path_switch (t_saved_state t) (t\<lparr>t_state := Path (t_saved_state t)\<rparr>) ch
            else Target_invalid t)"

text \<open>
  The loop \<^verbatim>\<open>while (p < rp->target_end)\<close> and what follows it.  The result is the return code, the
  variables, and, for a target with \<^verbatim>\<open>?\<close>, what \<^verbatim>\<open>args\<close> points to.  Past the end, the pending
  segments \<^verbatim>\<open>/.\<close> and \<^verbatim>\<open>/..\<close> are closed by one more turn of the switch with a slash, after which
  the state is \<open>sw_slash\<close>.
\<close>

fun target_while :: "bool \<Rightarrow> target_vars \<Rightarrow> nxt_str \<Rightarrow> http_rc \<times> target_vars \<times> nxt_str option" where
  "target_while es t [] =
     (case t_state t of
        sw_quoted \<Rightarrow> (NXT_HTTP_PARSE_INVALID, t, None)
      | sw_quoted_second \<Rightarrow> (NXT_HTTP_PARSE_INVALID, t, None)
      | Path state \<Rightarrow>
          if state = sw_dot \<or> state = sw_dot_dot then
            case target_switch es t c_slash of
              Target_continue t \<Rightarrow> (Rc NXT_OK, t, None)
            | Target_args t \<Rightarrow> (Rc NXT_OK, t, None)
            | Target_done t \<Rightarrow> (Rc NXT_OK, t, None)
            | Target_invalid t \<Rightarrow> (NXT_HTTP_PARSE_INVALID, t, None)
          else (Rc NXT_OK, t, None))"
| "target_while es t (ch # p) =
     (case target_switch es t ch of
        Target_continue t \<Rightarrow> target_while es t p
      | Target_args t \<Rightarrow> (Rc NXT_OK, t, Some p)
      | Target_done t \<Rightarrow> (Rc NXT_OK, t, None)
      | Target_invalid t \<Rightarrow> (NXT_HTTP_PARSE_INVALID, t, None))"

definition target_init :: "bool \<Rightarrow> target_vars" where
  "target_init quoted = \<lparr>t_state = Path sw_normal, t_saved_state = sw_normal, t_u = [], t_high = 0, t_quoted = quoted\<rparr>"

definition rp_target :: "http_request_parse \<Rightarrow> nxt_str" where
  "rp_target rp = take (length (target_start rp) - length (target_end rp)) (target_start rp)"

definition nxt_http_parse_complex_target ::
  "bool \<Rightarrow> http_request_parse \<Rightarrow> http_rc \<times> http_request_parse" where
  "nxt_http_parse_complex_target alloc rp =
     (if \<not> alloc then (Rc NXT_ERROR, rp)
      else
        let rp = rp\<lparr>rp_path := []\<rparr>;
            (rc, t, args) = target_while (encoded_slashes rp) (target_init (quoted_target rp)) (rp_target rp);
            rp = rp\<lparr>quoted_target := t_quoted t\<rparr>
        in if rc \<noteq> Rc NXT_OK then (rc, rp)
           else
             let rp = (case args of
                         None \<Rightarrow> rp
                       | Some p \<Rightarrow> rp\<lparr>rp_args := takeWhile (\<lambda>c. c \<noteq> c_hash) p\<rparr>)
             in (Rc NXT_OK, rp\<lparr>rp_path := rev (t_u t)\<rparr>))"

section \<open>The specification of a target\<close>

text \<open>
  The bytes a percent escape stands for: the value of the escape, except that the escapes of
  \<^verbatim>\<open>%\<close> and of \<^verbatim>\<open>/\<close> are kept as they are when \<^verbatim>\<open>encoded_slashes\<close> is set.
\<close>

definition escape_bytes :: "bool \<Rightarrow> u_char \<Rightarrow> u_char \<Rightarrow> nxt_str" where
  "escape_bytes es v l =
     (if es \<and> (v = c_percent \<or> v = c_slash) then [c_percent, c_2, l] else [v])"

definition hex_ok :: "u_char \<Rightarrow> bool" where
  "hex_ok c \<longleftrightarrow> hex2int c < 16"

definition escape_value :: "u_char \<Rightarrow> u_char \<Rightarrow> u_char" where
  "escape_value h l = push_bit 4 (hex2int h) + hex2int l"

text \<open>
  The bytes of the target up to the first \<^verbatim>\<open>?\<close> or \<^verbatim>\<open>#\<close> with the escapes decoded, and what
  follows the \<^verbatim>\<open>?\<close>; None for a malformed escape and for an escaped zero byte.
\<close>

fun target_decode :: "bool \<Rightarrow> nxt_str \<Rightarrow> (nxt_str \<times> nxt_str option) option" where
  "target_decode es [] = Some ([], None)"
| "target_decode es (c # p) =
     (if c = c_question then Some ([], Some p)
      else if c = c_hash then Some ([], None)
      else if c = c_percent then
        case p of
          h # l # q \<Rightarrow>
            if hex_ok h \<and> hex_ok l \<and> escape_value h l \<noteq> 0
            then map_option (apfst ((@) (escape_bytes es (escape_value h l) l))) (target_decode es q)
            else None
        | _ \<Rightarrow> None
      else map_option (apfst ((#) c)) (target_decode es p))"

fun segments :: "nxt_str \<Rightarrow> nxt_str list" where
  "segments [] = [[]]"
| "segments (c # s) = (if c = c_slash then [] # segments s else (c # hd (segments s)) # tl (segments s))"

abbreviation seg_dot :: nxt_str where "seg_dot \<equiv> [c_dot]"
abbreviation seg_dot_dot :: nxt_str where "seg_dot_dot \<equiv> [c_dot, c_dot]"

text \<open>
  Walking along the segments of a path with the directories entered so far, the innermost one
  first.  The result is the directories and the name in front of which the walk stops, which is
  empty if the path ends in a directory; None when the walk leaves the root.
\<close>

fun walk :: "nxt_str list \<Rightarrow> nxt_str list \<Rightarrow> (nxt_str list \<times> nxt_str) option" where
  "walk dirs [] = Some (dirs, [])"
| "walk dirs (g # gs) =
     (if g = [] \<or> g = seg_dot then walk dirs gs
      else if g = seg_dot_dot then (case dirs of [] \<Rightarrow> None | _ # dirs \<Rightarrow> walk dirs gs)
      else if gs = [] then Some (dirs, g)
      else walk (g # dirs) gs)"

definition render :: "nxt_str list \<Rightarrow> nxt_str \<Rightarrow> nxt_str" where
  "render dirs file = c_slash # concat (map (\<lambda>d. d @ [c_slash]) (rev dirs)) @ file"

text \<open>The path and the arguments of a target; the argument is the target after its first slash.\<close>

definition target_spec :: "bool \<Rightarrow> nxt_str \<Rightarrow> (nxt_str \<times> nxt_str option) option" where
  "target_spec es p =
     (case target_decode es p of
        None \<Rightarrow> None
      | Some (d, args) \<Rightarrow>
          map_option (\<lambda>(dirs, file). (render dirs file, map_option (takeWhile (\<lambda>c. c \<noteq> c_hash)) args))
            (walk [] (segments d)))"

section \<open>The machine follows the specification\<close>

fun state_of :: "nxt_str \<Rightarrow> path_state" where
  "state_of cur =
     (if cur = [] then sw_slash else if cur = seg_dot then sw_dot
      else if cur = seg_dot_dot then sw_dot_dot else sw_normal)"

definition seg_push :: "u_char \<Rightarrow> nxt_str list \<Rightarrow> nxt_str \<Rightarrow> (nxt_str list \<times> nxt_str) option" where
  "seg_push c dirs cur =
     (if c \<noteq> c_slash then Some (dirs, cur @ [c])
      else if cur = [] \<or> cur = seg_dot then Some (dirs, [])
      else if cur = seg_dot_dot then (case dirs of [] \<Rightarrow> None | _ # dirs \<Rightarrow> Some (dirs, []))
      else Some (cur # dirs, []))"

definition clean :: "nxt_str list \<Rightarrow> nxt_str \<Rightarrow> bool" where
  "clean dirs cur \<longleftrightarrow> c_slash \<notin> set cur \<and> list_all (\<lambda>d. d \<noteq> [] \<and> c_slash \<notin> set d) dirs"

lemma not_normal [simp]:
  "\<not> nxt_http_is_normal c_slash" "\<not> nxt_http_is_normal c_dot" "\<not> nxt_http_is_normal c_percent"
  "\<not> nxt_http_is_normal c_question" "\<not> nxt_http_is_normal c_hash"
  by code_simp+

lemma segments_not_Nil [simp]: "segments s \<noteq> []"
  by (cases s) auto

lemma segments_append: "c_slash \<notin> set cur \<Longrightarrow> segments (cur @ d) = (cur @ hd (segments d)) # tl (segments d)"
  by (induction cur) auto

lemma segments_slash: "c_slash \<notin> set cur \<Longrightarrow> segments (cur @ c_slash # d) = cur # segments d"
  by (simp add: segments_append)

lemma walk_push:
  assumes "c_slash \<notin> set cur"
  shows "walk dirs (segments (cur @ c # d)) =
    (case seg_push c dirs cur of None \<Rightarrow> None | Some (dirs, cur) \<Rightarrow> walk dirs (segments (cur @ d)))"
  using assms by (auto simp: seg_push_def segments_slash split: list.split)

lemma dot_dot_back_skip: "c_slash \<notin> set r \<Longrightarrow> dot_dot_back (r @ u) = dot_dot_back u"
  by (induction r) auto

lemma rev_render_Cons:
  "rev (render (d # dirs) cur) = rev cur @ c_slash # rev d @ rev (render dirs [])"
  by (simp add: render_def)

lemma hd_rev_render: "dot_dot_back (rev (render dirs [])) = Some (rev (render dirs []))"
  by (cases dirs) (simp_all add: render_def)

lemma dot_dot_render:
  assumes "clean dirs seg_dot_dot"
  shows "dot_dot_back (drop 4 (rev (render dirs seg_dot_dot))) =
    (case dirs of [] \<Rightarrow> None | _ # dirs \<Rightarrow> Some (rev (render dirs [])))"
proof (cases dirs)
  case Nil
  then show ?thesis by (simp add: render_def)
next
  case (Cons d ds)
  with assms have "d \<noteq> []" "c_slash \<notin> set d" by (auto simp: clean_def)
  then have "c_slash \<notin> set (tl (rev d))" and "rev d \<noteq> []"
    by (auto dest: list.set_sel(2) [rotated])
  then have "dot_dot_back (tl (rev d) @ rev (render ds [])) = Some (rev (render ds []))"
    by (simp add: dot_dot_back_skip hd_rev_render)
  moreover have "drop 4 (rev (render dirs seg_dot_dot)) = tl (rev d) @ rev (render ds [])"
    using Cons \<open>rev d \<noteq> []\<close> by (cases "rev d") (simp_all add: rev_render_Cons)
  ultimately show ?thesis using Cons by simp
qed

definition walking :: "target_vars \<Rightarrow> nxt_str list \<Rightarrow> nxt_str \<Rightarrow> bool" where
  "walking t dirs cur \<longleftrightarrow> clean dirs cur \<and> t_u t = rev (render dirs cur) \<and> t_state t = Path (state_of cur)"

lemma render_append: "rev (render dirs (cur @ bs)) = rev bs @ rev (render dirs cur)"
  by (simp add: render_def)

lemma render_enter: "render dirs (cur @ [c_slash]) = render (cur # dirs) []"
  by (simp add: render_def)

lemma state_of_append: "last bs \<noteq> c_dot \<Longrightarrow> bs \<noteq> [] \<Longrightarrow> state_of (cur @ bs) = sw_normal"
  by (auto simp: append_eq_Cons_conv split: if_splits)

lemma state_of_dot: "state_of (cur @ seg_dot) =
    (if cur = [] then sw_dot else if cur = seg_dot then sw_dot_dot else sw_normal)"
  by (auto simp: append_eq_Cons_conv)

lemma path_switch_other:
  assumes "c \<notin> {c_slash, c_question, c_hash, c_percent}"
  shows "path_switch (state_of cur) t c = go (state_of (cur @ [c])) (put c t)"
proof (cases "c = c_dot")
  case True
  then show ?thesis by (simp add: state_of_dot del: state_of.simps) auto
next
  case False
  then show ?thesis using assms by (simp add: state_of_append del: state_of.simps) auto
qed

lemma path_switch_slash:
  assumes "clean dirs cur" and "t_u t = rev (render dirs cur)"
  shows "path_switch (state_of cur) t c_slash =
    (case seg_push c_slash dirs cur of
       None \<Rightarrow> Target_invalid t
     | Some (dirs, cur) \<Rightarrow> go sw_slash (t\<lparr>t_u := rev (render dirs [])\<rparr>))"
proof -
  consider "cur = []" | "cur = seg_dot" | "cur = seg_dot_dot" | "cur \<notin> {[], seg_dot, seg_dot_dot}"
    by blast
  then show ?thesis
  proof cases
    case 1
    moreover have "t\<lparr>t_u := rev (render dirs cur)\<rparr> = t" using assms(2) by (cases t) simp
    ultimately show ?thesis by (simp add: seg_push_def)
  next
    case 3
    then show ?thesis
      using assms dot_dot_render [of dirs] by (simp add: seg_push_def split: list.split)
  next
    case 4
    have "c_slash # rev (render dirs cur) = rev (render (cur # dirs) [])"
      by (simp only: render_enter [symmetric] render_append) simp
    with 4 assms show ?thesis by (simp add: seg_push_def put_def)
  qed (use assms in \<open>simp_all add: seg_push_def render_def\<close>)
qed

lemma seg_push_clean:
  "clean dirs cur \<Longrightarrow> seg_push c dirs cur = Some (dirs', cur') \<Longrightarrow> clean dirs' cur'"
  by (auto simp: clean_def seg_push_def split: if_splits list.splits)

lemma path_switch_byte:
  assumes "clean dirs cur" and "t_u t = rev (render dirs cur)" and "c \<notin> {c_question, c_hash, c_percent}"
  shows "case seg_push c dirs cur of
      None \<Rightarrow> path_switch (state_of cur) t c = Target_invalid t
    | Some (dirs', cur') \<Rightarrow> \<exists>t'. path_switch (state_of cur) t c = Target_continue t'
        \<and> walking t' dirs' cur' \<and> t_quoted t' = t_quoted t"
proof (cases "c = c_slash")
  case True
  moreover have "seg_push c_slash dirs cur = Some (dirs', cur') \<Longrightarrow> cur' = []" for dirs' cur'
    by (auto simp: seg_push_def split: if_splits list.splits)
  ultimately show ?thesis
    using path_switch_slash [OF assms(1,2)] seg_push_clean [OF assms(1), of c]
    by (cases "seg_push c_slash dirs cur")
      (auto simp: walking_def go_def simp del: path_switch.simps)
next
  case False
  with assms path_switch_other [of c cur t] show ?thesis
    by (auto simp: walking_def go_def put_def seg_push_def clean_def render_def simp del: state_of.simps)
qed

text \<open>The digits of an escape.\<close>

lemma or_20: "(c :: u_char) OR 0x20 = (if bit c 5 then c else c + 0x20)"
  using word_split_bit [of c 5] word_and_pow [of c 5] bit_5_arith(1) [of c]
  by (auto simp: or.assoc) (metis or.assoc or.idem)

lemma hex_letter:
  "c_a \<le> c OR 0x20 \<and> c OR 0x20 \<le> c_f \<longleftrightarrow> 65 \<le> unat c \<and> unat c \<le> 70 \<or> 97 \<le> unat c \<and> unat c \<le> 102"
  using bit_5_range [of 2 c] bit_5_range [of 3 c] byte_lt [of c]
  by (auto simp: or_20 word_le_nat_alt unat_plus_if' simp del: byte_lt split: if_splits)

lemma hex_letter_value:
  "c_a \<le> c OR 0x20 \<and> c OR 0x20 \<le> c_f \<Longrightarrow> hex2int c = (c OR 0x20) - c_a + 10 \<and> 10 \<le> unat (hex2int c) \<and> hex_ok c"
  using bit_5_range [of 2 c] bit_5_range [of 3 c] hex2int_value [of c]
  unfolding hex_letter
  by (auto simp: or_20 word_unat_eq_iff unat_plus_if' hex_digit_value_def hex_ok_def word_less_nat_alt unat_sub_if')

lemma hex_digit_char:
  "c_0 \<le> c \<and> c \<le> c_9 \<Longrightarrow> hex2int c = c - c_0 \<and> unat (hex2int c) \<le> 9 \<and> hex_ok c"
  using hex2int_value [of c]
  by (auto simp: word_le_nat_alt word_unat_eq_iff hex_digit_value_def hex_ok_def word_less_nat_alt unat_sub_if')

lemma hex_other:
  "\<not> (c_0 \<le> c \<and> c \<le> c_9) \<Longrightarrow> \<not> (c_a \<le> c OR 0x20 \<and> c OR 0x20 \<le> c_f) \<Longrightarrow> \<not> hex_ok c"
  using hex2int_value [of c] unfolding hex_letter
  by (auto simp: word_le_nat_alt hex_digit_value_def hex_ok_def word_less_nat_alt)

lemma escape_value_nat:
  assumes "hex_ok h" and "hex_ok l"
  shows "unat (escape_value h l) = 16 * unat (hex2int h) + unat (hex2int l)"
proof -
  have "unat (hex2int h) < 16" "unat (hex2int l) < 16"
    using assms by (simp_all add: hex_ok_def word_less_nat_alt)
  then show ?thesis
    by (simp add: escape_value_def push_bit_eq_mult unat_word_ariths)
qed

lemma escape_value_cases:
  assumes "hex_ok h" and "hex_ok l"
  shows "unat (hex2int l) \<le> 9 \<Longrightarrow> escape_value h l \<noteq> c_question \<and> escape_value h l \<noteq> c_slash"
    and "10 \<le> unat (hex2int l) \<Longrightarrow>
      escape_value h l \<noteq> c_percent \<and> escape_value h l \<noteq> c_hash \<and> escape_value h l \<noteq> c_nul"
    and "escape_value h l = c_percent \<Longrightarrow> unat (hex2int l) = 5"
proof -
  have "unat (hex2int l) < 16"
    using assms by (simp add: hex_ok_def word_less_nat_alt)
  then have m: "unat (escape_value h l) mod 16 = unat (hex2int l)"
    by (simp add: escape_value_nat [OF assms])
  show "unat (hex2int l) \<le> 9 \<Longrightarrow> escape_value h l \<noteq> c_question \<and> escape_value h l \<noteq> c_slash"
    using m by auto
  show "10 \<le> unat (hex2int l) \<Longrightarrow>
      escape_value h l \<noteq> c_percent \<and> escape_value h l \<noteq> c_hash \<and> escape_value h l \<noteq> c_nul"
    using m by auto
  show "escape_value h l = c_percent \<Longrightarrow> unat (hex2int l) = 5"
    using m by auto
qed

lemma hex_five: "unat (hex2int l) = 5 \<Longrightarrow> l = c_5"
  unfolding hex2int_value by (auto simp: hex_digit_value_def word_unat_eq_iff split: if_splits)

text \<open>Reading the two digits of an escape that was begun in the state \<open>s\<close>.\<close>

lemma quoted_first:
  assumes "t_state t = sw_quoted"
  shows "target_switch es t h =
    (if hex_ok h then Target_continue (t\<lparr>t_quoted := True, t_high := hex2int h, t_state := sw_quoted_second\<rparr>)
     else Target_invalid (t\<lparr>t_quoted := True\<rparr>))"
proof -
  consider "c_0 \<le> h \<and> h \<le> c_9" | "\<not> (c_0 \<le> h \<and> h \<le> c_9)" "c_a \<le> h OR 0x20 \<and> h OR 0x20 \<le> c_f"
    | "\<not> (c_0 \<le> h \<and> h \<le> c_9)" "\<not> (c_a \<le> h OR 0x20 \<and> h OR 0x20 \<le> c_f)" by blast
  then show ?thesis
  proof cases
    case 1
    with assms hex_digit_char [OF 1] show ?thesis by (simp add: target_switch_def)
  next
    case 2
    with assms hex_letter_value [OF 2(2)] show ?thesis by (auto simp: target_switch_def Let_def)
  next
    case 3
    with assms hex_other [OF 3] show ?thesis by (auto simp: target_switch_def Let_def)
  qed
qed

definition literal_escape :: "bool \<Rightarrow> u_char \<Rightarrow> bool" where
  "literal_escape es v \<longleftrightarrow> v = c_percent \<or> v = c_hash \<or> v = c_question \<or> v = c_slash \<and> es"

lemma quoted_second:
  assumes "t_state t = sw_quoted_second" and "t_high t = hex2int h" and "hex_ok h"
  shows "target_switch es t l =
    (let v = escape_value h l in
     if \<not> hex_ok l \<or> v = 0 then Target_invalid t
     else if literal_escape es v then go sw_normal (t\<lparr>t_u := rev (escape_bytes es v l) @ t_u t\<rparr>)
     else path_switch (t_saved_state t) (t\<lparr>t_state := Path (t_saved_state t)\<rparr>) v)"
proof -
  consider "c_0 \<le> l \<and> l \<le> c_9" | "\<not> (c_0 \<le> l \<and> l \<le> c_9)" "c_a \<le> l OR 0x20 \<and> l OR 0x20 \<le> c_f"
    | "\<not> (c_0 \<le> l \<and> l \<le> c_9)" "\<not> (c_a \<le> l OR 0x20 \<and> l OR 0x20 \<le> c_f)" by blast
  then show ?thesis
  proof cases
    case 1
    have l: "hex2int l = l - c_0" "unat (hex2int l) \<le> 9" "hex_ok l"
      using hex_digit_char [OF 1] by blast+
    have v: "push_bit 4 (hex2int h) + l - c_0 = escape_value h l"
      by (simp add: escape_value_def l(1))
    have "escape_value h l \<noteq> c_question" "escape_value h l \<noteq> c_slash"
      using escape_value_cases(1) [OF assms(3) l(3,2)] by simp_all
    moreover have "escape_value h l = c_percent \<Longrightarrow> l = c_5"
      using escape_value_cases(3) [OF assms(3) l(3)] hex_five [of l] by simp
    ultimately show ?thesis
      using 1 assms l(3)
      by (simp add: target_switch_def v Let_def literal_escape_def escape_bytes_def put_def go_def)
  next
    case 2
    have l: "hex2int l = (l OR 0x20) - c_a + 10" "10 \<le> unat (hex2int l)" "hex_ok l"
      using hex_letter_value [OF 2(2)] by blast+
    have v: "push_bit 4 (hex2int h) + (l OR 0x20) - c_a + 10 = escape_value h l"
      by (simp add: escape_value_def l(1))
    have nz: "escape_value h l \<noteq> c_percent" "escape_value h l \<noteq> c_hash" "escape_value h l \<noteq> c_nul"
      using escape_value_cases(2) [OF assms(3) l(3,2)] by simp_all
    have no: "(c_0 \<le> l \<and> l \<le> c_9) = False" using 2(1) by blast
    from nz show ?thesis
      using 2(2) assms l(3)
      by (simp add: target_switch_def no v Let_def literal_escape_def escape_bytes_def put_def go_def)
  next
    case 3
    with assms hex_other [OF 3] show ?thesis by (auto simp: target_switch_def Let_def)
  qed
qed

text \<open>The end of the path: \<^verbatim>\<open>?\<close>, \<^verbatim>\<open>#\<close> or the end of the target.\<close>

lemma close_slash:
  assumes "walking t dirs cur"
  shows "c = c_question \<or> c = c_hash \<Longrightarrow> target_switch es t c =
      (case walk dirs [cur] of
         None \<Rightarrow> Target_invalid t
       | Some (dirs, file) \<Rightarrow>
           (if c = c_question then Target_args else Target_done) (t\<lparr>t_u := rev (render dirs file)\<rparr>))"
    and "case walk dirs [cur] of
         None \<Rightarrow> fst (target_while es t []) = NXT_HTTP_PARSE_INVALID
       | Some (dirs, file) \<Rightarrow> \<exists>t'. target_while es t [] = (Rc NXT_OK, t', None)
           \<and> t_u t' = rev (render dirs file) \<and> t_quoted t' = t_quoted t"
proof -
  have u: "t_u t = rev (render dirs cur)" and s: "t_state t = Path (state_of cur)" and "clean dirs cur"
    using assms by (simp_all add: walking_def del: state_of.simps)
  have same: "t\<lparr>t_u := rev (render dirs cur)\<rparr> = t" using u by (cases t) simp
  have dd: "cur = seg_dot_dot \<Longrightarrow> dot_dot_back (drop 4 (rev (render dirs seg_dot_dot))) =
    (case dirs of [] \<Rightarrow> None | _ # dirs \<Rightarrow> Some (rev (render dirs [])))"
    using \<open>clean dirs cur\<close> by (simp add: dot_dot_render)
  have dot: "tl (rev (render dirs seg_dot)) = rev (render dirs [])"
    by (simp add: render_def)
  show "target_switch es t c =
      (case walk dirs [cur] of
         None \<Rightarrow> Target_invalid t
       | Some (dirs, file) \<Rightarrow>
           (if c = c_question then Target_args else Target_done) (t\<lparr>t_u := rev (render dirs file)\<rparr>))"
    if "c = c_question \<or> c = c_hash"
    using that u s same dd dot by (auto simp: target_switch_def split: list.split)
  show "case walk dirs [cur] of
         None \<Rightarrow> fst (target_while es t []) = NXT_HTTP_PARSE_INVALID
       | Some (dirs, file) \<Rightarrow> \<exists>t'. target_while es t [] = (Rc NXT_OK, t', None)
           \<and> t_u t' = rev (render dirs file) \<and> t_quoted t' = t_quoted t"
    using u s dd dot by (auto simp: target_switch_def go_def split: list.split)
qed

text \<open>What the loop does with the rest \<open>p\<close> of the target, in terms of the specification.\<close>

definition target_result ::
  "bool \<Rightarrow> target_vars \<Rightarrow> nxt_str list \<Rightarrow> nxt_str \<Rightarrow> nxt_str \<Rightarrow> bool" where
  "target_result es t dirs cur p \<longleftrightarrow>
     (case target_decode es p of
        None \<Rightarrow> fst (target_while es t p) = NXT_HTTP_PARSE_INVALID
      | Some (d, args) \<Rightarrow>
          (case walk dirs (segments (cur @ d)) of
             None \<Rightarrow> fst (target_while es t p) = NXT_HTTP_PARSE_INVALID
           | Some (dirs, file) \<Rightarrow> \<exists>t'. target_while es t p = (Rc NXT_OK, t', args)
               \<and> t_u t' = rev (render dirs file)
               \<and> t_quoted t' = (t_quoted t \<or> c_percent \<in> set (takeWhile (\<lambda>c. c \<noteq> c_question \<and> c \<noteq> c_hash) p))))"

lemma segments_single: "c_slash \<notin> set cur \<Longrightarrow> segments cur = [cur]"
  using segments_append [of cur "[]"] by simp

lemma target_step_byte:
  assumes "walking t dirs cur" and "c \<notin> {c_question, c_hash, c_percent}"
    and "\<And>t' dirs' cur'. walking t' dirs' cur' \<Longrightarrow> target_result es t' dirs' cur' p"
  shows "target_result es t dirs cur (c # p)"
proof -
  have cl: "clean dirs cur" "c_slash \<notin> set cur" and u: "t_u t = rev (render dirs cur)"
    and s: "target_switch es t c = path_switch (state_of cur) t c"
    using assms(1) by (simp_all add: walking_def clean_def target_switch_def)
  note step = path_switch_byte [OF cl(1) u assms(2)] and w = walk_push [OF cl(2), of dirs c]
  show ?thesis
  proof (cases "seg_push c dirs cur")
    case None
    with step have "target_while es t (c # p) = (NXT_HTTP_PARSE_INVALID, t, None)" by (simp add: s)
    with None w assms(2) show ?thesis
      by (auto simp: target_result_def split: option.splits)
  next
    case (Some dc)
    obtain dirs' cur' where dc: "dc = (dirs', cur')" by (cases dc)
    with step Some obtain t' where t': "path_switch (state_of cur) t c = Target_continue t'"
      "walking t' dirs' cur'" "t_quoted t' = t_quoted t" by auto
    then have "target_while es t (c # p) = target_while es t' p" by (simp add: s)
    with assms(3) [OF t'(2)] t'(3) w Some dc assms(2) show ?thesis
      by (auto simp: target_result_def split: option.splits)
  qed
qed

text \<open>A complete escape is three turns of the loop.\<close>

lemma target_while_escape:
  assumes "t_state t = Path s"
  shows "target_while es t (c_percent # h # l # q) =
    (let t = t\<lparr>t_saved_state := s, t_quoted := True\<rparr>; v = escape_value h l in
     if \<not> hex_ok h then (NXT_HTTP_PARSE_INVALID, t\<lparr>t_state := sw_quoted\<rparr>, None)
     else
       let t = t\<lparr>t_high := hex2int h\<rparr> in
       if \<not> hex_ok l \<or> v = 0 then (NXT_HTTP_PARSE_INVALID, t\<lparr>t_state := sw_quoted_second\<rparr>, None)
       else
         case (if literal_escape es v then go sw_normal (t\<lparr>t_u := rev (escape_bytes es v l) @ t_u t\<rparr>)
               else path_switch s (t\<lparr>t_state := Path s\<rparr>) v) of
           Target_continue t \<Rightarrow> target_while es t q
         | Target_args t \<Rightarrow> (Rc NXT_OK, t, Some q)
         | Target_done t \<Rightarrow> (Rc NXT_OK, t, None)
         | Target_invalid t \<Rightarrow> (NXT_HTTP_PARSE_INVALID, t, None))"
proof -
  have "target_switch es t c_percent = quote s t"
    using assms by (cases s) (simp_all add: target_switch_def)
  then show ?thesis
    by (simp add: quote_def quoted_first quoted_second [where h = h] Let_def go_def
      split del: if_split cong: if_cong) (auto simp: quoted_second [where h = h] Let_def go_def)
qed

lemma hex_ok_not: "hex_ok l \<Longrightarrow> l \<noteq> c_slash \<and> l \<noteq> c_dot"
  using hex2int_value [of c_slash] hex2int_value [of c_dot]
  by (auto simp: hex_ok_def word_less_nat_alt hex_digit_value_def)

lemma literal_escape_bytes:
  assumes "literal_escape es v" and "hex_ok l"
  shows "escape_bytes es v l \<noteq> [] \<and> last (escape_bytes es v l) \<noteq> c_dot \<and> c_slash \<notin> set (escape_bytes es v l)"
  using assms hex_ok_not [of l] by (auto simp: literal_escape_def escape_bytes_def)

lemma plain_escape_bytes: "\<not> literal_escape es v \<Longrightarrow> escape_bytes es v l = [v] \<and> v \<notin> {c_question, c_hash, c_percent}"
  by (auto simp: literal_escape_def escape_bytes_def)

lemma target_step_escape:
  assumes "walking t dirs cur"
    and IH: "\<And>t' dirs' cur'. walking t' dirs' cur' \<Longrightarrow> target_result es t' dirs' cur' q"
  shows "target_result es t dirs cur (c_percent # h # l # q)"
proof -
  define v where "v = escape_value h l"
  have cl: "clean dirs cur" "c_slash \<notin> set cur" and u: "t_u t = rev (render dirs cur)"
    and s: "t_state t = Path (state_of cur)"
    using assms(1) by (simp_all add: walking_def clean_def)
  define t0 where "t0 = t\<lparr>t_saved_state := state_of cur, t_quoted := True, t_high := hex2int h\<rparr>"
  note run = target_while_escape [OF s, of es h l q, folded v_def, unfolded Let_def, folded t0_def]
  have t0: "t_u t0 = rev (render dirs cur)" "t_quoted t0" by (simp_all add: t0_def u)
  consider "\<not> (hex_ok h \<and> hex_ok l \<and> v \<noteq> 0)" | "hex_ok h \<and> hex_ok l \<and> v \<noteq> 0" "literal_escape es v"
    | "hex_ok h \<and> hex_ok l \<and> v \<noteq> 0" "\<not> literal_escape es v" by blast
  then show ?thesis
  proof cases
    case 1
    then show ?thesis using run by (auto simp: target_result_def v_def)
  next
    case 2
    define bs where "bs = escape_bytes es v l"
    define t' where "t' = t0\<lparr>t_u := rev bs @ t_u t0, t_state := Path sw_normal\<rparr>"
    have bs: "bs \<noteq> []" "last bs \<noteq> c_dot" "c_slash \<notin> set bs"
      using literal_escape_bytes [OF 2(2), of l] 2(1) by (simp_all add: bs_def)
    have "walking t' dirs (cur @ bs)"
      using cl bs(3) unfolding walking_def t'_def
      by (simp add: t0 state_of_append [OF bs(2,1)] render_append clean_def del: state_of.simps)
    moreover have "target_while es t (c_percent # h # l # q) = target_while es t' q"
      using 2 by (subst run) (simp add: go_def t'_def bs_def)
    moreover have "t_quoted t'" by (simp add: t'_def t0)
    ultimately show ?thesis
      using IH [of t' dirs "cur @ bs"] 2(1)
      by (auto simp: target_result_def v_def bs_def split: option.splits)
  next
    case 3
    have v: "escape_bytes es v l = [v]" "v \<notin> {c_question, c_hash, c_percent}"
      using plain_escape_bytes [OF 3(2)] by simp_all
    note step = path_switch_byte [OF cl(1) _ v(2), of "t0\<lparr>t_state := Path (state_of cur)\<rparr>"]
      and w = walk_push [OF cl(2), of dirs v]
    show ?thesis
    proof (cases "seg_push v dirs cur")
      case None
      with step 3 have "fst (target_while es t (c_percent # h # l # q)) = NXT_HTTP_PARSE_INVALID"
        by (subst run) (simp add: t0 del: state_of.simps path_switch.simps)
      with None w 3 v show ?thesis
        by (auto simp: target_result_def v_def [symmetric] split: option.splits)
    next
      case (Some dc)
      obtain dirs' cur' where dc: "dc = (dirs', cur')" by (cases dc)
      with step Some obtain t' where
        t': "path_switch (state_of cur) (t0\<lparr>t_state := Path (state_of cur)\<rparr>) v = Target_continue t'"
        "walking t' dirs' cur'" "t_quoted t'" by (auto simp: t0 simp del: state_of.simps path_switch.simps)
      then have "target_while es t (c_percent # h # l # q) = target_while es t' q"
        using 3 by (subst run) (simp del: state_of.simps path_switch.simps)
      with IH [OF t'(2)] t'(3) w Some dc 3 v show ?thesis
        by (auto simp: target_result_def v_def [symmetric] split: option.splits)
    qed
  qed
qed

lemma target_escape_short:
  assumes "walking t dirs cur" and "p = [] \<or> (\<exists>h. p = [h])"
  shows "target_result es t dirs cur (c_percent # p)"
proof -
  have s: "t_state t = Path (state_of cur)"
    using assms(1) by (simp add: walking_def)
  then have "target_switch es t c_percent = quote (state_of cur) t"
    by (cases "state_of cur") (simp_all add: target_switch_def)
  then show ?thesis
    using assms(2) by (auto simp: target_result_def quote_def quoted_first simp del: state_of.simps)
qed

lemma target_while_spec: "walking t dirs cur \<Longrightarrow> target_result es t dirs cur p"
proof (induction p arbitrary: t dirs cur rule: length_induct)
  case (1 p)
  have cl: "c_slash \<notin> set cur" using 1(2) by (simp add: walking_def clean_def)
  have IH: "target_result es t' dirs' cur' q"
    if "length q < length p" "walking t' dirs' cur'" for t' dirs' cur' q
    using 1(1) that by blast
  show ?case
  proof (cases p)
    case Nil
    then show ?thesis
      using close_slash(2) [OF 1(2), of es] cl
      by (cases "walk dirs [cur]")
        (auto simp: target_result_def segments_single simp del: walk.simps target_while.simps)
  next
    case (Cons c q)
    consider "c = c_question \<or> c = c_hash" | "c = c_percent" "q = [] \<or> (\<exists>h. q = [h])"
      | h l r where "c = c_percent" "q = h # l # r" | "c \<notin> {c_question, c_hash, c_percent}"
      by (cases q; cases "tl q") auto
    then show ?thesis
    proof cases
      case 1
      then show ?thesis
        using close_slash(1) [OF \<open>walking t dirs cur\<close> 1, of es] cl Cons
        by (cases "walk dirs [cur]")
          (auto simp: target_result_def segments_single simp del: walk.simps target_while.simps(1))
    next
      case 2
      then show ?thesis using target_escape_short [OF \<open>walking t dirs cur\<close>] Cons by simp
    next
      case 3
      then show ?thesis
        unfolding Cons by (simp only:) (rule target_step_escape [OF \<open>walking t dirs cur\<close>], rule IH, simp_all add: Cons)
    next
      case 4
      show ?thesis
        unfolding Cons by (rule target_step_byte [OF \<open>walking t dirs cur\<close> 4]) (rule IH, simp_all add: Cons)
    qed
  qed
qed

section \<open>Properties of the normalization\<close>

lemma walking_first:
  "\<exists>t'. target_while es (target_init q) (c_slash # p) = target_while es t' p
     \<and> walking t' [] [] \<and> t_quoted t' = q"
  by (rule exI [of _ "\<lparr>t_state = Path sw_slash, t_saved_state = sw_normal, t_u = [c_slash], t_high = 0, t_quoted = q\<rparr>"])
    (simp add: target_init_def target_switch_def go_def put_def walking_def clean_def render_def)

lemma complex_target_run:
  assumes "target_while (encoded_slashes rp) (target_init (quoted_target rp)) (rp_target rp) = (rc, t, args)"
  shows "nxt_http_parse_complex_target True rp =
    (if rc \<noteq> Rc NXT_OK then (rc, rp\<lparr>rp_path := [], quoted_target := t_quoted t\<rparr>)
     else (Rc NXT_OK, rp\<lparr>rp_path := rev (t_u t),
             rp_args := (case args of None \<Rightarrow> rp_args rp | Some p \<Rightarrow> takeWhile (\<lambda>c. c \<noteq> c_hash) p),
             quoted_target := t_quoted t\<rparr>))"
proof -
  have "rp_target (rp\<lparr>rp_path := []\<rparr>) = rp_target rp" by (simp add: rp_target_def)
  with assms show ?thesis
    by (cases args) (simp_all add: nxt_http_parse_complex_target_def)
qed

lemma complex_target_invalid:
  assumes "fst (target_while (encoded_slashes rp) (target_init (quoted_target rp)) (rp_target rp)) = NXT_HTTP_PARSE_INVALID"
  shows "fst (nxt_http_parse_complex_target True rp) = NXT_HTTP_PARSE_INVALID"
  using assms complex_target_run [of rp]
  by (cases "target_while (encoded_slashes rp) (target_init (quoted_target rp)) (rp_target rp)") simp

lemma complex_target_computes:
  assumes "rp_target rp = c_slash # p"
  shows "case target_spec (encoded_slashes rp) p of
      None \<Rightarrow> fst (nxt_http_parse_complex_target True rp) = NXT_HTTP_PARSE_INVALID
    | Some (path, args) \<Rightarrow> nxt_http_parse_complex_target True rp =
        (Rc NXT_OK, rp\<lparr>rp_path := path,
           rp_args := (case args of None \<Rightarrow> rp_args rp | Some a \<Rightarrow> a),
           quoted_target := (quoted_target rp \<or>
             c_percent \<in> set (takeWhile (\<lambda>c. c \<noteq> c_question \<and> c \<noteq> c_hash) p))\<rparr>)"
proof -
  define es where "es = encoded_slashes rp"
  define q where "q = quoted_target rp"
  obtain t where t: "target_while es (target_init q) (c_slash # p) = target_while es t p"
    "walking t [] []" "t_quoted t = q"
    using walking_first [of es q p] by blast
  note run = target_while_spec [OF t(2), of es p, unfolded target_result_def]
  show ?thesis
  proof (cases "target_decode es p")
    case None
    with run have "fst (target_while es t p) = NXT_HTTP_PARSE_INVALID" by simp
    then show ?thesis
      using None t(1) by (simp add: target_spec_def assms es_def q_def complex_target_invalid del: target_while.simps)
  next
    case (Some da)
    obtain d args where da: "da = (d, args)" by (cases da)
    show ?thesis
    proof (cases "walk [] (segments d)")
      case None
      with Some da run have "fst (target_while es t p) = NXT_HTTP_PARSE_INVALID" by simp
      then show ?thesis
        using None Some da t(1)
        by (simp add: target_spec_def assms es_def q_def complex_target_invalid del: target_while.simps)
    next
      case (Some df)
      obtain dirs fl where df: "df = (dirs, fl)" by (cases df)
      with Some da run \<open>target_decode es p = Some da\<close> obtain t' where
        t': "target_while es t p = (Rc NXT_OK, t', args)" "t_u t' = rev (render dirs fl)"
        "t_quoted t' = (q \<or> c_percent \<in> set (takeWhile (\<lambda>c. c \<noteq> c_question \<and> c \<noteq> c_hash) p))"
        by (auto simp: t(3))
      have "target_spec es p = Some (render dirs fl, map_option (takeWhile (\<lambda>c. c \<noteq> c_hash)) args)"
        using Some da df \<open>target_decode es p = Some da\<close> by (simp add: target_spec_def)
      moreover have "target_while es (target_init q) (rp_target rp) = (Rc NXT_OK, t', args)"
        using t(1) t'(1) assms by (simp del: target_while.simps)
      ultimately show ?thesis
        using complex_target_run [of rp] t' by (cases args) (simp_all add: es_def q_def)
    qed
  qed
qed

text \<open>
  C7: Normalizing a request target computes its specification.  The state machine of
  \<^verbatim>\<open>nxt_http_parse_complex_target\<close> accepts a target that starts with a slash if and only if its
  percent escapes are well formed and its path, with the escapes decoded, does not climb above the
  root; it then returns the path with the dot segments and the empty segments resolved, the
  arguments between \<^verbatim>\<open>?\<close> and \<^verbatim>\<open>#\<close>, and notes whether there was an escape.  All other fields of
  the parser state are kept.
\<close>

theorem nxt_http_parse_complex_target_spec:
  assumes "rp_target rp = c_slash # p"
  shows "case target_spec (encoded_slashes rp) p of
      None \<Rightarrow> fst (nxt_http_parse_complex_target True rp) = NXT_HTTP_PARSE_INVALID
    | Some (path, args) \<Rightarrow> nxt_http_parse_complex_target True rp =
        (Rc NXT_OK, rp\<lparr>rp_path := path,
           rp_args := (case args of None \<Rightarrow> rp_args rp | Some a \<Rightarrow> a),
           quoted_target := (quoted_target rp \<or>
             c_percent \<in> set (takeWhile (\<lambda>c. c \<noteq> c_question \<and> c \<noteq> c_hash) p))\<rparr>)"
  using assms by (rule complex_target_computes)

definition rp_zero :: http_request_parse where
  "rp_zero = \<lparr>rp_handler = No_handler, rp_method = [], target_start = [], target_end = [],
     request_line_end = [], rp_path = [], rp_args = [], rp_version = [],
     inline_fields = replicate 16 \<lparr>hf_hash = 0, hf_skip = False, hf_hopbyhop = False,
       hf_name_length = 0, hf_value_length = 0, hf_name = [], hf_value = []\<rparr>,
     rp_fields = None, field_name = [], field_name_length = 0,
     field_value = [], field_value_length = 0, field_hash = 0, skip_field = False,
     discard_unsafe_fields = False, discard_fields = False, complex_target = False,
     quoted_target = False, encoded_slashes = False, num_inline_fields = 0\<rparr>"

definition rp_example :: http_request_parse where
  "rp_example = rp_zero\<lparr>target_start := bytes ''/a/b/.%2E//c%20d?x=%2F#f HTTP/1.1'', target_end := bytes '' HTTP/1.1''\<rparr>"

theorem nxt_http_parse_complex_target_spec_witness:
  "rp_path (snd (nxt_http_parse_complex_target True rp_example)) = bytes ''/a/c d''
   \<and> rp_args (snd (nxt_http_parse_complex_target True rp_example)) = bytes ''x=%2F''
   \<and> quoted_target (snd (nxt_http_parse_complex_target True rp_example))"
proof -
  have target: "rp_target rp_example = c_slash # bytes ''a/b/.%2E//c%20d?x=%2F#f''" by code_simp
  have spec: "target_spec (encoded_slashes rp_example) (bytes ''a/b/.%2E//c%20d?x=%2F#f'') =
    Some (bytes ''/a/c d'', Some (bytes ''x=%2F''))" by code_simp
  have quoted: "c_percent \<in> set (takeWhile (\<lambda>c. c \<noteq> c_question \<and> c \<noteq> c_hash) (bytes ''a/b/.%2E//c%20d?x=%2F#f''))"
    by code_simp
  show ?thesis
    using nxt_http_parse_complex_target_spec [OF target] by (simp only: spec quoted) simp
qed

text \<open>Paths that cannot leave the root.\<close>

definition name_seg :: "nxt_str \<Rightarrow> bool" where
  "name_seg g \<longleftrightarrow> g \<noteq> seg_dot \<and> g \<noteq> seg_dot_dot \<and> c_slash \<notin> set g"

definition safe_path :: "nxt_str \<Rightarrow> bool" where
  "safe_path path \<longleftrightarrow> path \<noteq> [] \<and> hd path = c_slash
     \<and> list_all (\<lambda>g. name_seg g \<and> g \<noteq> []) (butlast (segments (tl path)))
     \<and> name_seg (last (segments (tl path)))"

lemma segments_no_slash: "g \<in> set (segments s) \<Longrightarrow> c_slash \<notin> set g"
proof (induction s arbitrary: g)
  case (Cons c s)
  moreover have "hd (segments s) \<in> set (segments s)" "set (tl (segments s)) \<subseteq> set (segments s)"
    by (simp_all add: list.set_sel(2) subsetI)
  ultimately show ?case by (auto split: if_splits)
qed simp

lemma segments_dirs:
  "list_all (\<lambda>d. c_slash \<notin> set d) ds \<Longrightarrow>
   segments (concat (map (\<lambda>d. d @ [c_slash]) ds) @ s) = ds @ segments s"
  by (induction ds) (auto simp: segments_slash)

lemma walk_names:
  assumes "walk dirs gs = Some (dirs', f)"
    and "list_all (\<lambda>g. name_seg g \<and> g \<noteq> []) dirs" and "list_all (\<lambda>g. c_slash \<notin> set g) gs"
  shows "list_all (\<lambda>g. name_seg g \<and> g \<noteq> []) dirs' \<and> name_seg f"
  using assms by (induction dirs gs rule: walk.induct) (auto simp: name_seg_def split: if_splits list.splits)

lemma target_spec_safe: "target_spec es p = Some (path, args) \<Longrightarrow> safe_path path"
proof -
  assume "target_spec es p = Some (path, args)"
  then obtain d dirs f where w: "walk [] (segments d) = Some (dirs, f)" and path: "path = render dirs f"
    by (auto simp: target_spec_def split: option.splits)
  have "list_all (\<lambda>g. name_seg g \<and> g \<noteq> []) dirs \<and> name_seg f"
    by (rule walk_names [OF w]) (auto simp: list_all_iff dest: segments_no_slash)
  moreover from this have "segments (tl path) = rev dirs @ [f]"
    by (simp add: path render_def segments_dirs segments_single name_seg_def list_all_iff)
  ultimately show ?thesis
    by (simp add: safe_path_def path) (simp add: render_def)
qed

text \<open>
  C8: A path the server accepts stays below the root.  If the normalization accepts a target that
  starts with a slash, however the client has hidden them in escapes, the resulting path starts
  with a slash and has no segment \<^verbatim>\<open>.\<close> or \<^verbatim>\<open>..\<close> and no empty segment except possibly the
  last.
\<close>

theorem nxt_http_parse_complex_target_safe:
  assumes "rp_target rp = c_slash # p"
    and "nxt_http_parse_complex_target alloc rp = (Rc NXT_OK, rp')"
  shows "safe_path (rp_path rp')"
proof -
  have a: "alloc" using assms(2) by (cases alloc) (simp_all add: nxt_http_parse_complex_target_def)
  then show ?thesis
    using complex_target_computes [OF assms(1)] assms(2)
    by (auto split: option.splits dest: target_spec_safe)
qed

theorem nxt_http_parse_complex_target_safe_witness:
  "\<exists>rp'. nxt_http_parse_complex_target True rp_example = (Rc NXT_OK, rp') \<and> safe_path (rp_path rp')"
proof -
  have target: "rp_target rp_example = c_slash # bytes ''a/b/.%2E//c%20d?x=%2F#f''" by code_simp
  have "fst (nxt_http_parse_complex_target True rp_example) = Rc NXT_OK" by code_simp
  then have run: "nxt_http_parse_complex_target True rp_example =
      (Rc NXT_OK, snd (nxt_http_parse_complex_target True rp_example))"
    by (metis prod.collapse)
  show ?thesis
    using run nxt_http_parse_complex_target_safe [OF target run] by blast
qed

text \<open>The loop up to a point of the target where it has neither returned nor left it.\<close>

fun target_run :: "bool \<Rightarrow> target_vars \<Rightarrow> nxt_str \<Rightarrow> target_vars option" where
  "target_run es t [] = Some t"
| "target_run es t (ch # p) =
     (case target_switch es t ch of Target_continue t \<Rightarrow> target_run es t p | _ \<Rightarrow> None)"

definition pending :: "target_state \<Rightarrow> nat" where
  "pending s = (case s of Path _ \<Rightarrow> 0 | sw_quoted \<Rightarrow> 1 | sw_quoted_second \<Rightarrow> 2)"

text \<open>Where a path state is entered, the bytes that its \<^verbatim>\<open>u--\<close> takes back have been written.\<close>

definition room :: "nat \<Rightarrow> target_vars \<Rightarrow> bool" where
  "room n t \<longleftrightarrow> length (t_u t) + pending (t_state t) \<le> n
     \<and> (case t_state t of Path s \<Rightarrow> s = sw_dot \<longrightarrow> t_u t \<noteq> [] | _ \<Rightarrow> t_saved_state t = sw_dot \<longrightarrow> t_u t \<noteq> [])"

lemma dot_dot_back_length: "dot_dot_back u = Some v \<Longrightarrow> length v \<le> length u"
  by (induction u) (auto split: if_splits)

lemma path_switch_room:
  assumes "length (t_u t) < n" and "s = sw_dot \<Longrightarrow> t_u t \<noteq> []"
  shows "case path_switch s t ch of
      Target_continue t' \<Rightarrow> room n t'
    | Target_args t' \<Rightarrow> length (t_u t') \<le> n
    | Target_done t' \<Rightarrow> length (t_u t') \<le> n
    | Target_invalid t' \<Rightarrow> True"
  using assms
  by (cases s) (auto simp: room_def go_def put_def quote_def pending_def Let_def
    dest!: dot_dot_back_length split: option.split)

lemma path_switch_continue:
  assumes "length (t_u t) < n" and "s = sw_dot \<Longrightarrow> t_u t \<noteq> []"
    and "path_switch s t ch = Target_continue t'"
  shows "room n t'"
  using path_switch_room [of t n s ch] assms by simp

lemma quoted_first_room:
  assumes "room n t" and "t_state t = sw_quoted" and "target_switch es t ch = Target_continue t'"
  shows "room (n + 1) t'"
  using assms by (auto simp: quoted_first room_def pending_def split: if_splits)

lemma quoted_second_room:
  assumes "room n t" and "t_state t = sw_quoted_second" and "target_switch es t ch = Target_continue t'"
  shows "room (n + 1) t'"
proof -
  define t0 where "t0 = t\<lparr>t_state := Path (t_saved_state t)\<rparr>"
  have r: "length (t_u t) + 2 \<le> n" "t_saved_state t = sw_dot \<Longrightarrow> t_u t \<noteq> []"
    using assms(1,2) by (auto simp: room_def pending_def)
  have *: "room (n + 1) t'" if "path_switch (t_saved_state t) t0 c = Target_continue t'" for c
    using r that by (intro path_switch_continue [of t0 _ "t_saved_state t" c]) (simp_all add: t0_def)
  have lit: "room (n + 1) (t\<lparr>t_u := bs @ t_u t, t_state := Path sw_normal\<rparr>)" if "length bs \<le> 3" for bs
    using r that by (simp add: room_def pending_def)
  show ?thesis
    using assms(3) * [of "push_bit 4 (t_high t) + ch - c_0"]
      * [of "push_bit 4 (t_high t) + (ch OR 0x20) - c_a + 10"]
      lit [of "[_]"] lit [of "[_, _, _]"]
    by (auto simp: target_switch_def assms(2) Let_def go_def put_def t0_def split: if_splits)
qed

lemma target_switch_room:
  assumes "room n t" and "target_switch es t ch = Target_continue t'"
  shows "room (n + 1) t'"
proof (cases "t_state t")
  case (Path s)
  then show ?thesis
    using assms path_switch_continue [of t "n + 1" s ch t']
    by (auto simp: room_def target_switch_def pending_def)
qed (use assms quoted_first_room quoted_second_room in blast)+

lemma target_run_room: "room n t \<Longrightarrow> target_run es t a = Some t' \<Longrightarrow> room (n + length a) t'"
proof (induction a arbitrary: n t)
  case (Cons ch a)
  then obtain t1 where "target_switch es t ch = Target_continue t1" "target_run es t1 a = Some t'"
    by (auto split: target_next.splits)
  with Cons.IH [of "n + 1" t1] target_switch_room [OF Cons.prems(1)] show ?case by simp
qed simp

lemma target_switch_leave:
  assumes "room n t" and "target_switch es t ch = Target_args t' \<or> target_switch es t ch = Target_done t'"
  shows "length (t_u t') \<le> n + 1"
proof (cases "t_state t")
  case (Path s)
  then show ?thesis
    using assms path_switch_room [of t "n + 1" s ch]
    by (auto simp: room_def target_switch_def pending_def)
next
  case sw_quoted
  then show ?thesis using assms by (auto simp: quoted_first split: if_splits)
next
  case sw_quoted_second
  define t0 where "t0 = t\<lparr>t_state := Path (t_saved_state t)\<rparr>"
  have r: "length (t_u t0) < n" "t_saved_state t = sw_dot \<Longrightarrow> t_u t0 \<noteq> []"
    using assms(1) sw_quoted_second by (auto simp: room_def pending_def t0_def)
  show ?thesis
    using assms(2) path_switch_room [OF r(1), of "t_saved_state t" "push_bit 4 (t_high t) + ch - c_0"]
      path_switch_room [OF r(1), of "t_saved_state t" "push_bit 4 (t_high t) + (ch OR 0x20) - c_a + 10"] r(2)
    by (auto simp: target_switch_def sw_quoted_second Let_def go_def t0_def split: if_splits)
qed

lemma target_while_room:
  "room n t \<Longrightarrow> target_while es t p = (Rc NXT_OK, t', args) \<Longrightarrow> length (t_u t') \<le> n + length p"
proof (induction p arbitrary: n t)
  case Nil
  then obtain s where s: "t_state t = Path s" by (cases "t_state t") auto
  show ?case
  proof (cases "s = sw_dot \<or> s = sw_dot_dot")
    case True
    then have "length (t_u t') \<le> length (t_u t)"
      using Nil s by (auto simp: target_switch_def go_def dest!: dot_dot_back_length split: option.splits)
    then show ?thesis using Nil by (simp add: room_def)
  next
    case False
    then show ?thesis using Nil s by (auto simp: room_def)
  qed
next
  case (Cons ch p)
  then show ?case
    using target_switch_room [OF Cons.prems(1), of es ch] target_switch_leave [OF Cons.prems(1), of es ch]
      Cons.IH [of "n + 1"]
    by (cases "target_switch es t ch") fastforce+
qed



end
