(* ===== verification/Nxt_Http_Parse.thy ===== *)
theory Nxt_Http_Parse
  imports Nxt_Http_Target Nxt_String
begin

text \<open>
  The HTTP request parser, \<^verbatim>\<open>src/nxt_http_parse.c\<close>: the request line and the header fields.
  The parser is called with a buffer that grows between the calls; it keeps in \<^verbatim>\<open>rp->handler\<close>
  where it has stopped.  The functions take the bytes from \<^verbatim>\<open>*pos\<close> to \<^verbatim>\<open>end\<close> and return the
  code, the new parser state and the bytes from the new \<^verbatim>\<open>*pos\<close> on.  The memory pool is the
  parameter \<open>mem\<close>: \<open>mem 0\<close> tells whether it can provide the path of a complex target, and
  \<open>mem (n + 1)\<close> whether it can provide what the field number \<open>n\<close> needs.
\<close>

section \<open>Unrolled loops\<close>

text \<open>
  The parser scans with loops of the shape \<^verbatim>\<open>while (end - p >= n) { test(p[0]); ... ; p += n; }\<close>
  followed by \<^verbatim>\<open>while (p != end) { test(*p); p++; }\<close>.  A test either leaves the loop at its
  character (None) or updates the local variables.  The first component of a result tells whether
  the loop was left.
\<close>

fun test_chars :: "nat \<Rightarrow> ('a \<Rightarrow> u_char \<Rightarrow> 'a option) \<Rightarrow> 'a \<Rightarrow> nxt_str \<Rightarrow> bool \<times> 'a \<times> nxt_str" where
  "test_chars 0 test a p = (False, a, p)"
| "test_chars (Suc n) test a [] = (False, a, [])"
| "test_chars (Suc n) test a (ch # p) =
     (case test a ch of None \<Rightarrow> (True, a, ch # p) | Some a \<Rightarrow> test_chars n test a p)"

lemma test_chars_drop: "n \<le> length p \<Longrightarrow> test_chars n test a p = (False, b, q) \<Longrightarrow> q = drop n p"
  by (induction n test a p rule: test_chars.induct) (auto split: option.splits)

lemma test_chars_shorter:
  "0 < n \<Longrightarrow> n \<le> length p \<Longrightarrow> (False, b, q) = test_chars n test a p \<Longrightarrow> length q < length p"
  using test_chars_drop [of n p test a b q] by simp

function unrolled :: "nat \<Rightarrow> ('a \<Rightarrow> u_char \<Rightarrow> 'a option) \<Rightarrow> 'a \<Rightarrow> nxt_str \<Rightarrow> bool \<times> 'a \<times> nxt_str" where
  "unrolled n test a p =
     (if 0 < n \<and> n \<le> length p then
        case test_chars n test a p of
          (True, a, q) \<Rightarrow> (True, a, q)
        | (False, a, q) \<Rightarrow> unrolled n test a q
      else (False, a, p))"
  by pat_completeness auto
termination
  by (relation "measure (\<lambda>(n, test, a, p). length p)") (auto dest: test_chars_shorter)

declare unrolled.simps [simp del]

definition rest_chars :: "('a \<Rightarrow> u_char \<Rightarrow> 'a option) \<Rightarrow> bool \<times> 'a \<times> nxt_str \<Rightarrow> bool \<times> 'a \<times> nxt_str" where
  "rest_chars test r = (case r of (True, a, p) \<Rightarrow> (True, a, p) | (False, a, p) \<Rightarrow> test_chars (length p) test a p)"

definition scan :: "nat \<Rightarrow> ('a \<Rightarrow> u_char \<Rightarrow> 'a option) \<Rightarrow> 'a \<Rightarrow> nxt_str \<Rightarrow> bool \<times> 'a \<times> nxt_str" where
  "scan n test a p = rest_chars test (unrolled n test a p)"

text \<open>The unrolled loops are the simple loop.\<close>

lemma test_chars_split:
  "test_chars (m + k) test a p = (case test_chars m test a p of
     (True, a, p) \<Rightarrow> (True, a, p) | (False, a, p) \<Rightarrow> test_chars k test a p)"
proof (induction m test a p rule: test_chars.induct)
  case (2 n test a)
  then show ?case by (cases k) auto
qed (auto split: option.split)

lemma unrolled_eq: "rest_chars test (unrolled n test a p) = test_chars (length p) test a p"
proof (induction n test a p rule: unrolled.induct)
  case (1 n test a p)
  show ?case
  proof (cases "0 < n \<and> n \<le> length p")
    case True
    obtain left b q where t: "test_chars n test a p = (left, b, q)" by (metis prod_cases3)
    have "test_chars (length p) test a p = test_chars (n + (length p - n)) test a p" using True by simp
    note split = this [unfolded test_chars_split t]
    show ?thesis
    proof (cases left)
      case True
      with t split \<open>0 < n \<and> n \<le> length p\<close> show ?thesis
        by (simp add: unrolled.simps [of n] rest_chars_def)
    next
      case False
      with t test_chars_drop [of n p test a b q] True have q: "length q = length p - n" by simp
      have "rest_chars test (unrolled n test b q) = test_chars (length q) test b q"
        using 1 [OF True] t False by simp
      with t split False True q show ?thesis
        by (simp add: unrolled.simps [of n test a p])
    qed
  next
    case False
    then show ?thesis by (subst unrolled.simps) (auto simp: rest_chars_def)
  qed
qed

fun stop_scan :: "('a \<Rightarrow> u_char \<Rightarrow> 'a option) \<Rightarrow> 'a \<Rightarrow> nxt_str \<Rightarrow> bool \<times> 'a \<times> nxt_str" where
  "stop_scan test a [] = (False, a, [])"
| "stop_scan test a (ch # p) =
     (case test a ch of None \<Rightarrow> (True, a, ch # p) | Some a \<Rightarrow> stop_scan test a p)"

lemma scan_eq: "scan n test a p = stop_scan test a p"
proof -
  have "test_chars (length p) test a p = stop_scan test a p"
    by (induction test a p rule: stop_scan.induct) (auto split: option.split)
  then show ?thesis by (simp add: scan_def unrolled_eq)
qed

section \<open>Scanning the target\<close>

datatype target_trap =
    NXT_HTTP_TARGET_SPACE | NXT_HTTP_TARGET_HASH | NXT_HTTP_TARGET_AGAIN | NXT_HTTP_TARGET_BAD
  | NXT_HTTP_TARGET_SLASH | NXT_HTTP_TARGET_DOT | NXT_HTTP_TARGET_ARGS_MARK | NXT_HTTP_TARGET_QUOTE_MARK

definition nxt_http_target_chars :: "nat list" where
  "nxt_http_target_chars =
    [4, 0, 0, 0, 0, 0, 0, 0, 0, 0, 4, 0, 0, 4, 0, 0,
     0, 0, 0, 0, 0, 0, 0, 0, 0, 0, 0, 0, 0, 0, 0, 0,
     1, 0, 0, 2, 0, 8, 0, 0, 0, 0, 0, 0, 0, 0, 6, 5,
     0, 0, 0, 0, 0, 0, 0, 0, 0, 0, 0, 0, 0, 0, 0, 7] @ replicate 192 0"

text \<open>The enumeration value with a given number; the table has no other numbers.\<close>

definition target_trap :: "nat \<Rightarrow> target_trap" where
  "target_trap n =
     (if n = 1 then NXT_HTTP_TARGET_SPACE else if n = 2 then NXT_HTTP_TARGET_HASH
      else if n = 3 then NXT_HTTP_TARGET_AGAIN else if n = 4 then NXT_HTTP_TARGET_BAD
      else if n = 5 then NXT_HTTP_TARGET_SLASH else if n = 6 then NXT_HTTP_TARGET_DOT
      else if n = 7 then NXT_HTTP_TARGET_ARGS_MARK else NXT_HTTP_TARGET_QUOTE_MARK)"

definition target_test_char :: "unit \<Rightarrow> u_char \<Rightarrow> unit option" where
  "target_test_char a ch = (if nxt_http_target_chars ! unat ch \<noteq> 0 then None else Some a)"

text \<open>\<^verbatim>\<open>*pos\<close> is moved to the trap, and not moved at all when there is none.\<close>

definition nxt_http_parse_target :: "nxt_str \<Rightarrow> target_trap \<times> nxt_str" where
  "nxt_http_parse_target p =
     (case scan 10 target_test_char () p of
        (True, _, q) \<Rightarrow> (target_trap (nxt_http_target_chars ! unat (hd q)), q)
      | (False, _) \<Rightarrow> (NXT_HTTP_TARGET_AGAIN, p))"

lemma stop_scan_suffix: "stop_scan test a p = (True, b, q) \<Longrightarrow> q \<noteq> [] \<and> (\<exists>w. p = w @ q)"
proof (induction test a p rule: stop_scan.induct)
  case (2 test a ch p)
  show ?case
  proof (cases "test a ch")
    case (Some c)
    with 2 obtain w where "q \<noteq> []" "p = w @ q" by auto
    then show ?thesis by (intro conjI exI [of _ "ch # w"]) auto
  qed (use 2 in auto)
qed simp

lemma nxt_http_parse_target_length:
  "nxt_http_parse_target p = (trap, q) \<Longrightarrow> trap \<noteq> NXT_HTTP_TARGET_AGAIN \<Longrightarrow> length q \<le> length p \<and> q \<noteq> []"
  by (auto simp: nxt_http_parse_target_def scan_eq split: prod.splits bool.splits dest!: stop_scan_suffix)

section \<open>The request line\<close>

text \<open>How the loop over the method ends.\<close>

datatype method_end = Method_again nxt_str | Method_space nxt_str nxt_str | Method_invalid nxt_str

definition method_test_char :: "unit \<Rightarrow> u_char \<Rightarrow> unit option" where
  "method_test_char a ch = (if ch < c_A \<or> c_Z < ch then None else Some a)"

text \<open>\<open>start\<close> is \<^verbatim>\<open>rp->method.start\<close>; the results carry the method, and the rest of the line.\<close>

function method_for :: "nxt_str \<Rightarrow> nxt_str \<Rightarrow> method_end" where
  "method_for start p =
     (case scan 8 method_test_char () p of
        (False, _) \<Rightarrow> Method_again start
      | (True, _, p) \<Rightarrow>
          let ch = hd p; method = take (length start - length p) start in
          if ch = c_space then Method_space method p
          else if ch = c_underscore \<or> ch = c_minus then method_for start (tl p)
          else if start = p \<and> (ch = c_cr \<or> ch = c_lf) then method_for (tl start) (tl p)
          else Method_invalid method)"
  by pat_completeness auto
termination
  by (relation "measure (\<lambda>(start, p). length p)")
    (auto simp: scan_eq dest!: stop_scan_suffix [OF sym] simp: neq_Nil_conv)

declare method_for.simps [simp del]

text \<open>The labels of the loop over the target.\<close>

datatype target_label = Continue_target | Rest_of_target | Space_after_target

text \<open>
  In the last nine bytes: does what follows the space look like the beginning of a version?
  \<^verbatim>\<open>memcmp(p, "HTTP/", nxt_min(end - p, 5)) == 0\<close> and the switch over \<^verbatim>\<open>end - p\<close>.
\<close>

definition version_begins :: "nxt_str \<Rightarrow> bool" where
  "version_begins p \<longleftrightarrow>
     take (min (length p) 5) p = take (min (length p) 5) (bytes ''HTTP/'')
     \<and> (length p = 8 \<longrightarrow> c_0 \<le> p ! 7 \<and> p ! 7 \<le> c_9)
     \<and> (length p = 7 \<or> length p = 8 \<longrightarrow> p ! 6 = c_dot)
     \<and> (length p = 6 \<or> length p = 7 \<or> length p = 8 \<longrightarrow> c_0 \<le> p ! 5 \<and> p ! 5 \<le> c_9)"

lemma target_tl_length:
  "nxt_http_parse_target (tl p) = (trap, q) \<Longrightarrow> trap \<noteq> NXT_HTTP_TARGET_AGAIN \<Longrightarrow> length q < length p"
  using nxt_http_parse_target_length [of "tl p" trap q] by (cases p) auto

lemma dropWhile_tl_length: "2 * length (dropWhile P (tl p)) < Suc (2 * length p)"
  using length_dropWhile_le [of P "tl p"] by (cases p) auto

text \<open>
  The code between the labels \<^verbatim>\<open>continue_target\<close> and \<^verbatim>\<open>space_after_target\<close> up to the check of
  the version.  The result is a return of the function (\<open>Inl\<close>), or \<^verbatim>\<open>args\<close> and the position of
  the space in front of a version of eight characters and the end of the line (\<open>Inr\<close>).
\<close>

function target_loop ::
  "target_label \<Rightarrow> http_request_parse \<Rightarrow> nxt_str \<Rightarrow> nxt_str option \<Rightarrow> bool \<Rightarrow> nxt_str \<Rightarrow>
   (http_rc \<times> http_request_parse) + (http_request_parse \<times> nxt_str option \<times> nxt_str)" where
  "target_loop Continue_target rp after_slash args rest p =
     (case nxt_http_parse_target (tl p) of
        (NXT_HTTP_TARGET_SLASH, p) \<Rightarrow>
          if after_slash = p
          then target_loop Rest_of_target (rp\<lparr>complex_target := True\<rparr>) after_slash args True p
          else target_loop Continue_target rp (tl p) args rest p
      | (NXT_HTTP_TARGET_DOT, p) \<Rightarrow>
          if after_slash = p
          then target_loop Rest_of_target (rp\<lparr>complex_target := True\<rparr>) after_slash args True p
          else target_loop Continue_target rp after_slash args rest p
      | (NXT_HTTP_TARGET_ARGS_MARK, p) \<Rightarrow> target_loop Rest_of_target rp after_slash (Some (tl p)) True p
      | (NXT_HTTP_TARGET_SPACE, p) \<Rightarrow>
          target_loop Space_after_target (rp\<lparr>target_end := p\<rparr>) after_slash args rest p
      | (NXT_HTTP_TARGET_QUOTE_MARK, p) \<Rightarrow>
          target_loop Rest_of_target (rp\<lparr>quoted_target := True\<rparr>) after_slash args True p
      | (NXT_HTTP_TARGET_HASH, p) \<Rightarrow>
          target_loop Rest_of_target (rp\<lparr>complex_target := True\<rparr>) after_slash args True p
      | (NXT_HTTP_TARGET_AGAIN, p) \<Rightarrow> Inl (Rc NXT_AGAIN, rp\<lparr>target_end := p\<rparr>)
      | (NXT_HTTP_TARGET_BAD, p) \<Rightarrow> Inl (NXT_HTTP_PARSE_INVALID, rp\<lparr>target_end := p\<rparr>))"
| "target_loop Rest_of_target rp after_slash args rest p =
     (case nxt_http_parse_target (tl p) of
        (NXT_HTTP_TARGET_SPACE, p) \<Rightarrow>
          target_loop Space_after_target (rp\<lparr>target_end := p\<rparr>) after_slash args True p
      | (NXT_HTTP_TARGET_HASH, p) \<Rightarrow>
          target_loop Rest_of_target (rp\<lparr>complex_target := True\<rparr>) after_slash args True p
      | (NXT_HTTP_TARGET_AGAIN, p) \<Rightarrow> Inl (Rc NXT_AGAIN, rp\<lparr>target_end := p\<rparr>)
      | (NXT_HTTP_TARGET_BAD, p) \<Rightarrow> Inl (NXT_HTTP_PARSE_INVALID, rp\<lparr>target_end := p\<rparr>)
      | (_, p) \<Rightarrow> target_loop Rest_of_target rp after_slash args True p)"
| "target_loop Space_after_target rp after_slash args rest p =
     (let label = (if rest then Rest_of_target else Continue_target) in
      if length p < 10 then
        let p = dropWhile (\<lambda>ch. ch = c_space) (tl p) in
        if p = [] then Inl (Rc NXT_AGAIN, rp)
        else if version_begins p then Inl (Rc NXT_AGAIN, rp)
        else target_loop label rp after_slash args rest p
      else if p ! 9 \<noteq> c_cr \<and> p ! 9 \<noteq> c_lf then
        if p ! 1 = c_space then target_loop Space_after_target rp after_slash args rest (tl p)
        else target_loop label rp after_slash args rest p
      else Inr (rp, args, p))"
  by pat_completeness auto
termination
  by (relation "measure (\<lambda>(label, rp, after_slash, args, rest, p).
      2 * length p + (if label = Space_after_target then 1 else 0))")
    (auto simp: dropWhile_tl_length dest!: target_tl_length [OF sym] split: if_splits)

declare target_loop.simps [simp del]

text \<open>
  \<^verbatim>\<open>nxt_http_parse_unusual_target\<close>: \<open>Inr\<close> carries the new position.
\<close>

definition nxt_http_parse_unusual_target :: "nxt_str \<Rightarrow> http_rc + nxt_str" where
  "nxt_http_parse_unusual_target p =
     (if hd p = c_space then
        let p = dropWhile (\<lambda>ch. ch = c_space) (tl p) in
        if p = [] then Inl (Rc NXT_AGAIN)
        else if hd p = c_slash then Inr p
        else Inl NXT_HTTP_PARSE_INVALID
      else Inl NXT_HTTP_PARSE_INVALID)"

section \<open>Header fields\<close>

definition NXT_HTTP_MAX_FIELD_NAME :: nat where
  "NXT_HTTP_MAX_FIELD_NAME = 0xFF"

definition NXT_HTTP_MAX_FIELD_VALUE :: nat where
  "NXT_HTTP_MAX_FIELD_VALUE = 0x7FFFFFFF"

definition NXT_HTTP_FIELD_HASH_INIT :: uint32 where
  "NXT_HTTP_FIELD_HASH_INIT = 159406"

definition nxt_http_field_hash_char :: "uint32 \<Rightarrow> u_char \<Rightarrow> uint32" where
  "nxt_http_field_hash_char h c = push_bit 4 h + h + ucast c"

definition nxt_http_field_hash_end :: "uint32 \<Rightarrow> uint32" where
  "nxt_http_field_hash_end h = drop_bit 16 h XOR h"

text \<open>
  \<^verbatim>\<open>nxt_http_parse_field_end\<close>.  It is only called with a character at \<^verbatim>\<open>*pos\<close>, so that the first
  case of the model is never taken.
\<close>

definition field_end_lf ::
  "(nat \<Rightarrow> bool) \<Rightarrow> http_request_parse \<Rightarrow> nxt_str \<Rightarrow> http_rc \<times> http_request_parse \<times> nxt_str" where
  "field_end_lf mem rp pos =
     (if field_name_length rp \<noteq> 0 then
        let stored =
          (if skip_field rp then Some (rp\<lparr>skip_field := False\<rparr>)
           else if \<not> discard_fields rp then
             field_store_add (mem (Suc (length (rp_field_list rp))))
               \<lparr>hf_hash = ucast (nxt_http_field_hash_end (field_hash rp)), hf_skip = False, hf_hopbyhop = False,
                hf_name_length = of_nat (field_name_length rp),
                hf_value_length = of_nat (field_value_length rp),
                hf_name = field_name rp, hf_value = field_value rp\<rparr> rp
           else Some rp)
        in case stored of
             None \<Rightarrow> (Rc NXT_ERROR, rp, pos)
           | Some rp \<Rightarrow>
               (Rc NXT_OK, rp\<lparr>field_hash := NXT_HTTP_FIELD_HASH_INIT, field_name_length := 0,
                  field_value_length := 0, rp_handler := Field_name_handler\<rparr>, pos)
      else (Rc NXT_DONE, rp, pos))"

definition nxt_http_parse_field_end ::
  "(nat \<Rightarrow> bool) \<Rightarrow> http_request_parse \<Rightarrow> nxt_str \<Rightarrow> http_rc \<times> http_request_parse \<times> nxt_str" where
  "nxt_http_parse_field_end mem rp pos =
     (case pos of
        [] \<Rightarrow> (NXT_HTTP_PARSE_INVALID, rp, pos)
      | ch # q \<Rightarrow>
          let p = (if ch = c_cr then q else pos) in
          case p of
            [] \<Rightarrow> (Rc NXT_AGAIN, rp\<lparr>rp_handler := Field_end_handler\<rparr>, pos)
          | ch # r \<Rightarrow>
              if ch = c_lf then field_end_lf mem rp r
              else (NXT_HTTP_PARSE_INVALID, rp, pos))"

definition field_end_test_char :: "unit \<Rightarrow> u_char \<Rightarrow> unit option" where
  "field_end_test_char a ch = (if ch < 0x20 then None else Some a)"

text \<open>\<^verbatim>\<open>nxt_http_lookup_field_end\<close>: sixteen at a time, four at a time, then the last three.\<close>

definition nxt_http_lookup_field_end :: "nxt_str \<Rightarrow> nxt_str" where
  "nxt_http_lookup_field_end p =
     (case unrolled 16 field_end_test_char () p of
        (True, _, q) \<Rightarrow> q
      | (False, _, q) \<Rightarrow>
          (case unrolled 4 field_end_test_char () q of
             (True, _, q) \<Rightarrow> q
           | (False, _, q) \<Rightarrow> snd (snd (test_chars (length q) field_end_test_char () q))))"

text \<open>The loop over the value: it ends at the end of the data, at the end of the line or with an error.\<close>

datatype value_end = Value_again | Value_line nxt_str | Value_invalid

lemma test_chars_length: "length (snd (snd (test_chars n test a p))) \<le> length p"
  by (induction n test a p rule: test_chars.induct) (auto split: option.split intro: le_SucI)

lemma unrolled_length: "length (snd (snd (unrolled n test a p))) \<le> length p"
proof (induction n test a p rule: unrolled.induct)
  case (1 n test a p)
  obtain left b q where t: "test_chars n test a p = (left, b, q)" by (metis prod_cases3)
  then have q: "length q \<le> length p" using test_chars_length [of n test a p] by simp
  show ?case
    using 1 t by (subst unrolled.simps) (cases left, auto intro: order_trans [OF _ q] simp: q)
qed

lemma lookup_field_end_length: "length (nxt_http_lookup_field_end p) \<le> length p"
proof -
  obtain l1 q1 where 1: "unrolled 16 field_end_test_char () p = (l1, (), q1)" by (metis prod_cases3 old.unit.exhaust)
  obtain l2 q2 where 2: "unrolled 4 field_end_test_char () q1 = (l2, (), q2)" by (metis prod_cases3 old.unit.exhaust)
  have "length q1 \<le> length p" "length q2 \<le> length q1"
    using unrolled_length [of 16 field_end_test_char "()" p] unrolled_length [of 4 field_end_test_char "()" q1] 1 2
    by simp_all
  moreover have "length (snd (snd (test_chars (length q2) field_end_test_char () q2))) \<le> length q2"
    by (rule test_chars_length)
  ultimately show ?thesis
    by (cases l1; cases l2) (simp_all add: nxt_http_lookup_field_end_def 1 2)
qed

function value_for :: "nxt_str \<Rightarrow> value_end" where
  "value_for p =
     (case nxt_http_lookup_field_end p of
        [] \<Rightarrow> Value_again
      | ch # q \<Rightarrow>
          if ch = c_cr \<or> ch = c_lf then Value_line (ch # q)
          else if ch \<noteq> c_tab then Value_invalid
          else value_for q)"
  by pat_completeness auto
termination
proof (relation "measure length")
  fix p ch q
  assume "nxt_http_lookup_field_end p = ch # q"
  then show "(q, p) \<in> measure length" using lookup_field_end_length [of p] by simp
qed simp

declare value_for.simps [simp del]

definition is_blank :: "u_char \<Rightarrow> bool" where
  "is_blank ch \<longleftrightarrow> ch = c_space \<or> ch = c_tab"

definition nxt_http_parse_field_value ::
  "(nat \<Rightarrow> bool) \<Rightarrow> http_request_parse \<Rightarrow> nxt_str \<Rightarrow> http_rc \<times> http_request_parse \<times> nxt_str" where
  "nxt_http_parse_field_value mem rp pos =
     (let start = dropWhile is_blank pos in
      if start = [] then (Rc NXT_AGAIN, rp\<lparr>rp_handler := Field_value_handler\<rparr>, [])
      else
        case value_for (drop (field_value_length rp) start) of
          Value_again \<Rightarrow>
            if NXT_HTTP_MAX_FIELD_VALUE < length start then (NXT_HTTP_PARSE_TOO_LARGE_FIELD, rp, start)
            else (Rc NXT_AGAIN,
                  rp\<lparr>field_value_length := length start, rp_handler := Field_value_handler\<rparr>, start)
        | Value_invalid \<Rightarrow> (NXT_HTTP_PARSE_INVALID, rp, pos)
        | Value_line p \<Rightarrow>
            let raw = take (length start - length p) start in
            if 0x7F \<in> set raw then (NXT_HTTP_PARSE_INVALID, rp, pos)
            else
              let value = rev (dropWhile is_blank (rev raw)) in
              if NXT_HTTP_MAX_FIELD_VALUE < length value then (NXT_HTTP_PARSE_TOO_LARGE_FIELD, rp, p)
              else nxt_http_parse_field_end mem
                     (rp\<lparr>field_value_length := length value, field_value := value\<rparr>) p)"

definition normal :: "u_char list" where
  "normal =
     replicate 32 0
     @ [0, 1, 0, 1, 1, 1, 1, 1, 0, 0, 1, 1, 0] @ bytes ''-'' @ [1, 0] @ bytes ''0123456789'' @ [0, 0, 0, 0, 0, 0]
     @ [0] @ bytes ''abcdefghijklmnopqrstuvwxyz'' @ [0, 0, 0, 1, 1]
     @ [1] @ bytes ''abcdefghijklmnopqrstuvwxyz'' @ [0, 1, 0, 1, 0]
     @ replicate 128 0"

text \<open>The macro \<^verbatim>\<open>nxt_field_name_test_char\<close>; its variables are \<^verbatim>\<open>hash\<close> and \<^verbatim>\<open>rp->skip_field\<close>.\<close>

definition field_name_test_char :: "bool \<Rightarrow> uint32 \<times> bool \<Rightarrow> u_char \<Rightarrow> (uint32 \<times> bool) option" where
  "field_name_test_char discard_unsafe v ch =
     (case v of (hash, skip) \<Rightarrow>
        let c = normal ! unat ch in
        if c \<le> 1 then
          if c = 0 then None
          else Some (nxt_http_field_hash_char hash ch, discard_unsafe)
        else Some (nxt_http_field_hash_char hash c, skip))"

definition nxt_http_parse_field_name ::
  "(nat \<Rightarrow> bool) \<Rightarrow> http_request_parse \<Rightarrow> nxt_str \<Rightarrow> http_rc \<times> http_request_parse \<times> nxt_str" where
  "nxt_http_parse_field_name mem rp pos =
     (case scan 8 (field_name_test_char (discard_unsafe_fields rp)) (field_hash rp, skip_field rp)
             (drop (field_name_length rp) pos) of
        (False, (hash, skip), p) \<Rightarrow>
          let rp = rp\<lparr>skip_field := skip\<rparr>; len = length pos in
          if NXT_HTTP_MAX_FIELD_NAME < len then (NXT_HTTP_PARSE_TOO_LARGE_FIELD, rp, pos)
          else (Rc NXT_AGAIN,
                rp\<lparr>field_hash := hash, field_name_length := len, rp_handler := Field_name_handler\<rparr>, pos)
      | (True, (hash, skip), p) \<Rightarrow>
          let rp = rp\<lparr>skip_field := skip\<rparr>; len = length pos - length p in
          if hd p = c_colon then
            if len = 0 then (NXT_HTTP_PARSE_INVALID, rp, pos)
            else if NXT_HTTP_MAX_FIELD_NAME < len then (NXT_HTTP_PARSE_TOO_LARGE_FIELD, rp, pos)
            else nxt_http_parse_field_value mem
                   (rp\<lparr>field_hash := hash, field_name_length := len, field_name := take len pos\<rparr>) (tl p)
          else if len \<noteq> 0 then (NXT_HTTP_PARSE_INVALID, rp, pos)
          else nxt_http_parse_field_end mem rp pos)"

section \<open>The parser\<close>

definition digit_char :: "u_char \<Rightarrow> bool" where
  "digit_char ch \<longleftrightarrow> c_0 \<le> ch \<and> ch \<le> c_9"

text \<open>The end of \<^verbatim>\<open>nxt_http_parse_request_line\<close>, from the check of the version on.\<close>

definition request_line_version ::
  "(nat \<Rightarrow> bool) \<Rightarrow> http_request_parse \<Rightarrow> nxt_str \<Rightarrow> nxt_str option \<Rightarrow> nxt_str \<Rightarrow>
   http_rc \<times> http_request_parse \<times> nxt_str" where
  "request_line_version mem rp pos args p =
     (let ver = take 8 (tl p) in
      if ver = bytes ''HTTP/1.1'' \<or> ver = bytes ''HTTP/1.0''
         \<or> take 7 ver = bytes ''HTTP/1.'' \<and> digit_char (ver ! 7) then
        let rp = rp\<lparr>rp_version := ver\<rparr>; p = drop 9 p in
        if hd p = c_cr \<and> tl p = [] then (Rc NXT_AGAIN, rp, pos)
        else if hd p = c_cr \<and> hd (tl p) \<noteq> c_lf then (NXT_HTTP_PARSE_INVALID, rp, pos)
        else
          let pos = (if hd p = c_cr then drop 2 p else drop 1 p);
              rp = rp\<lparr>request_line_end := p\<rparr>
          in if complex_target rp \<or> quoted_target rp then
               case nxt_http_parse_complex_target (mem 0) rp of
                 (Rc NXT_OK, rp) \<Rightarrow> nxt_http_parse_field_name mem rp pos
               | (rc, rp) \<Rightarrow> (rc, rp, pos)
             else
               let rp = (case args of
                   Some a \<Rightarrow> rp\<lparr>rp_path := take (length (target_start rp) - length a - 1) (target_start rp),
                     rp_args := take (length a - length (target_end rp)) a\<rparr>
                 | None \<Rightarrow> rp\<lparr>rp_path := take (length (target_start rp) - length (target_end rp)) (target_start rp)\<rparr>)
               in nxt_http_parse_field_name mem rp pos
      else if take 5 ver = bytes ''HTTP/'' \<and> digit_char (ver ! 5) \<and> ver ! 6 = c_dot \<and> digit_char (ver ! 7)
      then (NXT_HTTP_PARSE_UNSUPPORTED_VERSION, rp\<lparr>rp_version := ver\<rparr>, pos)
      else (NXT_HTTP_PARSE_INVALID, rp, pos))"

definition nxt_http_parse_request_line ::
  "(nat \<Rightarrow> bool) \<Rightarrow> http_request_parse \<Rightarrow> nxt_str \<Rightarrow> http_rc \<times> http_request_parse \<times> nxt_str" where
  "nxt_http_parse_request_line mem rp pos =
     (case method_for pos pos of
        Method_again method \<Rightarrow> (Rc NXT_AGAIN, rp\<lparr>rp_method := method\<rparr>, pos)
      | Method_invalid method \<Rightarrow> (NXT_HTTP_PARSE_INVALID, rp\<lparr>rp_method := method\<rparr>, pos)
      | Method_space method p \<Rightarrow>
          let rp = rp\<lparr>rp_method := method\<rparr>; p = tl p in
          if p = [] then (Rc NXT_AGAIN, rp, pos)
          else
            case (if hd p \<noteq> c_slash then nxt_http_parse_unusual_target p else Inr p) of
              Inl rc \<Rightarrow> (rc, rp, pos)
            | Inr p \<Rightarrow>
                (case target_loop Continue_target (rp\<lparr>target_start := p\<rparr>) (tl p) None False p of
                   Inl (rc, rp) \<Rightarrow> (rc, rp, pos)
                 | Inr (rp, args, p) \<Rightarrow> request_line_version mem rp pos args p))"

definition nxt_http_parse_request_init :: "http_request_parse \<Rightarrow> nxt_rc \<times> http_request_parse" where
  "nxt_http_parse_request_init rp =
     (NXT_OK, rp\<lparr>num_inline_fields := 0, rp_fields := None, field_hash := NXT_HTTP_FIELD_HASH_INIT\<rparr>)"

text \<open>The call \<^verbatim>\<open>rp->handler(rp, &b->pos, b->free)\<close>.\<close>

definition call_handler ::
  "(nat \<Rightarrow> bool) \<Rightarrow> http_request_parse \<Rightarrow> nxt_str \<Rightarrow> http_rc \<times> http_request_parse \<times> nxt_str" where
  "call_handler mem rp pos =
     (case rp_handler rp of
        Field_name_handler \<Rightarrow> nxt_http_parse_field_name mem rp pos
      | Field_value_handler \<Rightarrow> nxt_http_parse_field_value mem rp pos
      | Field_end_handler \<Rightarrow> nxt_http_parse_field_end mem rp pos
      | _ \<Rightarrow> nxt_http_parse_request_line mem rp pos)"

section \<open>The loop over the handlers ends\<close>

text \<open>A handler that returns \<open>NXT_OK\<close> has consumed something.\<close>

lemma field_end_lf_ok: "field_end_lf mem rp r = (rc, rp', pos') \<Longrightarrow> pos' = r"
  by (auto simp: field_end_lf_def Let_def split: if_splits option.splits)

lemma field_end_shorter:
  "nxt_http_parse_field_end mem rp pos = (Rc NXT_OK, rp', pos') \<Longrightarrow> length pos' < length pos"
  by (auto simp: nxt_http_parse_field_end_def Let_def split: list.splits if_splits dest!: field_end_lf_ok)

text \<open>The loops over a value look for the first control character other than a tab.\<close>

lemma stop_scan_field_end:
  "stop_scan field_end_test_char () p =
     (let q = dropWhile (\<lambda>ch. 0x20 \<le> ch) p in (q \<noteq> [], (), q))"
  by (induction p) (auto simp: field_end_test_char_def Let_def)

lemma lookup_field_end_eq: "nxt_http_lookup_field_end p = dropWhile (\<lambda>ch. 0x20 \<le> ch) p"
proof -
  have "nxt_http_lookup_field_end p =
      snd (snd (rest_chars field_end_test_char
        (case unrolled 16 field_end_test_char () p of
           (True, a, q) \<Rightarrow> (True, a, q) | (False, a, q) \<Rightarrow> unrolled 4 field_end_test_char () q)))"
    by (auto simp: nxt_http_lookup_field_end_def rest_chars_def split: prod.split bool.split)
  also have "\<dots> = snd (snd (rest_chars field_end_test_char (unrolled 16 field_end_test_char () p)))"
  proof -
    obtain l q where u: "unrolled 16 field_end_test_char () p = (l, (), q)"
      by (metis prod_cases3 old.unit.exhaust)
    then show ?thesis
      by (cases l) (simp_all add: unrolled_eq, simp add: rest_chars_def)
  qed
  also have "\<dots> = snd (snd (stop_scan field_end_test_char () p))"
    by (simp add: scan_eq [unfolded scan_def])
  also have "\<dots> = dropWhile (\<lambda>ch. 0x20 \<le> ch) p"
    by (simp add: stop_scan_field_end Let_def)
  finally show ?thesis .
qed

definition value_char :: "u_char \<Rightarrow> bool" where
  "value_char ch \<longleftrightarrow> 0x20 \<le> ch \<or> ch = c_tab"

lemma dropWhile_imp: "(\<And>x. P x \<Longrightarrow> Q x) \<Longrightarrow> dropWhile Q (dropWhile P p) = dropWhile Q p"
  by (induction p) auto

lemma value_for_eq:
  "value_for p =
     (case dropWhile value_char p of
        [] \<Rightarrow> Value_again
      | ch # q \<Rightarrow> if ch = c_cr \<or> ch = c_lf then Value_line (ch # q) else Value_invalid)"
proof (induction p rule: value_for.induct)
  case (1 p)
  define r where "r = dropWhile (\<lambda>ch. 0x20 \<le> ch) p"
  have look: "nxt_http_lookup_field_end p = r" by (simp add: lookup_field_end_eq r_def)
  have drop: "dropWhile value_char p = dropWhile value_char r"
    unfolding r_def by (rule dropWhile_imp [symmetric]) (simp add: value_char_def)
  show ?case
  proof (cases r)
    case Nil
    then show ?thesis by (subst value_for.simps) (simp add: look drop)
  next
    case (Cons ch q)
    then have "\<not> 0x20 \<le> ch" using hd_dropWhile [of "\<lambda>ch. 0x20 \<le> ch" p] by (auto simp: r_def)
    then have "value_char ch \<longleftrightarrow> ch = c_tab" by (simp add: value_char_def)
    with Cons look drop 1 show ?thesis
      by (subst value_for.simps) auto
  qed
qed

lemma value_for_length: "value_for p = Value_line q \<Longrightarrow> length q \<le> length p"
  by (auto simp: value_for_eq length_dropWhile_le split: list.splits if_splits)

lemma field_value_shorter:
  assumes "nxt_http_parse_field_value mem rp pos = (Rc NXT_OK, rp', pos')"
  shows "length pos' < length pos"
proof -
  define start where "start = dropWhile is_blank pos"
  obtain p rp0 where "value_for (drop (field_value_length rp) start) = Value_line p"
    "nxt_http_parse_field_end mem rp0 p = (Rc NXT_OK, rp', pos')"
    using assms unfolding nxt_http_parse_field_value_def Let_def start_def
    by (auto split: if_splits value_end.splits)
  then have "length pos' < length p" "length p \<le> length start"
    using value_for_length [of "drop (field_value_length rp) start" p] by (auto dest: field_end_shorter)
  moreover have "length start \<le> length pos"
    by (simp add: start_def length_dropWhile_le)
  ultimately show ?thesis by simp
qed

lemma stop_scan_drop_length:
  assumes "stop_scan test a (drop n pos) = (True, b, p)"
  shows "p \<noteq> [] \<and> length p \<le> length pos"
proof -
  obtain w where "p \<noteq> []" "drop n pos = w @ p" using stop_scan_suffix [OF assms] by blast
  moreover from this have "length (drop n pos) = length w + length p" by simp
  then have "length p \<le> length pos" by (simp only: length_drop)
  ultimately show ?thesis by simp
qed

text \<open>The three ways out of the loop over a name.\<close>

lemma field_name_cases:
  fixes rp pos
  defines "sc \<equiv> stop_scan (field_name_test_char (discard_unsafe_fields rp)) (field_hash rp, skip_field rp)
      (drop (field_name_length rp) pos)"
  obtains (again) hash skip p where "sc = (False, (hash, skip), p)"
      "nxt_http_parse_field_name mem rp pos =
        (if NXT_HTTP_MAX_FIELD_NAME < length pos
         then (NXT_HTTP_PARSE_TOO_LARGE_FIELD, rp\<lparr>skip_field := skip\<rparr>, pos)
         else (Rc NXT_AGAIN, rp\<lparr>skip_field := skip, field_hash := hash, field_name_length := length pos,
                 rp_handler := Field_name_handler\<rparr>, pos))"
    | (colon) hash skip q where "sc = (True, (hash, skip), c_colon # q)" "length q < length pos"
      "nxt_http_parse_field_name mem rp pos =
        (let len = length pos - length q - 1 in
         if len = 0 then (NXT_HTTP_PARSE_INVALID, rp\<lparr>skip_field := skip\<rparr>, pos)
         else if NXT_HTTP_MAX_FIELD_NAME < len then (NXT_HTTP_PARSE_TOO_LARGE_FIELD, rp\<lparr>skip_field := skip\<rparr>, pos)
         else nxt_http_parse_field_value mem
           (rp\<lparr>skip_field := skip, field_hash := hash, field_name_length := len, field_name := take len pos\<rparr>) q)"
    | (other) hash skip ch q where "sc = (True, (hash, skip), ch # q)" "ch \<noteq> c_colon" "length q < length pos"
      "nxt_http_parse_field_name mem rp pos =
        (if length pos - length q - 1 \<noteq> 0 then (NXT_HTTP_PARSE_INVALID, rp\<lparr>skip_field := skip\<rparr>, pos)
         else nxt_http_parse_field_end mem (rp\<lparr>skip_field := skip\<rparr>) pos)"
proof -
  obtain left hash skip p where sc: "sc = (left, (hash, skip), p)" by (metis surj_pair)
  note sc' = sc [unfolded sc_def, folded scan_eq [of 8]]
  show thesis
  proof (cases left)
    case False
    with again sc sc' show thesis by (simp add: nxt_http_parse_field_name_def Let_def)
  next
    case True
    with sc have "p \<noteq> [] \<and> length p \<le> length pos"
      unfolding sc_def by (intro stop_scan_drop_length) simp
    then have p: "p \<noteq> []" "length p \<le> length pos" by simp_all
    then obtain ch q where q: "p = ch # q" by (cases p) auto
    show thesis
    proof (cases "ch = c_colon")
      case ch: True
      show thesis
        by (rule colon [of hash skip q]) (use sc sc' True ch q p in \<open>simp_all add: nxt_http_parse_field_name_def Let_def\<close>)
    next
      case False
      show thesis
        by (rule other [of hash skip ch q]) (use sc sc' True False q p in \<open>simp_all add: nxt_http_parse_field_name_def Let_def\<close>)
    qed
  qed
qed

lemma field_name_shorter:
  assumes "nxt_http_parse_field_name mem rp pos = (Rc NXT_OK, rp', pos')"
  shows "length pos' < length pos"
proof (cases rule: field_name_cases [where rp = rp and pos = pos and mem = mem])
  case (again hash skip p)
  with assms show ?thesis by (simp split: if_splits)
next
  case (colon hash skip q)
  with assms obtain rp0 where "nxt_http_parse_field_value mem rp0 q = (Rc NXT_OK, rp', pos')"
    by (auto simp: Let_def split: if_splits)
  then show ?thesis using field_value_shorter [of mem rp0 q rp' pos'] colon(2) by simp
next
  case (other hash skip ch q)
  with assms show ?thesis using field_end_shorter [of mem _ pos rp' pos'] by (auto split: if_splits)
qed

text \<open>The characters that end the scan of a target.\<close>

lemma target_chars_table:
  "nxt_http_target_chars = map (\<lambda>n. if n = 0 \<or> n = 10 \<or> n = 13 then 4 else if n = 32 then 1 else if n = 35 then 2
     else if n = 37 then 8 else if n = 46 then 6 else if n = 47 then 5 else if n = 63 then 7 else 0) [0..<256]"
  by code_simp

lemma target_char_value:
  "nxt_http_target_chars ! unat ch =
     (if ch = c_nul \<or> ch = c_lf \<or> ch = c_cr then 4 else if ch = c_space then 1 else if ch = c_hash then 2
      else if ch = c_percent then 8 else if ch = c_dot then 6 else if ch = c_slash then 5
      else if ch = c_question then 7 else 0)"
  by (subst target_chars_table) (simp add: word_unat_eq_iff)

definition bad_char :: "u_char \<Rightarrow> bool" where
  "bad_char ch \<longleftrightarrow> ch = c_nul \<or> ch = c_lf \<or> ch = c_cr"

definition plain_char :: "u_char \<Rightarrow> bool" where
  "plain_char ch \<longleftrightarrow> \<not> bad_char ch \<and> ch \<notin> {c_space, c_hash, c_percent, c_dot, c_slash, c_question}"

fun char_trap :: "u_char \<Rightarrow> target_trap" where
  "char_trap ch =
     (if bad_char ch then NXT_HTTP_TARGET_BAD else if ch = c_space then NXT_HTTP_TARGET_SPACE
      else if ch = c_hash then NXT_HTTP_TARGET_HASH else if ch = c_percent then NXT_HTTP_TARGET_QUOTE_MARK
      else if ch = c_dot then NXT_HTTP_TARGET_DOT else if ch = c_slash then NXT_HTTP_TARGET_SLASH
      else NXT_HTTP_TARGET_ARGS_MARK)"

lemma parse_target_eq:
  "nxt_http_parse_target p =
     (case dropWhile plain_char p of [] \<Rightarrow> (NXT_HTTP_TARGET_AGAIN, p) | ch # q \<Rightarrow> (char_trap ch, ch # q))"
proof -
  have s: "stop_scan target_test_char () p = (let q = dropWhile plain_char p in (q \<noteq> [], (), q))"
    by (induction p) (auto simp: target_test_char_def target_char_value plain_char_def bad_char_def Let_def)
  show ?thesis
  proof (cases "dropWhile plain_char p")
    case Nil
    then show ?thesis by (simp add: nxt_http_parse_target_def scan_eq s del: dropWhile_eq_Nil_conv)
  next
    case (Cons ch q)
    then have "\<not> plain_char ch" using hd_dropWhile [of plain_char p] by simp
    then have "target_trap (nxt_http_target_chars ! unat ch) = char_trap ch"
      by (auto simp: plain_char_def bad_char_def target_char_value target_trap_def)
    then show ?thesis using Cons by (simp add: nxt_http_parse_target_def scan_eq s del: char_trap.simps)
  qed
qed

text \<open>
  A target that the fast path takes as it is: no escape, no \<^verbatim>\<open>?\<close> or \<^verbatim>\<open>#\<close>, and no empty
  segment and no segment that starts with a dot.
\<close>

fun simple :: "nxt_str \<Rightarrow> bool" where
  "simple [] = True"
| "simple (c # s) \<longleftrightarrow> c \<notin> {c_percent, c_question, c_hash}
     \<and> (c = c_slash \<and> s \<noteq> [] \<longrightarrow> hd s \<noteq> c_slash \<and> hd s \<noteq> c_dot) \<and> simple s"

lemma simple_snoc:
  "simple (w @ [c]) \<longleftrightarrow> simple w \<and> c \<notin> {c_percent, c_question, c_hash}
     \<and> (w \<noteq> [] \<and> last w = c_slash \<longrightarrow> c \<noteq> c_slash \<and> c \<noteq> c_dot)"
proof (induction w)
  case (Cons a w)
  then show ?case by (cases w) auto
qed simp

text \<open>What the loop knows when it has scanned \<open>w\<close> and \<open>t\<close> is left.\<close>

definition scanned :: "http_request_parse \<Rightarrow> nxt_str option \<Rightarrow> bool \<Rightarrow> nxt_str \<Rightarrow> nxt_str \<Rightarrow> bool" where
  "scanned rp args rest w t \<longleftrightarrow> complex_target rp \<or> quoted_target rp
     \<or> \<not> rest \<and> args = None \<and> simple w
     \<or> rest \<and> (\<exists>path a. w = path @ c_question # a \<and> args = Some (a @ t) \<and> simple path \<and> c_hash \<notin> set a)"

definition common_char :: "u_char \<Rightarrow> bool" where
  "common_char ch \<longleftrightarrow> plain_char ch \<or> ch = c_space"

lemma scanned_char:
  assumes "scanned rp args rest w (c # t)" and "common_char c"
  shows "scanned rp args rest (w @ [c]) t"
proof -
  have c: "c \<notin> {c_percent, c_question, c_hash, c_slash, c_dot}"
    using assms(2) by (auto simp: common_char_def plain_char_def)
  show ?thesis
    using assms(1) c unfolding scanned_def
    by (elim disjE) (simp_all add: simple_snoc, (intro disjI2, force))
qed

lemma scanned_chars:
  "scanned rp args rest w (u @ t) \<Longrightarrow> list_all common_char u \<Longrightarrow> scanned rp args rest (w @ u) t"
proof (induction u arbitrary: w)
  case (Cons c u)
  then show ?case using scanned_char [of rp args rest w c "u @ t"] Cons.IH [of "w @ [c]"] by simp
qed simp

text \<open>The loop changes only these fields.\<close>

definition same_target :: "http_request_parse \<Rightarrow> http_request_parse \<Rightarrow> bool" where
  "same_target rp rp' \<longleftrightarrow> (\<exists>te ct qt. rp' = rp\<lparr>target_end := te, complex_target := ct, quoted_target := qt\<rparr>)"

lemma same_target_refl [simp]: "same_target rp rp"
  unfolding same_target_def by (rule exI [of _ "target_end rp"], rule exI [of _ "complex_target rp"],
    rule exI [of _ "quoted_target rp"]) simp

lemma same_target_updates [simp]:
  "same_target (rp\<lparr>complex_target := b\<rparr>) rp' \<longleftrightarrow> same_target rp rp'"
  "same_target (rp\<lparr>quoted_target := b\<rparr>) rp' \<longleftrightarrow> same_target rp rp'"
  "same_target (rp\<lparr>target_end := te\<rparr>) rp' \<longleftrightarrow> same_target rp rp'"
  by (auto simp: same_target_def)

lemma same_target_trans: "same_target rp rp' \<Longrightarrow> same_target rp' rp'' \<Longrightarrow> same_target rp rp''"
  by (clarsimp simp: same_target_def) blast

lemma same_target_result [simp]:
  "same_target rp (rp'\<lparr>target_end := te\<rparr>) \<longleftrightarrow> same_target rp rp'"
proof
  assume "same_target rp (rp'\<lparr>target_end := te\<rparr>)"
  moreover have "same_target (rp'\<lparr>target_end := te\<rparr>) rp'" by simp
  ultimately show "same_target rp rp'" by (rule same_target_trans)
next
  assume "same_target rp rp'"
  moreover have "same_target rp' (rp'\<lparr>target_end := te\<rparr>)"
    using same_target_refl [of "rp'\<lparr>target_end := te\<rparr>"] by (simp only: same_target_updates)
  ultimately show "same_target rp (rp'\<lparr>target_end := te\<rparr>)" by (rule same_target_trans)
qed

lemma loop_continue:
  "target_loop Continue_target rp after_slash args rest p =
     (case dropWhile plain_char (tl p) of
        [] \<Rightarrow> Inl (Rc NXT_AGAIN, rp\<lparr>target_end := tl p\<rparr>)
      | ch # q \<Rightarrow>
          if bad_char ch then Inl (NXT_HTTP_PARSE_INVALID, rp\<lparr>target_end := ch # q\<rparr>)
          else if ch = c_space then
            target_loop Space_after_target (rp\<lparr>target_end := ch # q\<rparr>) after_slash args rest (ch # q)
          else if ch = c_hash \<or> (ch = c_dot \<or> ch = c_slash) \<and> after_slash = ch # q then
            target_loop Rest_of_target (rp\<lparr>complex_target := True\<rparr>) after_slash args True (ch # q)
          else if ch = c_percent then
            target_loop Rest_of_target (rp\<lparr>quoted_target := True\<rparr>) after_slash args True (ch # q)
          else if ch = c_dot then target_loop Continue_target rp after_slash args rest (ch # q)
          else if ch = c_slash then target_loop Continue_target rp q args rest (ch # q)
          else target_loop Rest_of_target rp after_slash (Some q) True (ch # q))"
proof (cases "dropWhile plain_char (tl p)")
  case Nil
  then show ?thesis by (subst target_loop.simps) (simp add: parse_target_eq del: dropWhile_eq_Nil_conv)
next
  case (Cons ch q)
  then show ?thesis by (subst target_loop.simps) (auto simp: parse_target_eq bad_char_def)
qed

lemma loop_rest:
  "target_loop Rest_of_target rp after_slash args rest p =
     (case dropWhile plain_char (tl p) of
        [] \<Rightarrow> Inl (Rc NXT_AGAIN, rp\<lparr>target_end := tl p\<rparr>)
      | ch # q \<Rightarrow>
          if bad_char ch then Inl (NXT_HTTP_PARSE_INVALID, rp\<lparr>target_end := ch # q\<rparr>)
          else if ch = c_space then
            target_loop Space_after_target (rp\<lparr>target_end := ch # q\<rparr>) after_slash args True (ch # q)
          else if ch = c_hash then
            target_loop Rest_of_target (rp\<lparr>complex_target := True\<rparr>) after_slash args True (ch # q)
          else target_loop Rest_of_target rp after_slash args True (ch # q))"
proof (cases "dropWhile plain_char (tl p)")
  case Nil
  then show ?thesis by (subst target_loop.simps) (simp add: parse_target_eq del: dropWhile_eq_Nil_conv)
next
  case (Cons ch q)
  then show ?thesis by (subst target_loop.simps) (auto simp: parse_target_eq bad_char_def)
qed

text \<open>
  From a position in the target the loop reaches the next space, the end of the data or a
  character that is not allowed.
\<close>

definition run_char :: "u_char \<Rightarrow> bool" where
  "run_char ch \<longleftrightarrow> \<not> bad_char ch \<and> ch \<noteq> c_space"

lemma run_char_skip: "dropWhile run_char (dropWhile plain_char p) = dropWhile run_char p"
  by (rule dropWhile_imp) (auto simp: plain_char_def run_char_def)

text \<open>What the loop knows at \<^verbatim>\<open>continue_target\<close> and at \<^verbatim>\<open>rest_of_target\<close>, where it has scanned \<open>w\<close>
  and the first character of \<open>p\<close>.\<close>

definition scanning :: "target_label \<Rightarrow> http_request_parse \<Rightarrow> nxt_str \<Rightarrow> nxt_str option \<Rightarrow> bool \<Rightarrow> nxt_str \<Rightarrow> nxt_str \<Rightarrow> bool" where
  "scanning label rp after_slash args rest w p \<longleftrightarrow> p \<noteq> [] \<and> (complex_target rp \<or> quoted_target rp
     \<or> scanned rp args rest (w @ [hd p]) (tl p) \<and> (rest \<longleftrightarrow> label = Rest_of_target)
       \<and> (label = Continue_target \<longrightarrow> length (tl p) \<le> length after_slash \<and> (after_slash = tl p \<longleftrightarrow> hd p = c_slash)))"

lemma scanned_flags: "complex_target rp \<or> quoted_target rp \<Longrightarrow> scanned rp args rest w t"
  by (auto simp: scanned_def)

lemma scanning_flags: "complex_target rp \<or> quoted_target rp \<Longrightarrow> p \<noteq> [] \<Longrightarrow> scanning label rp after_slash args rest w p"
  by (auto simp: scanning_def)

lemma scanning_run:
  assumes "scanning label rp after_slash args rest w p" and "dropWhile plain_char (tl p) = ch # q"
  shows "\<exists>u. tl p = u @ ch # q \<and> list_all plain_char u \<and> scanned rp args rest (w @ hd p # u) (ch # q)"
proof -
  define u where "u = takeWhile plain_char (tl p)"
  have tl: "tl p = u @ ch # q" unfolding u_def using assms(2) by (metis takeWhile_dropWhile_id)
  have u: "list_all plain_char u" unfolding u_def by (auto simp: list_all_iff dest: set_takeWhileD)
  have "scanned rp args rest (w @ [hd p]) (tl p)"
    using assms(1) scanned_flags by (auto simp: scanning_def)
  then have "scanned rp args rest ((w @ [hd p]) @ u) (ch # q)"
    using u scanned_chars [of rp args rest "w @ [hd p]" u "ch # q"]
    by (auto simp: tl list_all_iff common_char_def)
  then show ?thesis using tl u by auto
qed

lemma continue_step:
  assumes "scanning Continue_target rp after_slash args rest w p" and "tl p = u @ ch # q"
    and "list_all plain_char u" and "scanned rp args rest (w @ hd p # u) (ch # q)"
  defines "v \<equiv> w @ hd p # u"
  shows "ch = c_dot \<Longrightarrow> after_slash \<noteq> ch # q \<Longrightarrow> scanning Continue_target rp after_slash args rest v (ch # q)"
    and "ch = c_slash \<Longrightarrow> after_slash \<noteq> ch # q \<Longrightarrow> scanning Continue_target rp q args rest v (ch # q)"
    and "ch = c_question \<Longrightarrow> scanning Rest_of_target rp after_slash (Some q) True v (ch # q)"
proof -
  have "scanning Continue_target rp after_slash args rest v (ch # q)
      \<and> scanning Continue_target rp q args rest v (ch # q)
      \<and> scanning Rest_of_target rp after_slash (Some q) True v (ch # q)"
    if "complex_target rp \<or> quoted_target rp"
    using that scanning_flags by auto
  moreover
  {
    assume flags: "\<not> (complex_target rp \<or> quoted_target rp)"
    have inv: "\<not> rest" "length (tl p) \<le> length after_slash" "after_slash = tl p \<longleftrightarrow> hd p = c_slash"
      using assms(1) flags by (auto simp: scanning_def)
    have sim: "args = None" "simple v"
      using assms(4) flags inv(1) by (auto simp: scanned_def v_def)
    have last: "last v \<noteq> c_slash" if "after_slash \<noteq> ch # q"
    proof (cases "u = []")
      case True
      then show ?thesis using that inv(3) assms(2) by (auto simp: v_def)
    next
      case False
      then have "plain_char (last u)" using assms(3) by (simp add: list_all_iff)
      then show ?thesis using False by (auto simp: v_def plain_char_def)
    qed
    have ext: "simple (v @ [ch])" if "ch = c_dot \<or> ch = c_slash" "after_slash \<noteq> ch # q"
      using that sim(2) last by (auto simp: simple_snoc)
    have len: "length q < length after_slash" using inv(2) assms(2) by simp
    have 1: "scanning Continue_target rp after_slash args rest v (ch # q)" if "ch = c_dot" "after_slash \<noteq> ch # q"
      using that ext sim(1) inv(1) len by (auto simp: scanning_def scanned_def)
    have 2: "scanning Continue_target rp q args rest v (ch # q)" if "ch = c_slash" "after_slash \<noteq> ch # q"
      using that ext sim(1) inv(1) by (auto simp: scanning_def scanned_def)
    have 3: "scanning Rest_of_target rp after_slash (Some q) True v (ch # q)" if "ch = c_question"
      using that sim(2) by (auto simp: scanning_def scanned_def)
    note 1 2 3
  }
  ultimately show "ch = c_dot \<Longrightarrow> after_slash \<noteq> ch # q \<Longrightarrow> scanning Continue_target rp after_slash args rest v (ch # q)"
    and "ch = c_slash \<Longrightarrow> after_slash \<noteq> ch # q \<Longrightarrow> scanning Continue_target rp q args rest v (ch # q)"
    and "ch = c_question \<Longrightarrow> scanning Rest_of_target rp after_slash (Some q) True v (ch # q)"
    by blast+
qed

lemma rest_step:
  assumes "scanning Rest_of_target rp after_slash args rest w p"
    and "scanned rp args rest v (ch # q)" and "ch \<noteq> c_hash"
  shows "scanning Rest_of_target rp after_slash args True v (ch # q)"
proof (cases "complex_target rp \<or> quoted_target rp")
  case True
  then show ?thesis by (simp add: scanning_flags)
next
  case False
  with assms(1) have rest by (auto simp: scanning_def)
  with assms(2) False obtain path a where
    "v = path @ c_question # a" "args = Some (a @ ch # q)" "simple path" "c_hash \<notin> set a"
    by (auto simp: scanned_def)
  then have "v @ [ch] = path @ c_question # (a @ [ch])" "args = Some ((a @ [ch]) @ q)"
    "c_hash \<notin> set (a @ [ch])" using assms(3) by auto
  with \<open>simple path\<close> have "scanned rp args True (v @ [ch]) q"
    unfolding scanned_def by blast
  then show ?thesis by (simp add: scanning_def)
qed

definition at_space :: "http_request_parse \<Rightarrow> nxt_str \<Rightarrow> nxt_str option \<Rightarrow> bool \<Rightarrow> nxt_str \<Rightarrow> nxt_str \<Rightarrow> bool" where
  "at_space rp after_slash args rest v r \<longleftrightarrow> scanned rp args rest v r
     \<and> (complex_target rp \<or> quoted_target rp \<or> rest \<or> length r \<le> length after_slash)"

definition scan_outcome ::
  "target_label \<Rightarrow> http_request_parse \<Rightarrow> nxt_str \<Rightarrow> nxt_str option \<Rightarrow> bool \<Rightarrow> nxt_str \<Rightarrow> nxt_str \<Rightarrow> bool" where
  "scan_outcome label rp after_slash args rest p r \<longleftrightarrow>
     (case r of
        [] \<Rightarrow> \<exists>rp'. target_loop label rp after_slash args rest p = Inl (Rc NXT_AGAIN, rp') \<and> same_target rp rp'
      | ch # q \<Rightarrow>
          if bad_char ch then
            \<exists>rp'. target_loop label rp after_slash args rest p = Inl (NXT_HTTP_PARSE_INVALID, rp') \<and> same_target rp rp'
          else \<exists>rp' after_slash' args' rest'.
            target_loop label rp after_slash args rest p = target_loop Space_after_target rp' after_slash' args' rest' r
            \<and> same_target rp rp' \<and> target_end rp' = r
            \<and> (\<forall>w. scanning label rp after_slash args rest w p \<longrightarrow>
                 (\<exists>v. w @ p = v @ r \<and> at_space rp' after_slash' args' rest' v r)))"

lemma scan_outcome_step:
  assumes "target_loop label rp after_slash args rest p = target_loop label1 rp1 after_slash1 args1 rest1 p1"
    and "scan_outcome label1 rp1 after_slash1 args1 rest1 p1 r" and "same_target rp rp1"
    and "\<And>w. scanning label rp after_slash args rest w p \<Longrightarrow>
      \<exists>w1. w @ p = w1 @ p1 \<and> scanning label1 rp1 after_slash1 args1 rest1 w1 p1"
  shows "scan_outcome label rp after_slash args rest p r"
proof (cases r)
  case Nil
  with assms(1-3) same_target_trans [OF assms(3)] show ?thesis
    by (auto simp: scan_outcome_def)
next
  case (Cons ch q)
  show ?thesis
  proof (cases "bad_char ch")
    case True
    with Cons assms(1-3) same_target_trans [OF assms(3)] show ?thesis
      by (auto simp: scan_outcome_def)
  next
    case False
    with assms(2) Cons obtain rp' after_slash' args' rest' where r:
      "target_loop label1 rp1 after_slash1 args1 rest1 p1 = target_loop Space_after_target rp' after_slash' args' rest' r"
      "same_target rp1 rp'" "target_end rp' = r"
      "\<And>w. scanning label1 rp1 after_slash1 args1 rest1 w p1 \<Longrightarrow>
         \<exists>v. w @ p1 = v @ r \<and> at_space rp' after_slash' args' rest' v r"
      by (auto simp: scan_outcome_def)
    have "\<exists>v. w @ p = v @ r \<and> at_space rp' after_slash' args' rest' v r" if w: "scanning label rp after_slash args rest w p" for w
    proof -
      obtain w1 where "w @ p = w1 @ p1" "scanning label1 rp1 after_slash1 args1 rest1 w1 p1"
        using assms(4) [OF w] by blast
      with r(4) [of w1] show ?thesis by simp
    qed
    with r assms(1) same_target_trans [OF assms(3) r(2)] Cons False show ?thesis
      unfolding scan_outcome_def by (simp only: list.case if_False) blast
  qed
qed

lemma scan_next:
  assumes "label \<noteq> Space_after_target" and "dropWhile plain_char (tl p) = ch # q"
    and "\<not> bad_char ch" and "ch \<noteq> c_space" and "ch \<in> {c_hash, c_percent, c_dot, c_slash, c_question}"
  shows "\<exists>label1 rp1 after_slash1 args1 rest1. label1 \<noteq> Space_after_target
    \<and> target_loop label rp after_slash args rest p = target_loop label1 rp1 after_slash1 args1 rest1 (ch # q)
    \<and> same_target rp rp1
    \<and> (\<forall>w u. scanning label rp after_slash args rest w p \<and> tl p = u @ ch # q \<and> list_all plain_char u
         \<and> scanned rp args rest (w @ hd p # u) (ch # q)
         \<longrightarrow> scanning label1 rp1 after_slash1 args1 rest1 (w @ hd p # u) (ch # q))"
    (is "\<exists>label1 rp1 after_slash1 args1 rest1. ?P label1 rp1 after_slash1 args1 rest1")
proof -
  have flag: "same_target rp (rp\<lparr>complex_target := True\<rparr>)" "same_target rp (rp\<lparr>quoted_target := True\<rparr>)"
    using same_target_refl [of "rp\<lparr>complex_target := True\<rparr>"] same_target_refl [of "rp\<lparr>quoted_target := True\<rparr>"]
    by (simp_all only: same_target_updates)
  show ?thesis
  proof (cases label)
    case Rest_of_target
    have "?P Rest_of_target (if ch = c_hash then rp\<lparr>complex_target := True\<rparr> else rp) after_slash args True"
      using assms Rest_of_target flag rest_step [of rp after_slash args rest _ p _ ch q]
      by (auto simp: loop_rest intro: scanning_flags)
    then show ?thesis by blast
  next
    case Continue_target
    note step = continue_step [of rp after_slash args rest _ p _ ch q]
    consider "ch = c_hash \<or> (ch = c_dot \<or> ch = c_slash) \<and> after_slash = ch # q" | "ch = c_percent"
      | "ch = c_dot" "after_slash \<noteq> ch # q" | "ch = c_slash" "after_slash \<noteq> ch # q" | "ch = c_question"
      using assms(5) by blast
    then show ?thesis
    proof cases
      case 1
      then have "?P Rest_of_target (rp\<lparr>complex_target := True\<rparr>) after_slash args True"
        using assms Continue_target flag by (auto simp: loop_continue intro: scanning_flags)
      then show ?thesis by blast
    next
      case 2
      then have "?P Rest_of_target (rp\<lparr>quoted_target := True\<rparr>) after_slash args True"
        using assms Continue_target flag by (auto simp: loop_continue intro: scanning_flags)
      then show ?thesis by blast
    next
      case 3
      then have "?P Continue_target rp after_slash args rest"
        using assms Continue_target step(1) by (simp add: loop_continue)
      then show ?thesis by blast
    next
      case 4
      then have "?P Continue_target rp q args rest"
        using assms Continue_target step(2) by (simp add: loop_continue)
      then show ?thesis by blast
    next
      case 5
      then have "?P Rest_of_target rp after_slash (Some q) True"
        using assms Continue_target step(3) by (simp add: loop_continue)
      then show ?thesis by blast
    qed
  qed (use assms in simp)
qed

lemma target_scan:
  assumes "label \<noteq> Space_after_target" and "p \<noteq> []"
  shows "scan_outcome label rp after_slash args rest p (dropWhile run_char (tl p))"
  using assms
proof (induction "length p" arbitrary: label rp after_slash args rest p rule: less_induct)
  case less
  show ?case
  proof (cases "dropWhile plain_char (tl p)")
    case Nil
    then have "dropWhile run_char (tl p) = []"
      using run_char_skip [of "tl p"] by (metis dropWhile.simps(1))
    with Nil less.prems show ?thesis
      by (cases label) (auto simp: scan_outcome_def loop_continue loop_rest simp del: dropWhile_eq_Nil_conv)
  next
    case (Cons ch q)
    have len: "length (ch # q) < length p"
      using Cons less.prems(2) length_dropWhile_le [of plain_char "tl p"] by (cases p) auto
    have run: "dropWhile run_char (tl p) = dropWhile run_char (ch # q)"
      using run_char_skip [of "tl p"] Cons by simp
    have w: "w @ p = (w @ hd p # u) @ ch # q" if "tl p = u @ ch # q" for w u
      using that less.prems(2) by (cases p) auto
    note sr = scanning_run [OF _ Cons]
    consider "bad_char ch" | "ch = c_space" | "run_char ch" by (auto simp: run_char_def)
    then show ?thesis
    proof cases
      case 1
      with Cons run less.prems show ?thesis
        by (cases label) (auto simp: scan_outcome_def loop_continue loop_rest run_char_def)
    next
      case 2
      define rp' where "rp' = rp\<lparr>target_end := ch # q\<rparr>"
      define rest' where "rest' = (if label = Rest_of_target then True else rest)"
      have go: "target_loop label rp after_slash args rest p =
          target_loop Space_after_target rp' after_slash args rest' (ch # q)"
        using 2 Cons less.prems by (cases label) (auto simp: loop_continue loop_rest rp'_def rest'_def bad_char_def)
      have all: "\<exists>v. w @ p = v @ ch # q \<and> at_space rp' after_slash args rest' v (ch # q)"
        if s: "scanning label rp after_slash args rest w p" for w
      proof -
        obtain u where u: "tl p = u @ ch # q" "scanned rp args rest (w @ hd p # u) (ch # q)"
          using sr [OF s] by blast
        have "scanned rp' args rest' (w @ hd p # u) (ch # q)"
          using u(2) s by (auto simp: scanned_def scanning_def rp'_def rest'_def split: if_splits)
        moreover have "complex_target rp \<or> quoted_target rp \<or> rest' \<or> length (ch # q) \<le> length after_slash"
          using s u(1) less.prems(1) by (cases label) (auto simp: scanning_def rest'_def)
        ultimately have "at_space rp' after_slash args rest' (w @ hd p # u) (ch # q)"
          by (simp add: at_space_def rp'_def)
        with w [OF u(1)] show ?thesis by blast
      qed
      have "dropWhile run_char (tl p) = ch # q" "\<not> bad_char ch"
        using 2 run by (simp_all add: run_char_def bad_char_def)
      moreover have "same_target rp rp'" "target_end rp' = ch # q" by (simp_all add: rp'_def)
      ultimately show ?thesis
        using go all unfolding scan_outcome_def by (simp only: list.case if_False) blast
    next
      case 3
      then have run': "dropWhile run_char (tl p) = dropWhile run_char (tl (ch # q))" using run by simp
      have ch: "\<not> bad_char ch" "ch \<noteq> c_space" using 3 by (simp_all add: run_char_def)
      have "\<not> plain_char ch" using Cons hd_dropWhile [of plain_char "tl p"] by simp
      with ch have ch': "ch \<in> {c_hash, c_percent, c_dot, c_slash, c_question}" by (auto simp: plain_char_def)
      have "\<exists>label1 rp1 after_slash1 args1 rest1. label1 \<noteq> Space_after_target
          \<and> target_loop label rp after_slash args rest p = target_loop label1 rp1 after_slash1 args1 rest1 (ch # q)
          \<and> same_target rp rp1
          \<and> (\<forall>w u. scanning label rp after_slash args rest w p \<and> tl p = u @ ch # q \<and> list_all plain_char u
               \<and> scanned rp args rest (w @ hd p # u) (ch # q)
               \<longrightarrow> scanning label1 rp1 after_slash1 args1 rest1 (w @ hd p # u) (ch # q))"
        using scan_next [OF less.prems(1) Cons ch ch'] by blast
      then obtain label1 rp1 after_slash1 args1 rest1 where n: "label1 \<noteq> Space_after_target"
        "target_loop label rp after_slash args rest p = target_loop label1 rp1 after_slash1 args1 rest1 (ch # q)"
        "same_target rp rp1"
        "\<And>w u. scanning label rp after_slash args rest w p \<Longrightarrow> tl p = u @ ch # q \<Longrightarrow> list_all plain_char u \<Longrightarrow>
           scanned rp args rest (w @ hd p # u) (ch # q) \<Longrightarrow>
           scanning label1 rp1 after_slash1 args1 rest1 (w @ hd p # u) (ch # q)" by blast
      have "scan_outcome label1 rp1 after_slash1 args1 rest1 (ch # q) (dropWhile run_char (tl (ch # q)))"
        using less.hyps [OF len n(1)] by simp
      then show ?thesis
        unfolding run'
      proof (rule scan_outcome_step [OF n(2) _ n(3)])
        fix w
        assume s: "scanning label rp after_slash args rest w p"
        obtain u where u: "tl p = u @ ch # q" "list_all plain_char u" "scanned rp args rest (w @ hd p # u) (ch # q)"
          using sr [OF s] by blast
        show "\<exists>w1. w @ p = w1 @ ch # q \<and> scanning label1 rp1 after_slash1 args1 rest1 w1 (ch # q)"
          using n(4) [OF s u] w [OF u(1)] by blast
      qed
    qed
  qed
qed

text \<open>
  Where the version begins: \<open>accept_pos te p\<close> looks from the space \<open>p\<close> on for a space that is nine
  characters in front of the end of a line.  \<open>te\<close> is the end of the target if this is the one.
\<close>

function accept_pos :: "nxt_str \<Rightarrow> nxt_str \<Rightarrow> (nxt_str \<times> nxt_str) option" where
  "accept_pos te p =
     (if length p < 10 then None
      else if p ! 9 \<noteq> c_cr \<and> p ! 9 \<noteq> c_lf then
        if p ! 1 = c_space then accept_pos te (tl p)
        else
          case dropWhile run_char (tl p) of
            [] \<Rightarrow> None
          | ch # q \<Rightarrow> if bad_char ch then None else accept_pos (ch # q) (ch # q)
      else Some (te, p))"
  by pat_completeness auto
termination
proof (relation "measure (\<lambda>(te, p). length p)")
  fix te p :: nxt_str and ch q
  assume *: "\<not> length p < 10" "dropWhile run_char (tl p) = ch # q"
  then have "length (ch # q) \<le> length (tl p)" by (metis length_dropWhile_le)
  with * show "((ch # q, ch # q), te, p) \<in> measure (\<lambda>(te, p). length p)" by simp
qed auto

declare accept_pos.simps [simp del]

lemma scan_stops_at_space: "dropWhile run_char s = ch # q \<Longrightarrow> \<not> bad_char ch \<Longrightarrow> ch = c_space"
  using hd_dropWhile [of run_char s] by (simp add: run_char_def)

lemma loop_space:
  "target_loop Space_after_target rp after_slash args rest p =
     (let label = (if rest then Rest_of_target else Continue_target);
          d = dropWhile (\<lambda>ch. ch = c_space) (tl p) in
      if length p < 10 then
        if d = [] \<or> version_begins d then Inl (Rc NXT_AGAIN, rp)
        else target_loop label rp after_slash args rest d
      else if p ! 9 \<noteq> c_cr \<and> p ! 9 \<noteq> c_lf then
        if p ! 1 = c_space then target_loop Space_after_target rp after_slash args rest (tl p)
        else target_loop label rp after_slash args rest p
      else Inr (rp, args, p))"
  by (subst target_loop.simps) (simp add: Let_def)

text \<open>Fewer than ten characters are never enough.\<close>

lemma target_loop_short:
  "length p < 10 \<Longrightarrow> p \<noteq> [] \<Longrightarrow> \<exists>rc rp'. target_loop label rp after_slash args rest p = Inl (rc, rp')
     \<and> same_target rp rp' \<and> rc \<in> {Rc NXT_AGAIN, NXT_HTTP_PARSE_INVALID}"
proof (induction "2 * length p + (if label = Space_after_target then 1 else 0)"
    arbitrary: label rp after_slash args rest p rule: less_induct)
  case less
  show ?case
  proof (cases "label = Space_after_target")
    case True
    define d where "d = dropWhile (\<lambda>ch. ch = c_space) (tl p)"
    define lab where "lab = (if rest then Rest_of_target else Continue_target)"
    have run: "target_loop label rp after_slash args rest p =
        (if d = [] \<or> version_begins d then Inl (Rc NXT_AGAIN, rp)
         else target_loop lab rp after_slash args rest d)"
      using less.prems True by (simp add: loop_space Let_def d_def lab_def)
    have "length d < length p" using less.prems(2) length_dropWhile_le [of "\<lambda>ch. ch = c_space" "tl p"]
      by (cases p) (auto simp: d_def)
    moreover have "lab \<noteq> Space_after_target" by (simp add: lab_def)
    ultimately show ?thesis
      using less.hyps [of d lab rp after_slash args rest] less.prems(1) True run
      by (cases "d = [] \<or> version_begins d") auto
  next
    case False
    note sc = target_scan [OF False less.prems(2), of rp after_slash args rest]
    show ?thesis
    proof (cases "dropWhile run_char (tl p)")
      case Nil
      with sc show ?thesis by (auto simp: scan_outcome_def)
    next
      case (Cons ch q)
      have len: "length (ch # q) < length p"
        using Cons less.prems(2) length_dropWhile_le [of run_char "tl p"] by (cases p) auto
      show ?thesis
      proof (cases "bad_char ch")
        case True
        with sc Cons show ?thesis by (auto simp: scan_outcome_def)
      next
        case nb: False
        with sc Cons obtain rp' after_slash' args' rest' where r:
          "target_loop label rp after_slash args rest p = target_loop Space_after_target rp' after_slash' args' rest' (ch # q)"
          "same_target rp rp'" by (auto simp: scan_outcome_def)
        have "\<exists>rc rp''. target_loop Space_after_target rp' after_slash' args' rest' (ch # q) = Inl (rc, rp'')
           \<and> same_target rp' rp'' \<and> rc \<in> {Rc NXT_AGAIN, NXT_HTTP_PARSE_INVALID}"
          using less.hyps [of "ch # q" Space_after_target rp' after_slash' args' rest'] len less.prems(1) False by simp
        with r same_target_trans [OF r(2)] show ?thesis by auto
      qed
    qed
  qed
qed

text \<open>Without the end of a line the loop asks for more.\<close>

lemma target_loop_no_bad:
  "list_all (\<lambda>c. \<not> bad_char c) p \<Longrightarrow> p \<noteq> [] \<Longrightarrow>
   \<exists>rp'. target_loop label rp after_slash args rest p = Inl (Rc NXT_AGAIN, rp') \<and> same_target rp rp'"
proof (induction "2 * length p + (if label = Space_after_target then 1 else 0)"
    arbitrary: label rp after_slash args rest p rule: less_induct)
  case less
  have tl: "list_all (\<lambda>c. \<not> bad_char c) (dropWhile P (tl p))" for P
    using less.prems by (cases p) (auto simp: list_all_iff dest: set_dropWhileD)
  show ?case
  proof (cases "label = Space_after_target")
    case True
    define lab where "lab = (if rest then Rest_of_target else Continue_target)"
    define d where "d = dropWhile (\<lambda>ch. ch = c_space) (tl p)"
    have lab: "lab \<noteq> Space_after_target" by (simp add: lab_def)
    have "length d \<le> length (tl p)" unfolding d_def by (rule length_dropWhile_le)
    then have d: "length d < length p" using less.prems(2) by (cases p) auto
    have nine: "p ! 9 \<noteq> c_cr \<and> p ! 9 \<noteq> c_lf" if "10 \<le> length p"
      using less.prems(1) that nth_mem [of 9 p] by (auto simp: list_all_iff bad_char_def)
    have "tl p \<noteq> []" if "10 \<le> length p" using that by (cases p) auto
    then show ?thesis
      using less.hyps [of d lab rp after_slash args rest] less.hyps [of p lab rp after_slash args rest]
        less.hyps [of "tl p" Space_after_target rp after_slash args rest] less.prems
        True lab d nine tl [of "\<lambda>ch. ch = c_space"] tl [of "\<lambda>ch. False"]
      by (cases "length p < 10")
        (auto simp: loop_space [of _ _ _ _ p] Let_def d_def [symmetric] lab_def [symmetric])
  next
    case False
    note sc = target_scan [OF False less.prems(2), of rp after_slash args rest]
    show ?thesis
    proof (cases "dropWhile run_char (tl p)")
      case Nil
      with sc show ?thesis by (auto simp: scan_outcome_def)
    next
      case (Cons ch q)
      have nb: "\<not> bad_char ch" "list_all (\<lambda>c. \<not> bad_char c) (ch # q)" using tl [of run_char] Cons by simp_all
      have len: "length (ch # q) < length p"
        using Cons less.prems(2) length_dropWhile_le [of run_char "tl p"] by (cases p) auto
      from sc Cons nb(1) obtain rp' after_slash' args' rest' where r:
        "target_loop label rp after_slash args rest p = target_loop Space_after_target rp' after_slash' args' rest' (ch # q)"
        "same_target rp rp'" by (auto simp: scan_outcome_def)
      have "\<exists>rp''. target_loop Space_after_target rp' after_slash' args' rest' (ch # q) = Inl (Rc NXT_AGAIN, rp'')
         \<and> same_target rp' rp''"
        using less.hyps [of "ch # q" Space_after_target rp' after_slash' args' rest'] len False nb by simp
      with r same_target_trans [OF r(2)] show ?thesis by auto
    qed
  qed
qed

lemma at_space_scanning:
  assumes "at_space rp after_slash args rest v te" and "te = replicate k c_space @ p" and "p \<noteq> []" and "hd p = c_space"
  shows "scanning (if rest then Rest_of_target else Continue_target) rp after_slash args rest
    (v @ replicate k c_space) p"
proof -
  obtain q where p: "p = c_space # q" using assms(3,4) by (cases p) auto
  have "scanned rp args rest (v @ replicate k c_space @ [c_space]) q"
    using assms(1,2) scanned_chars [of rp args rest v "replicate k c_space @ [c_space]" q]
    by (simp add: p at_space_def common_char_def list_all_iff)
  then show ?thesis
    using assms(1,2) by (auto simp: scanning_def at_space_def p)
qed

lemma loop_accept:
  assumes "p \<noteq> []" and "hd p = c_space" and "target_end rp = replicate k c_space @ p"
  shows "case accept_pos (target_end rp) p of
      None \<Rightarrow> \<exists>rc rp'. target_loop Space_after_target rp after_slash args rest p = Inl (rc, rp')
        \<and> same_target rp rp' \<and> rc \<in> {Rc NXT_AGAIN, NXT_HTTP_PARSE_INVALID}
    | Some (te, q) \<Rightarrow> \<exists>rp' after_slash' args' rest'. target_loop Space_after_target rp after_slash args rest p = Inr (rp', args', q)
        \<and> same_target rp rp' \<and> target_end rp' = te
        \<and> (\<forall>v. at_space rp after_slash args rest v (target_end rp) \<longrightarrow>
             (\<exists>v'. v @ target_end rp = v' @ te \<and> at_space rp' after_slash' args' rest' v' te))"
  using assms
proof (induction "length p" arbitrary: rp after_slash args rest p k rule: less_induct)
  case less
  define te where "te = target_end rp"
  define lab where "lab = (if rest then Rest_of_target else Continue_target)"
  have lab: "lab \<noteq> Space_after_target" by (simp add: lab_def)
  consider "length p < 10" | "10 \<le> length p" "p ! 9 \<noteq> c_cr \<and> p ! 9 \<noteq> c_lf" "p ! 1 = c_space"
    | "10 \<le> length p" "p ! 9 \<noteq> c_cr \<and> p ! 9 \<noteq> c_lf" "p ! 1 \<noteq> c_space"
    | "10 \<le> length p" "\<not> (p ! 9 \<noteq> c_cr \<and> p ! 9 \<noteq> c_lf)"
    by linarith
  then show ?case
  proof cases
    case 1
    then show ?thesis
      using target_loop_short [OF 1 less.prems(1), of Space_after_target rp after_slash args rest]
      by (auto simp: accept_pos.simps)
  next
    case 2
    obtain q where p: "p = c_space # q" using less.prems by (cases p) auto
    with 2 have "q \<noteq> [] \<and> hd q = c_space" by (cases q) auto
    then have q: "q \<noteq> []" "hd q = c_space" by simp_all
    have "target_end rp = replicate (k + 1) c_space @ q"
      using less.prems(3) p by (simp add: replicate_app_Cons_same)
    moreover have "tl p = q" by (simp add: p)
    then have eqs: "accept_pos (target_end rp) p = accept_pos (target_end rp) q"
      "target_loop Space_after_target rp after_slash args rest p = target_loop Space_after_target rp after_slash args rest q"
      using 2 by (simp_all add: accept_pos.simps [of _ p] loop_space [of _ _ _ _ p] Let_def)
    moreover have "length q < length p" by (simp add: p)
    ultimately show ?thesis
      unfolding eqs using less.hyps [of q rp "k + 1" after_slash args rest] q by blast
  next
    case 3
    have go: "target_loop Space_after_target rp after_slash args rest p = target_loop lab rp after_slash args rest p"
      using 3 by (simp add: loop_space [of _ _ _ _ p] Let_def lab_def)
    note sc = target_scan [OF lab less.prems(1), of rp after_slash args rest]
    show ?thesis
    proof (cases "dropWhile run_char (tl p)")
      case Nil
      with sc go 3 show ?thesis
        by (auto simp: scan_outcome_def accept_pos.simps [of _ p] simp del: dropWhile_eq_Nil_conv)
    next
      case (Cons ch r)
      show ?thesis
      proof (cases "bad_char ch")
        case True
        with sc go 3 Cons show ?thesis by (auto simp: scan_outcome_def accept_pos.simps [of _ p])
      next
        case nb: False
        have acc: "accept_pos (target_end rp) p = accept_pos (ch # r) (ch # r)"
          using 3 Cons nb by (simp add: accept_pos.simps [of _ p])
        have ch: "ch = c_space" using scan_stops_at_space [OF Cons nb] .
        have len: "length (ch # r) < length p"
          using Cons less.prems(1) length_dropWhile_le [of run_char "tl p"] by (cases p) auto
        from sc Cons nb obtain rp1 after_slash1 args1 rest1 where r:
          "target_loop lab rp after_slash args rest p = target_loop Space_after_target rp1 after_slash1 args1 rest1 (ch # r)"
          "same_target rp rp1" "target_end rp1 = ch # r"
          "\<And>w. scanning lab rp after_slash args rest w p \<Longrightarrow>
             \<exists>v. w @ p = v @ ch # r \<and> at_space rp1 after_slash1 args1 rest1 v (ch # r)"
          by (auto simp: scan_outcome_def)
        have sp: "\<exists>v1. v @ target_end rp = v1 @ ch # r \<and> at_space rp1 after_slash1 args1 rest1 v1 (ch # r)"
          if "at_space rp after_slash args rest v (target_end rp)" for v
          using r(4) [OF at_space_scanning [OF that less.prems(3,1,2), folded lab_def]] less.prems(3) by simp
        note IH = less.hyps [of "ch # r" rp1 0 after_slash1 args1 rest1]
        show ?thesis
        proof (cases "accept_pos (ch # r) (ch # r)")
          case None
          with IH len ch r go acc same_target_trans [OF r(2)] show ?thesis by auto
        next
          case (Some tq)
          obtain te' q where tq: "tq = (te', q)" by (cases tq)
          with Some IH len ch r(3) obtain rp2 after_slash2 args2 rest2 where x:
            "target_loop Space_after_target rp1 after_slash1 args1 rest1 (ch # r) = Inr (rp2, args2, q)"
            "same_target rp1 rp2" "target_end rp2 = te'"
            "\<And>v. at_space rp1 after_slash1 args1 rest1 v (ch # r) \<Longrightarrow>
               \<exists>v'. v @ ch # r = v' @ te' \<and> at_space rp2 after_slash2 args2 rest2 v' te'"
            by auto
          have "\<exists>v'. v @ target_end rp = v' @ te' \<and> at_space rp2 after_slash2 args2 rest2 v' te'"
            if "at_space rp after_slash args rest v (target_end rp)" for v
            using sp [OF that] x(4) by fastforce
          with x go r(1) acc Some tq same_target_trans [OF r(2) x(2)] show ?thesis
            by simp blast
        qed
      qed
    qed
  next
    case 4
    then show ?thesis
      by (simp add: accept_pos.simps [of _ p] loop_space [of _ _ _ _ p] Let_def) blast
  qed
qed

end
