(* ===== verification/Nxt_Http_Request.thy ===== *)
theory Nxt_Http_Request
  imports Nxt_Http_Parse
begin

text \<open>
  What the HTTP request parser of theory \<open>Nxt_Http_Parse\<close> accepts and computes: the method, the
  target and the version of a request line, the header fields, and that it does not matter how
  the bytes of a request are distributed over the calls of the parser.
\<close>

section \<open>What the method loop accepts\<close>

declare dropWhile_eq_Nil_conv [simp del]

definition method_char :: "u_char \<Rightarrow> bool" where
  "method_char ch \<longleftrightarrow> c_A \<le> ch \<and> ch \<le> c_Z \<or> ch = c_underscore \<or> ch = c_minus"

definition line_char :: "u_char \<Rightarrow> bool" where
  "line_char ch \<longleftrightarrow> ch = c_cr \<or> ch = c_lf"

definition upper_char :: "u_char \<Rightarrow> bool" where
  "upper_char ch \<longleftrightarrow> c_A \<le> ch \<and> ch \<le> c_Z"

lemma method_scan: "scan 8 method_test_char () p = (let q = dropWhile upper_char p in (q \<noteq> [], (), q))"
  unfolding scan_eq
  by (induction p) (auto simp: method_test_char_def upper_char_def Let_def not_less)

lemma upper_skip:
  "dropWhile method_char p = dropWhile method_char (dropWhile upper_char p)"
  "takeWhile method_char p = takeWhile upper_char p @ takeWhile method_char (dropWhile upper_char p)"
proof -
  have up: "upper_char x \<Longrightarrow> method_char x" for x by (simp add: upper_char_def method_char_def)
  show "dropWhile method_char p = dropWhile method_char (dropWhile upper_char p)"
    by (rule dropWhile_imp [symmetric]) (rule up)
  show "takeWhile method_char p = takeWhile upper_char p @ takeWhile method_char (dropWhile upper_char p)"
    by (induction p) (auto simp: up)
qed

definition method_result :: "nxt_str \<Rightarrow> nxt_str \<Rightarrow> method_end" where
  "method_result m p =
     (case dropWhile method_char p of
        [] \<Rightarrow> Method_again (m @ p)
      | ch # q \<Rightarrow> if ch = c_space then Method_space (m @ takeWhile method_char p) (ch # q)
          else Method_invalid (m @ takeWhile method_char p))"

lemma method_result_skip: "method_result m p = method_result (m @ takeWhile upper_char p) (dropWhile upper_char p)"
  by (simp add: method_result_def upper_skip [of p] split: list.split)

lemma method_result_Cons:
  "method_result n (ch # q) =
     (if method_char ch then method_result (n @ [ch]) q
      else if ch = c_space then Method_space n (ch # q) else Method_invalid n)"
  by (auto simp: method_result_def split: list.split)

lemma method_for_rest: "m \<noteq> [] \<Longrightarrow> method_for (m @ p) p = method_result m p"
proof (induction "length p" arbitrary: m p rule: less_induct)
  case less
  define n where "n = m @ takeWhile upper_char p"
  have start: "m @ p = n @ dropWhile upper_char p" by (simp add: n_def)
  show ?case
  proof (cases "dropWhile upper_char p")
    case Nil
    then have tw: "takeWhile upper_char p = p" using takeWhile_dropWhile_id [of upper_char p] by simp
    from Nil show ?thesis
      by (subst method_result_skip, subst method_for.simps)
        (simp add: method_scan Let_def method_result_def tw)
  next
    case (Cons ch q)
    have len: "length q < length p"
      using Cons length_dropWhile_le [of upper_char p] by simp
    have "\<not> upper_char ch" using Cons hd_dropWhile [of upper_char p] by simp
    then have ch: "method_char ch \<longleftrightarrow> ch = c_underscore \<or> ch = c_minus"
      by (auto simp: upper_char_def method_char_def)
    have "take (length (m @ p) - length (ch # q)) (m @ p) = n" using start Cons by simp
    moreover have "length (ch # q) < length (m @ p)" using len less.prems by (cases m) auto
    then have "m @ p \<noteq> ch # q" by (metis less_irrefl)
    ultimately have step: "method_for (m @ p) p =
        (if ch = c_space then Method_space n (ch # q)
         else if ch = c_underscore \<or> ch = c_minus then method_for (m @ p) q
         else Method_invalid n)"
      using Cons by (subst method_for.simps) (simp add: method_scan Let_def)
    have "method_for (m @ p) q = method_result (n @ [ch]) q"
      using less.hyps [OF len, of "n @ [ch]"] start Cons by simp
    moreover have "method_result m p = method_result n (ch # q)"
      using method_result_skip [of m p] Cons by (simp add: n_def)
    moreover have "\<not> method_char c_space" by (simp add: method_char_def)
    ultimately show ?thesis
      using ch by (auto simp: step method_result_Cons)
  qed
qed

lemma method_for_eq: "method_for p p = method_result [] (dropWhile line_char p)"
proof (induction "length p" arbitrary: p rule: less_induct)
  case less
  show ?case
  proof (cases p)
    case Nil
    then show ?thesis by (simp add: method_for.simps method_scan Let_def method_result_def)
  next
    case (Cons ch q)
    consider "line_char ch" | "method_char ch" | "\<not> line_char ch" "\<not> method_char ch" by blast
    then show ?thesis
    proof cases
      case 1
      then have "\<not> upper_char ch" "ch \<noteq> c_space" "ch \<noteq> c_underscore" "ch \<noteq> c_minus" "ch = c_cr \<or> ch = c_lf"
        by (auto simp: line_char_def upper_char_def)
      then have "method_for p p = method_for q q"
        using Cons by (subst method_for.simps) (auto simp: method_scan Let_def)
      with less.hyps [of q] Cons 1 show ?thesis by simp
    next
      case 2
      then have nl: "\<not> line_char ch" by (auto simp: line_char_def method_char_def)
      have "method_for p p = method_for p q"
      proof (cases "upper_char ch")
        case True
        then show ?thesis
          using Cons by (subst (1 2) method_for.simps) (simp add: method_scan Let_def)
      next
        case False
        with 2 have "ch = c_underscore \<or> ch = c_minus" by (auto simp: upper_char_def method_char_def)
        with False Cons show ?thesis by (subst method_for.simps) (auto simp: method_scan Let_def)
      qed
      also have "\<dots> = method_result [ch] q" using method_for_rest [of "[ch]" q] Cons by simp
      also have "\<dots> = method_result [] p" using 2 Cons by (simp add: method_result_Cons)
      finally show ?thesis using nl Cons by simp
    next
      case 3
      then have "\<not> upper_char ch" "ch \<noteq> c_underscore" "ch \<noteq> c_minus" "ch \<noteq> c_cr" "ch \<noteq> c_lf"
        by (auto simp: line_char_def upper_char_def method_char_def)
      then show ?thesis
        using Cons 3 by (subst method_for.simps) (simp add: method_scan Let_def method_result_Cons)
    qed
  qed
qed

section \<open>The fast path and the normalization agree\<close>

definition plain_seg :: "nxt_str \<Rightarrow> bool" where
  "plain_seg g \<longleftrightarrow> g = [] \<or> hd g \<noteq> c_dot"

definition plain_segs :: "nxt_str list \<Rightarrow> bool" where
  "plain_segs gs \<longleftrightarrow> list_all plain_seg gs \<and> list_all (\<lambda>g. g \<noteq> []) (butlast gs)"

lemma simple_segments: "simple s \<Longrightarrow> plain_segs (tl (segments s))"
proof (induction s)
  case (Cons c s)
  then have IH: "plain_segs (tl (segments s))" by simp
  show ?case
  proof (cases "c = c_slash")
    case True
    obtain g gs where g: "segments s = g # gs" by (cases "segments s") auto
    have "plain_seg g \<and> (gs \<noteq> [] \<longrightarrow> g \<noteq> [])"
    proof (cases s)
      case Nil
      then show ?thesis using g by (auto simp: plain_seg_def)
    next
      case (Cons b t)
      then show ?thesis using g Cons.prems True by (auto simp: plain_seg_def split: if_splits)
    qed
    then show ?thesis using True g IH by (auto simp: plain_segs_def)
  next
    case False
    then show ?thesis using IH by simp
  qed
qed (simp add: plain_segs_def)

lemma walk_plain:
  "plain_segs gs \<Longrightarrow> gs \<noteq> [] \<Longrightarrow> walk dirs gs = Some (rev (butlast gs) @ dirs, last gs)"
proof (induction gs arbitrary: dirs)
  case (Cons g gs)
  then have "g \<noteq> seg_dot" "g \<noteq> seg_dot_dot" by (auto simp: plain_segs_def plain_seg_def)
  with Cons show ?case by (cases gs) (auto simp: plain_segs_def)
qed simp

lemma segments_join:
  "concat (map (\<lambda>d. d @ [c_slash]) (butlast (segments s))) @ last (segments s) = s"
proof (induction s)
  case (Cons c s)
  then show ?case by (cases "segments s") auto
qed simp

lemma simple_walk:
  assumes "simple (c_slash # s)"
  shows "\<exists>dirs f. walk [] (segments s) = Some (dirs, f) \<and> render dirs f = c_slash # s"
proof -
  have "plain_segs (segments s)" using simple_segments [OF assms] by simp
  then show ?thesis by (simp add: walk_plain render_def segments_join)
qed

lemma simple_decode:
  "simple s \<Longrightarrow> target_decode es s = Some (s, None)"
  "simple s \<Longrightarrow> target_decode es (s @ c_question # a) = Some (s, Some a)"
  by (induction s) auto

lemma simple_spec:
  assumes "simple (c_slash # s)"
  shows "target_spec es s = Some (c_slash # s, None)"
    and "c_hash \<notin> set a \<Longrightarrow> target_spec es (s @ c_question # a) = Some (c_slash # s, Some a)"
proof -
  obtain dirs f where "walk [] (segments s) = Some (dirs, f)" "render dirs f = c_slash # s"
    using simple_walk [OF assms] by blast
  moreover have "simple s" using assms by simp
  moreover have "takeWhile (\<lambda>c. c \<noteq> c_hash) a = a" if "c_hash \<notin> set a"
    using that by (induction a) auto
  ultimately show "target_spec es s = Some (c_slash # s, None)"
    and "c_hash \<notin> set a \<Longrightarrow> target_spec es (s @ c_question # a) = Some (c_slash # s, Some a)"
    by (simp_all add: target_spec_def simple_decode)
qed

text \<open>The path and the arguments, computed on either way.\<close>

definition line_path ::
  "(nat \<Rightarrow> bool) \<Rightarrow> http_request_parse \<Rightarrow> nxt_str option \<Rightarrow> http_rc \<times> http_request_parse" where
  "line_path mem rp args =
     (if complex_target rp \<or> quoted_target rp then nxt_http_parse_complex_target (mem 0) rp
      else
        (Rc NXT_OK, case args of
             Some a \<Rightarrow> rp\<lparr>rp_path := take (length (target_start rp) - length a - 1) (target_start rp),
               rp_args := take (length a - length (target_end rp)) a\<rparr>
           | None \<Rightarrow> rp\<lparr>rp_path := take (length (target_start rp) - length (target_end rp)) (target_start rp)\<rparr>))"

definition target_of :: "http_request_parse \<Rightarrow> (nxt_str \<times> nxt_str) option" where
  "target_of rp =
     map_option (\<lambda>(path, args). (path, case args of None \<Rightarrow> rp_args rp | Some a \<Rightarrow> a))
       (target_spec (encoded_slashes rp) (tl (rp_target rp)))"

lemma line_path_spec:
  assumes "mem 0" and "scanned rp args rest t (target_end rp)" and "target_start rp = t @ target_end rp"
    and "t = c_slash # t'"
  shows "case target_of rp of
      None \<Rightarrow> fst (line_path mem rp args) = NXT_HTTP_PARSE_INVALID
    | Some (path, a) \<Rightarrow> \<exists>q. line_path mem rp args = (Rc NXT_OK, rp\<lparr>rp_path := path, rp_args := a, quoted_target := q\<rparr>)"
proof -
  have target: "rp_target rp = c_slash # t'" using assms(3,4) by (simp add: rp_target_def)
  show ?thesis
  proof (cases "complex_target rp \<or> quoted_target rp")
    case True
    then have "line_path mem rp args = nxt_http_parse_complex_target True rp"
      using assms(1) by (simp add: line_path_def)
    then show ?thesis
      using complex_target_computes [OF target] target
      by (cases "target_spec (encoded_slashes rp) t'") (auto simp: target_of_def)
  next
    case False
    have same: "rp\<lparr>quoted_target := quoted_target rp\<rparr> = rp" by simp
    from False assms(2) consider "args = None" "simple t"
      | path a where "t = path @ c_question # a" "args = Some (a @ target_end rp)" "simple path" "c_hash \<notin> set a"
      by (auto simp: scanned_def)
    then show ?thesis
    proof cases
      case 1
      then have "target_of rp = Some (t, rp_args rp)"
        using simple_spec(1) [of t'] assms(4) target by (simp add: target_of_def)
      moreover have "line_path mem rp args =
          (Rc NXT_OK, rp\<lparr>rp_path := t, rp_args := rp_args rp, quoted_target := quoted_target rp\<rparr>)"
        using False 1 assms(3) by (simp add: line_path_def)
      ultimately show ?thesis by (simp only: option.case prod.case) blast
    next
      case (2 path a)
      then obtain s where s: "path = c_slash # s" "t' = s @ c_question # a"
        using assms(4) by (cases path) auto
      then have "target_of rp = Some (path, a)"
        using 2 simple_spec(2) [of s a] target by (simp add: target_of_def)
      moreover have "line_path mem rp args =
          (Rc NXT_OK, rp\<lparr>rp_path := path, rp_args := a, quoted_target := quoted_target rp\<rparr>)"
        using False 2 assms(3) by (simp add: line_path_def)
      ultimately show ?thesis by (simp only: option.case prod.case) blast
    qed
  qed
qed

section \<open>The request line\<close>

text \<open>
  Where the parts of a request line are: the method, and what the pointers to the start of the
  target, to its end and to the space in front of the version see.
\<close>

definition request_cut :: "nxt_str \<Rightarrow> (nxt_str \<times> nxt_str \<times> nxt_str \<times> nxt_str) option" where
  "request_cut pos =
     (case method_result [] (dropWhile line_char pos) of
        Method_space m q \<Rightarrow>
          let p = dropWhile (\<lambda>ch. ch = c_space) (tl q) in
          if p \<noteq> [] \<and> hd p = c_slash then
            case dropWhile run_char (tl p) of
              [] \<Rightarrow> None
            | ch # r \<Rightarrow>
                if bad_char ch then None
                else map_option (\<lambda>(te, v). (m, p, te, v)) (accept_pos (ch # r) (ch # r))
          else None
      | _ \<Rightarrow> None)"

text \<open>The fields of the parser that belong to the line.\<close>

definition same_line :: "http_request_parse \<Rightarrow> http_request_parse \<Rightarrow> bool" where
  "same_line rp rp' \<longleftrightarrow> (\<exists>m ts te ct qt.
     rp' = rp\<lparr>rp_method := m, target_start := ts, target_end := te, complex_target := ct, quoted_target := qt\<rparr>)"

lemma same_lineI: "same_target (rp\<lparr>rp_method := m, target_start := ts\<rparr>) rp' \<Longrightarrow> same_line rp rp'"
  unfolding same_target_def same_line_def by blast

lemma same_line_method: "same_line rp (rp\<lparr>rp_method := m\<rparr>)"
proof -
  have "rp\<lparr>rp_method := m\<rparr> = rp\<lparr>rp_method := m, target_start := target_start rp, target_end := target_end rp,
    complex_target := complex_target rp, quoted_target := quoted_target rp\<rparr>" by simp
  then show ?thesis unfolding same_line_def by blast
qed

lemma unusual_target:
  "p \<noteq> [] \<Longrightarrow> (if hd p \<noteq> c_slash then nxt_http_parse_unusual_target p else Inr p) =
     (let q = dropWhile (\<lambda>ch. ch = c_space) p in
      if q = [] then Inl (Rc NXT_AGAIN) else if hd q = c_slash then Inr q else Inl NXT_HTTP_PARSE_INVALID)"
  by (cases p) (auto simp: nxt_http_parse_unusual_target_def Let_def)

lemma scanning_start:
  "p \<noteq> [] \<Longrightarrow> hd p = c_slash \<Longrightarrow> scanning Continue_target rp (tl p) None False [] p"
  by (simp add: scanning_def scanned_def)

lemma loop_cut:
  assumes "p \<noteq> []" and "hd p = c_slash" and "target_start rp = p"
  shows "case (case dropWhile run_char (tl p) of
        [] \<Rightarrow> None | ch # r \<Rightarrow> if bad_char ch then None else accept_pos (ch # r) (ch # r)) of
      None \<Rightarrow> \<exists>rc rp'. target_loop Continue_target rp (tl p) None False p = Inl (rc, rp')
        \<and> same_target rp rp' \<and> rc \<in> {Rc NXT_AGAIN, NXT_HTTP_PARSE_INVALID}
    | Some (te, v) \<Rightarrow> \<exists>rp' args rest t. target_loop Continue_target rp (tl p) None False p = Inr (rp', args, v)
        \<and> same_target rp rp' \<and> target_end rp' = te \<and> p = t @ te \<and> scanned rp' args rest t te"
proof -
  have sc: "scan_outcome Continue_target rp (tl p) None False p (dropWhile run_char (tl p))"
    by (rule target_scan) (simp_all add: assms)
  show ?thesis
  proof (cases "dropWhile run_char (tl p)")
    case Nil
    with sc show ?thesis by (auto simp: scan_outcome_def)
  next
    case (Cons ch r)
    show ?thesis
    proof (cases "bad_char ch")
      case True
      with sc Cons show ?thesis by (auto simp: scan_outcome_def)
    next
      case False
      with sc Cons obtain rp1 after_slash args rest where r:
        "target_loop Continue_target rp (tl p) None False p = target_loop Space_after_target rp1 after_slash args rest (ch # r)"
        "same_target rp rp1" "target_end rp1 = ch # r"
        "\<And>w. scanning Continue_target rp (tl p) None False w p \<Longrightarrow>
           \<exists>v. w @ p = v @ ch # r \<and> at_space rp1 after_slash args rest v (ch # r)"
        by (auto simp: scan_outcome_def)
      obtain v where v: "p = v @ ch # r" "at_space rp1 after_slash args rest v (ch # r)"
        using r(4) [OF scanning_start [OF assms(1,2)]] by auto
      have ch: "ch = c_space" using scan_stops_at_space [OF Cons False] .
      note acc = loop_accept [of "ch # r" rp1 0 after_slash args rest, unfolded r(3)]
      show ?thesis
      proof (cases "accept_pos (ch # r) (ch # r)")
        case None
        then obtain rc rp' where "target_loop Space_after_target rp1 after_slash args rest (ch # r) = Inl (rc, rp')"
          "same_target rp1 rp'" "rc \<in> {Rc NXT_AGAIN, NXT_HTTP_PARSE_INVALID}"
          using acc ch by auto
        then show ?thesis using None Cons False r(1) same_target_trans [OF r(2)] by auto
      next
        case (Some tv)
        obtain te q where tv: "tv = (te, q)" by (cases tv)
        with Some acc ch obtain rp2 after_slash2 args2 rest2 where x:
          "target_loop Space_after_target rp1 after_slash args rest (ch # r) = Inr (rp2, args2, q)"
          "same_target rp1 rp2" "target_end rp2 = te"
          "\<And>v. at_space rp1 after_slash args rest v (ch # r) \<Longrightarrow>
             \<exists>v'. v @ ch # r = v' @ te \<and> at_space rp2 after_slash2 args2 rest2 v' te"
          by auto
        obtain t where "p = t @ te" "scanned rp2 args2 rest2 t te"
          using x(4) [OF v(2)] v(1) by (auto simp: at_space_def)
        with x r(1) same_target_trans [OF r(2) x(2)] Cons False Some tv show ?thesis
          by (simp only: list.case if_False option.case prod.case) blast
      qed
    qed
  qed
qed

lemma request_line_space:
  assumes "method_result [] (dropWhile line_char pos) = Method_space m q"
  defines "p \<equiv> dropWhile (\<lambda>ch. ch = c_space) (tl q)"
  shows "nxt_http_parse_request_line mem rp pos =
      (if p = [] then (Rc NXT_AGAIN, rp\<lparr>rp_method := m\<rparr>, pos)
       else if hd p = c_slash then
         case target_loop Continue_target (rp\<lparr>rp_method := m, target_start := p\<rparr>) (tl p) None False p of
           Inl (rc, rp) \<Rightarrow> (rc, rp, pos)
         | Inr (rp, args, p) \<Rightarrow> request_line_version mem rp pos args p
       else (NXT_HTTP_PARSE_INVALID, rp\<lparr>rp_method := m\<rparr>, pos))"
proof (cases "tl q = []")
  case True
  then show ?thesis
    using assms(1) by (simp add: nxt_http_parse_request_line_def method_for_eq p_def)
next
  case False
  then show ?thesis
    using assms(1)
    by (simp add: nxt_http_parse_request_line_def method_for_eq unusual_target p_def [symmetric] Let_def)
qed

lemma request_line_cut:
  "case request_cut pos of
     None \<Rightarrow> \<exists>rc rp'. nxt_http_parse_request_line mem rp pos = (rc, rp', pos)
       \<and> same_line rp rp' \<and> rc \<in> {Rc NXT_AGAIN, NXT_HTTP_PARSE_INVALID}
   | Some (m, p, te, v) \<Rightarrow> \<exists>rp' args rest t.
       nxt_http_parse_request_line mem rp pos = request_line_version mem rp' pos args v
       \<and> same_target (rp\<lparr>rp_method := m, target_start := p\<rparr>) rp' \<and> target_end rp' = te
       \<and> p = t @ te \<and> scanned rp' args rest t te \<and> hd p = c_slash \<and> p \<noteq> []"
proof (cases "method_result [] (dropWhile line_char pos)")
  case (Method_again m)
  then show ?thesis
    by (auto simp: request_cut_def nxt_http_parse_request_line_def method_for_eq same_line_method)
next
  case (Method_invalid m)
  then show ?thesis
    by (auto simp: request_cut_def nxt_http_parse_request_line_def method_for_eq same_line_method)
next
  case (Method_space m q)
  define p where "p = dropWhile (\<lambda>ch. ch = c_space) (tl q)"
  define rp1 where "rp1 = rp\<lparr>rp_method := m, target_start := p\<rparr>"
  note line = request_line_space [OF Method_space, of mem rp, folded p_def, folded rp1_def]
  show ?thesis
  proof (cases "p \<noteq> [] \<and> hd p = c_slash")
    case False
    then show ?thesis
      using Method_space line by (auto simp: request_cut_def p_def [symmetric] Let_def same_line_method)
  next
    case True
    let ?cut = "case dropWhile run_char (tl p) of
        [] \<Rightarrow> None | ch # r \<Rightarrow> if bad_char ch then None else accept_pos (ch # r) (ch # r)"
    have cut: "request_cut pos = map_option (\<lambda>(te, v). (m, p, te, v)) ?cut"
      using Method_space True by (simp add: request_cut_def p_def [symmetric] Let_def split: list.split)
    note loop = loop_cut [of p rp1]
    show ?thesis
    proof (cases ?cut)
      case None
      with loop True obtain rc rp' where "target_loop Continue_target rp1 (tl p) None False p = Inl (rc, rp')"
        "same_target rp1 rp'" "rc \<in> {Rc NXT_AGAIN, NXT_HTTP_PARSE_INVALID}" by (auto simp: rp1_def)
      then show ?thesis using None cut line True by (auto simp: rp1_def intro: same_lineI)
    next
      case (Some tv)
      obtain te v where tv: "tv = (te, v)" by (cases tv)
      with Some loop True obtain rp' args rest t where x:
        "target_loop Continue_target rp1 (tl p) None False p = Inr (rp', args, v)"
        "same_target rp1 rp'" "target_end rp' = te" "p = t @ te" "scanned rp' args rest t te"
        by (auto simp: rp1_def)
      have "nxt_http_parse_request_line mem rp pos = request_line_version mem rp' pos args v"
        using line True x(1) by simp
      moreover have "request_cut pos = Some (m, p, te, v)" using cut Some tv by simp
      ultimately show ?thesis
        using x True unfolding rp1_def by (simp only: option.case prod.case) blast
    qed
  qed
qed

text \<open>The check of the version.\<close>

definition version_ok :: "nxt_str \<Rightarrow> bool" where
  "version_ok v \<longleftrightarrow> take 7 (tl v) = bytes ''HTTP/1.'' \<and> digit_char (v ! 8)"

lemma version_test:
  assumes "10 \<le> length v"
  shows "(let ver = take 8 (tl v) in ver = bytes ''HTTP/1.1'' \<or> ver = bytes ''HTTP/1.0''
     \<or> take 7 ver = bytes ''HTTP/1.'' \<and> digit_char (ver ! 7)) \<longleftrightarrow> version_ok v"
proof -
  define ver where "ver = take 8 (tl v)"
  have l: "length ver = 8" and n: "ver ! 7 = v ! 8" and t: "take 7 ver = take 7 (tl v)"
    using assms by (simp_all add: ver_def nth_tl min_def)
  have "ver = bytes ''HTTP/1.1'' \<or> ver = bytes ''HTTP/1.0'' \<Longrightarrow> take 7 ver = bytes ''HTTP/1.'' \<and> digit_char (ver ! 7)"
    by (auto simp: digit_char_def)
  then show ?thesis
    by (auto simp: Let_def ver_def [symmetric] version_ok_def n t)
qed

text \<open>The end of the line: the code, or what follows it.\<close>

definition line_end :: "nxt_str \<Rightarrow> http_rc + nxt_str" where
  "line_end v =
     (if v ! 9 = c_lf then Inr (drop 10 v)
      else if drop 10 v = [] then Inl (Rc NXT_AGAIN)
      else if v ! 10 = c_lf then Inr (drop 11 v)
      else Inl NXT_HTTP_PARSE_INVALID)"

lemma request_line_version_ok:
  assumes "10 \<le> length v" and "line_char (v ! 9)" and "version_ok v"
  shows "request_line_version mem rp pos args v =
    (let rp = rp\<lparr>rp_version := take 8 (tl v)\<rparr> in
     case line_end v of
       Inl rc \<Rightarrow> (rc, rp, pos)
     | Inr s \<Rightarrow>
         (case line_path mem (rp\<lparr>request_line_end := drop 9 v\<rparr>) args of
            (Rc NXT_OK, rp) \<Rightarrow> nxt_http_parse_field_name mem rp s
          | (rc, rp) \<Rightarrow> (rc, rp, s)))"
proof -
  have v9: "hd (drop 9 v) = v ! 9" "tl (drop 9 v) = drop 10 v" "drop 2 (drop 9 v) = drop 11 v" "drop 1 (drop 9 v) = drop 10 v"
    using assms(1) by (simp_all add: hd_drop_conv_nth tl_drop drop_Suc [symmetric])
  have v10: "drop 10 v \<noteq> [] \<Longrightarrow> hd (drop 10 v) = v ! 10"
    by (simp add: hd_drop_conv_nth)
  have test: "take 8 (tl v) = bytes ''HTTP/1.1'' \<or> take 8 (tl v) = bytes ''HTTP/1.0''
     \<or> take 7 (take 8 (tl v)) = bytes ''HTTP/1.'' \<and> digit_char (take 8 (tl v) ! 7)"
    using version_test [OF assms(1)] assms(3) by (simp add: Let_def)
  show ?thesis
    unfolding request_line_version_def Let_def if_P [OF test] v9
    using assms(2) v10
    by (auto simp: line_end_def line_path_def line_char_def split: option.split)
qed

lemma request_line_version_bad:
  assumes "10 \<le> length v" and "\<not> version_ok v"
  shows "\<exists>rc rp'. request_line_version mem rp pos args v = (rc, rp', pos)
    \<and> rc \<in> {NXT_HTTP_PARSE_INVALID, NXT_HTTP_PARSE_UNSUPPORTED_VERSION}"
proof -
  have test: "\<not> (take 8 (tl v) = bytes ''HTTP/1.1'' \<or> take 8 (tl v) = bytes ''HTTP/1.0''
     \<or> take 7 (take 8 (tl v)) = bytes ''HTTP/1.'' \<and> digit_char (take 8 (tl v) ! 7))"
    using version_test [OF assms(1)] assms(2) by (simp add: Let_def)
  show ?thesis
    unfolding request_line_version_def Let_def if_not_P [OF test] by auto
qed

lemma accept_pos_facts:
  "accept_pos te p = Some (te', q) \<Longrightarrow> p \<noteq> [] \<Longrightarrow> hd p = c_space \<Longrightarrow>
   \<exists>x. p = x @ q \<and> list_all (\<lambda>c. \<not> bad_char c) x \<and> 10 \<le> length q \<and> hd q = c_space \<and> line_char (q ! 9)"
proof (induction te p rule: accept_pos.induct)
  case (1 te p)
  have sp: "\<not> bad_char c_space" by (simp add: bad_char_def)
  obtain s where p: "p = c_space # s" using 1(4,5) by (cases p) auto
  have len: "\<not> length p < 10" using 1(3) by (auto simp: accept_pos.simps [of te p])
  show ?case
  proof (cases "p ! 9 \<noteq> c_cr \<and> p ! 9 \<noteq> c_lf")
    case False
    then have "q = p" using 1(3) len by (auto simp: accept_pos.simps [of te p])
    then show ?thesis using len False 1(5) by (auto simp: line_char_def)
  next
    case nine: True
    show ?thesis
    proof (cases "p ! 1 = c_space")
      case True
      then have "s \<noteq> [] \<and> hd s = c_space" using p len by (cases s) auto
      moreover have "accept_pos te (tl p) = Some (te', q)"
        using 1(3) len nine True by (simp add: accept_pos.simps [of te p])
      ultimately obtain x where "s = x @ q" "list_all (\<lambda>c. \<not> bad_char c) x" "10 \<le> length q" "hd q = c_space" "line_char (q ! 9)"
        using 1(1) [OF len nine True] p by auto
      then show ?thesis using p sp by (intro exI [of _ "c_space # x"]) simp
    next
      case False
      then obtain ch r where r: "dropWhile run_char (tl p) = ch # r" "\<not> bad_char ch"
        "accept_pos (ch # r) (ch # r) = Some (te', q)"
        using 1(3) len nine by (auto simp: accept_pos.simps [of te p] split: list.splits if_splits)
      then have ch: "ch = c_space" by (simp add: scan_stops_at_space)
      have s: "s = takeWhile run_char s @ ch # r" using r(1) p by (metis list.sel(3) takeWhile_dropWhile_id)
      obtain x where x: "ch # r = x @ q" "list_all (\<lambda>c. \<not> bad_char c) x" "10 \<le> length q" "hd q = c_space" "line_char (q ! 9)"
        using 1(2) [OF len nine False r(1,2) r(3)] ch by auto
      have "list_all (\<lambda>c. \<not> bad_char c) (takeWhile run_char s)"
        by (auto simp: list_all_iff run_char_def dest: set_takeWhileD)
      then show ?thesis
        using p s x sp by (intro exI [of _ "c_space # takeWhile run_char s @ x"]) auto
    qed
  qed
qed

lemma method_result_space:
  "method_result m p = Method_space m' q \<Longrightarrow>
   m' = m @ takeWhile method_char p \<and> p = takeWhile method_char p @ q \<and> q \<noteq> [] \<and> hd q = c_space"
proof -
  assume r: "method_result m p = Method_space m' q"
  then obtain ch s where s: "dropWhile method_char p = ch # s"
    by (cases "dropWhile method_char p") (auto simp: method_result_def)
  with r have "ch = c_space" "q = ch # s" "m' = m @ takeWhile method_char p"
    by (auto simp: method_result_def split: if_splits)
  with s show ?thesis using takeWhile_dropWhile_id [of method_char p] by simp
qed

lemma dropWhile_split: "dropWhile P p = q \<Longrightarrow> \<exists>x. p = x @ q"
  by (metis takeWhile_dropWhile_id)

lemma request_cut_facts:
  assumes "request_cut pos = Some (m, p, te, v)"
  shows "\<exists>x y. pos = x @ p \<and> p = c_slash # y @ v \<and> list_all (\<lambda>c. \<not> bad_char c) y
    \<and> 10 \<le> length v \<and> hd v = c_space \<and> line_char (v ! 9)"
proof -
  obtain q where q: "method_result [] (dropWhile line_char pos) = Method_space m q"
    using assms by (auto simp: request_cut_def Let_def split: method_end.splits if_splits list.splits)
  define p0 where "p0 = dropWhile (\<lambda>ch. ch = c_space) (tl q)"
  obtain ch r where r: "p0 \<noteq> []" "hd p0 = c_slash" "dropWhile run_char (tl p0) = ch # r" "\<not> bad_char ch"
    "accept_pos (ch # r) (ch # r) = Some (te, v)" "p = p0"
    using assms q
    by (auto simp: request_cut_def p0_def [symmetric] Let_def split: if_splits list.splits)
  have ch: "ch = c_space" using scan_stops_at_space [OF r(3,4)] .
  obtain z where z: "ch # r = z @ v" "list_all (\<lambda>c. \<not> bad_char c) z" "10 \<le> length v" "hd v = c_space" "line_char (v ! 9)"
    using accept_pos_facts [OF r(5)] ch by auto
  obtain a where a: "pos = a @ dropWhile line_char pos" using dropWhile_split by blast
  obtain b where b: "dropWhile line_char pos = b @ q" "q \<noteq> []"
    using method_result_space [OF q] by auto
  obtain c where c: "tl q = c @ p0" unfolding p0_def using dropWhile_split by blast
  have pos: "pos = (a @ b @ hd q # c) @ p"
    using a b c r(6) by (metis append.assoc append_Cons list.collapse)
  have "tl p = takeWhile run_char (tl p) @ z @ v"
    using r(3,6) z(1) by (metis takeWhile_dropWhile_id)
  then have p: "p = c_slash # (takeWhile run_char (tl p) @ z) @ v"
    using r(1,2,6) by (metis append.assoc list.collapse)
  have "list_all (\<lambda>c. \<not> bad_char c) (takeWhile run_char (tl p) @ z)"
    using z(2) by (auto simp: list_all_iff run_char_def dest: set_takeWhileD)
  with pos p z show ?thesis by blast
qed

lemma request_line_shorter:
  assumes "nxt_http_parse_request_line mem rp pos = (Rc NXT_OK, rp', pos')"
  shows "length pos' < length pos"
proof (cases "request_cut pos")
  case None
  with request_line_cut [where pos = pos and mem = mem and rp = rp] assms show ?thesis by auto
next
  case (Some c)
  obtain m p te v where c: "c = (m, p, te, v)" by (cases c)
  with Some request_line_cut [where pos = pos and mem = mem and rp = rp] obtain rp1 args where
    run: "nxt_http_parse_request_line mem rp pos = request_line_version mem rp1 pos args v" by auto
  have v: "10 \<le> length v" "line_char (v ! 9)" "length v \<le> length pos"
    using request_cut_facts [of pos m p te v] Some c by auto
  have ok: "version_ok v"
  proof (rule ccontr)
    assume "\<not> version_ok v"
    from request_line_version_bad [OF v(1) this, of mem rp1 pos args] run assms show False by auto
  qed
  obtain s where s: "line_end v = Inr s"
    using run assms v ok by (auto simp: request_line_version_ok Let_def line_end_def split: if_splits)
  then have "length s < length pos" using v by (auto simp: line_end_def split: if_splits)
  moreover obtain rp2 where "nxt_http_parse_field_name mem rp2 s = (Rc NXT_OK, rp', pos')"
    using run assms v ok s by (auto simp: request_line_version_ok Let_def split: prod.splits http_rc.splits nxt_rc.splits)
  ultimately show ?thesis using field_name_shorter [of mem rp2 s rp' pos'] by simp
qed

lemma call_handler_shorter:
  "call_handler mem rp pos = (Rc NXT_OK, rp', pos') \<Longrightarrow> length pos' < length pos"
  by (auto simp: call_handler_def split: http_handler.splits
    dest: request_line_shorter field_name_shorter field_value_shorter field_end_shorter)

section \<open>The parser\<close>

text \<open>The loop \<^verbatim>\<open>do { rc = rp->handler(rp, &b->pos, b->free); } while (rc == NXT_OK)\<close>.\<close>

function handler_loop ::
  "(nat \<Rightarrow> bool) \<Rightarrow> http_request_parse \<Rightarrow> nxt_str \<Rightarrow> http_rc \<times> http_request_parse \<times> nxt_str" where
  "handler_loop mem rp pos =
     (case call_handler mem rp pos of
        (Rc NXT_OK, rp, pos) \<Rightarrow> handler_loop mem rp pos
      | r \<Rightarrow> r)"
  by pat_completeness auto
termination
  by (relation "measure (\<lambda>(mem, rp, pos). length pos)") (auto dest!: call_handler_shorter [OF sym])

declare handler_loop.simps [simp del]

definition nxt_http_parse_request ::
  "(nat \<Rightarrow> bool) \<Rightarrow> http_request_parse \<Rightarrow> nxt_str \<Rightarrow> http_rc \<times> http_request_parse \<times> nxt_str" where
  "nxt_http_parse_request mem rp b =
     handler_loop mem (if rp_handler rp = No_handler then rp\<lparr>rp_handler := Request_line_handler\<rparr> else rp) b"

definition nxt_http_parse_fields ::
  "(nat \<Rightarrow> bool) \<Rightarrow> http_request_parse \<Rightarrow> nxt_str \<Rightarrow> http_rc \<times> http_request_parse \<times> nxt_str" where
  "nxt_http_parse_fields mem rp b =
     handler_loop mem (if rp_handler rp = No_handler then rp\<lparr>rp_handler := Field_name_handler\<rparr> else rp) b"

section \<open>The specification of header fields\<close>

text \<open>
  The characters of a field name, and what the parser computes from a name: the hash of the name
  in lower case, and whether it has a character other than a letter, a digit and a hyphen.
\<close>

definition name_char :: "u_char \<Rightarrow> bool" where
  "name_char ch \<longleftrightarrow> normal ! unat ch \<noteq> 0"

definition unsafe_char :: "u_char \<Rightarrow> bool" where
  "unsafe_char ch \<longleftrightarrow> normal ! unat ch = 1"

definition hash_char :: "uint32 \<Rightarrow> u_char \<Rightarrow> uint32" where
  "hash_char h ch = nxt_http_field_hash_char h (if normal ! unat ch \<le> 1 then ch else normal ! unat ch)"

definition name_hash :: "nxt_str \<Rightarrow> uint32" where
  "name_hash name = foldl hash_char NXT_HTTP_FIELD_HASH_INIT name"

definition unsafe_name :: "nxt_str \<Rightarrow> bool" where
  "unsafe_name name \<longleftrightarrow> list_ex unsafe_char name"

definition header_field :: "nxt_str \<Rightarrow> nxt_str \<Rightarrow> http_field" where
  "header_field name val =
     \<lparr>hf_hash = ucast (nxt_http_field_hash_end (name_hash name)), hf_skip = False, hf_hopbyhop = False,
      hf_name_length = of_nat (length name), hf_value_length = of_nat (length val),
      hf_name = name, hf_value = val\<rparr>"

text \<open>The end of a line, and a value without the blanks around it.\<close>

fun eol :: "nxt_str \<Rightarrow> nxt_str option" where
  "eol [] = None"
| "eol (ch # s) =
     (if ch = c_lf then Some s
      else if ch = c_cr then (case s of [] \<Rightarrow> None | ch # s \<Rightarrow> if ch = c_lf then Some s else None)
      else None)"

definition trim :: "nxt_str \<Rightarrow> nxt_str" where
  "trim raw = rev (dropWhile is_blank (rev raw))"

text \<open>
  The fields of a header that ends with an empty line, and what follows it.  \<open>d\<close> is
  \<^verbatim>\<open>discard_unsafe_fields\<close> and \<open>n\<close> is \<^verbatim>\<open>discard_fields\<close>.
\<close>

lemma eol_length: "eol s = Some r \<Longrightarrow> length r < length s"
  by (cases s) (auto split: if_splits list.splits)

lemma field_line_length:
  assumes "dropWhile name_char s = ch # q" and "eol (dropWhile value_char (dropWhile is_blank q)) = Some r"
  shows "length r < length s"
proof -
  have "length r < length (dropWhile value_char (dropWhile is_blank q))" using assms(2) by (rule eol_length)
  also have "\<dots> \<le> length q" by (meson le_trans length_dropWhile_le)
  also have "\<dots> < length (dropWhile name_char s)" by (simp add: assms(1))
  also have "\<dots> \<le> length s" by (rule length_dropWhile_le)
  finally show ?thesis .
qed

function fields_spec :: "bool \<Rightarrow> bool \<Rightarrow> nxt_str \<Rightarrow> (http_field list \<times> nxt_str) option" where
  "fields_spec d n s =
     (let name = takeWhile name_char s in
      case dropWhile name_char s of
        [] \<Rightarrow> None
      | ch # q \<Rightarrow>
          if ch = c_colon then
            let start = dropWhile is_blank q; raw = takeWhile value_char start in
            if name = [] \<or> NXT_HTTP_MAX_FIELD_NAME < length name \<or> 0x7F \<in> set raw then None
            else
              case eol (dropWhile value_char start) of
                None \<Rightarrow> None
              | Some r \<Rightarrow>
                  map_option (apfst ((@) (if d \<and> unsafe_name name \<or> n then [] else [header_field name (trim raw)])))
                    (fields_spec d n r)
          else if name \<noteq> [] then None
          else map_option (Pair []) (eol s))"
  by pat_completeness auto
termination
  by (relation "measure (\<lambda>(d, n, s). length s)") (auto dest: field_line_length)

declare fields_spec.simps [simp del]

lemma name_scan_eq:
  "stop_scan (field_name_test_char d) (h, sk) p =
     (dropWhile name_char p \<noteq> [],
      (foldl hash_char h (takeWhile name_char p),
       if list_ex unsafe_char (takeWhile name_char p) then d else sk),
      dropWhile name_char p)"
proof (induction p arbitrary: h sk)
  case (Cons ch p)
  have le1: "normal ! unat ch \<le> 1 \<longleftrightarrow> normal ! unat ch = 0 \<or> normal ! unat ch = 1"
    by (auto simp: word_le_nat_alt word_unat_eq_iff)
  show ?case
    using Cons le1
    by (auto simp: field_name_test_char_def name_char_def unsafe_char_def hash_char_def Let_def)
qed simp

section \<open>The field handlers follow the specification\<close>

definition good_name :: "nxt_str \<Rightarrow> bool" where
  "good_name name \<longleftrightarrow> name \<noteq> [] \<and> length name \<le> NXT_HTTP_MAX_FIELD_NAME \<and> list_all name_char name"

definition good_value :: "nxt_str \<Rightarrow> bool" where
  "good_value v \<longleftrightarrow> list_all value_char v \<and> 0x7F \<notin> set v \<and> trim v = v \<and> (v \<noteq> [] \<longrightarrow> \<not> is_blank (hd v))"

text \<open>What the parser state knows between two fields, after a name, and after a value.\<close>

definition fresh :: "http_request_parse \<Rightarrow> bool" where
  "fresh rp \<longleftrightarrow> field_name_length rp = 0 \<and> field_value_length rp = 0
     \<and> field_hash rp = NXT_HTTP_FIELD_HASH_INIT \<and> \<not> skip_field rp"

definition name_ready :: "http_request_parse \<Rightarrow> bool" where
  "name_ready rp \<longleftrightarrow> good_name (field_name rp) \<and> field_name_length rp = length (field_name rp)
     \<and> field_hash rp = name_hash (field_name rp)
     \<and> (skip_field rp \<longleftrightarrow> discard_unsafe_fields rp \<and> unsafe_name (field_name rp))"

definition value_ready :: "http_request_parse \<Rightarrow> bool" where
  "value_ready rp \<longleftrightarrow> good_value (field_value rp) \<and> field_value_length rp = length (field_value rp)"

text \<open>The invariant of the parser between two calls; \<open>s\<close> is the data from \<^verbatim>\<open>*pos\<close> on.\<close>

definition field_inv :: "http_request_parse \<Rightarrow> nxt_str \<Rightarrow> bool" where
  "field_inv rp s \<longleftrightarrow>
     (case rp_handler rp of
        Field_name_handler \<Rightarrow>
          field_value_length rp = 0 \<and> field_name_length rp \<le> length s
          \<and> list_all name_char (take (field_name_length rp) s)
          \<and> field_hash rp = name_hash (take (field_name_length rp) s)
          \<and> (skip_field rp \<longleftrightarrow> discard_unsafe_fields rp \<and> unsafe_name (take (field_name_length rp) s))
      | Field_value_handler \<Rightarrow>
          name_ready rp \<and> (field_value_length rp = 0
            \<or> field_value_length rp \<le> length s \<and> s \<noteq> [] \<and> \<not> is_blank (hd s)
              \<and> list_all value_char (take (field_value_length rp) s))
      | Field_end_handler \<Rightarrow>
          (\<exists>q. s = c_cr # q) \<and> (fresh rp \<or> name_ready rp \<and> value_ready rp)
      | _ \<Rightarrow> fresh rp)"

text \<open>What has still to be parsed, including the part that is kept in the parser state.\<close>

definition field_rest :: "http_request_parse \<Rightarrow> nxt_str \<Rightarrow> nxt_str" where
  "field_rest rp s =
     (case rp_handler rp of
        Field_value_handler \<Rightarrow> field_name rp @ c_colon # s
      | Field_end_handler \<Rightarrow> if field_name_length rp = 0 then s else field_name rp @ c_colon # field_value rp @ s
      | _ \<Rightarrow> s)"

definition rp_spec :: "http_request_parse \<Rightarrow> nxt_str \<Rightarrow> (http_field list \<times> nxt_str) option" where
  "rp_spec rp = fields_spec (discard_unsafe_fields rp) (discard_fields rp)"

text \<open>The fields that the field handlers do not change.\<close>

definition line_fields :: "http_request_parse \<Rightarrow> nxt_str \<times> nxt_str \<times> nxt_str \<times> nxt_str \<times> bool \<times> bool \<times> bool" where
  "line_fields rp = (rp_method rp, rp_path rp, rp_args rp, rp_version rp,
     discard_unsafe_fields rp, discard_fields rp, encoded_slashes rp)"

text \<open>
  The contract of a call that finds \<open>V\<close> to be parsed, in terms of the specification of \<open>V\<close> and
  whatever may follow it.
\<close>

definition contract :: "http_request_parse \<Rightarrow> nxt_str \<Rightarrow> http_rc \<times> http_request_parse \<times> nxt_str \<Rightarrow> bool" where
  "contract rp V r \<longleftrightarrow>
     (case r of (rc, rp', s') \<Rightarrow>
        line_fields rp' = line_fields rp \<and> field_store_inv rp' \<and>
        (if rc = Rc NXT_OK then
           rp_handler rp' = Field_name_handler \<and> fresh rp'
           \<and> (\<exists>fs. rp_field_list rp' = rp_field_list rp @ fs
                \<and> (\<forall>c. rp_spec rp (V @ c) = map_option (apfst ((@) fs)) (rp_spec rp (s' @ c))))
         else if rc = Rc NXT_DONE then
           rp_field_list rp' = rp_field_list rp \<and> (\<forall>c. rp_spec rp (V @ c) = Some ([], s' @ c))
         else if rc = Rc NXT_AGAIN then
           rp_field_list rp' = rp_field_list rp \<and> rp_handler rp' \<notin> {No_handler, Request_line_handler}
           \<and> (\<forall>c. field_inv rp' (s' @ c)) \<and> rp_spec rp V = None
           \<and> (\<forall>c. rp_spec rp (V @ c) = rp_spec rp (field_rest rp' s' @ c))
         else \<forall>c. rp_spec rp (V @ c) = None))"

lemma colon_not_name: "\<not> name_char c_colon" and cr_not_name: "\<not> name_char c_cr" and lf_not_name: "\<not> name_char c_lf"
  by (simp_all add: name_char_def) code_simp+

lemma take_drop_name:
  assumes "list_all name_char name" and "\<not> name_char ch"
  shows "takeWhile name_char (name @ ch # q) = name" and "dropWhile name_char (name @ ch # q) = ch # q"
  using assms by (auto simp: list_all_iff takeWhile_append dropWhile_append)

lemma spec_field:
  assumes "good_name name"
  shows "fields_spec d n (name @ c_colon # q) =
    (let start = dropWhile is_blank q; raw = takeWhile value_char start in
     if 0x7F \<in> set raw then None
     else
       case eol (dropWhile value_char start) of
         None \<Rightarrow> None
       | Some r \<Rightarrow>
           map_option (apfst ((@) (if d \<and> unsafe_name name \<or> n then [] else [header_field name (trim raw)])))
             (fields_spec d n r))"
proof -
  have "list_all name_char name" using assms by (simp add: good_name_def)
  note td = take_drop_name [OF this colon_not_name]
  show ?thesis
    using assms by (subst fields_spec.simps) (simp add: td good_name_def Let_def)
qed

lemma spec_end:
  "s \<noteq> [] \<Longrightarrow> \<not> name_char (hd s) \<Longrightarrow> hd s \<noteq> c_colon \<Longrightarrow> fields_spec d n s = map_option (Pair []) (eol s)"
  by (subst fields_spec.simps) (cases s, simp_all)

lemma blank_value: "is_blank ch \<Longrightarrow> value_char ch"
  by (auto simp: is_blank_def value_char_def)

lemma line_not_value: "line_char ch \<Longrightarrow> \<not> value_char ch"
  by (auto simp: line_char_def value_char_def)

lemma spec_value:
  assumes "good_name name" and "good_value v" and "s \<noteq> []" and "line_char (hd s)"
  shows "fields_spec d n (name @ c_colon # v @ s) =
    (case eol s of
       None \<Rightarrow> None
     | Some r \<Rightarrow>
         map_option (apfst ((@) (if d \<and> unsafe_name name \<or> n then [] else [header_field name v])))
           (fields_spec d n r))"
proof -
  obtain ch q where s: "s = ch # q" "\<not> value_char ch" "\<not> is_blank ch"
    using assms(3,4) line_not_value blank_value by (cases s) auto
  have start: "dropWhile is_blank (v @ s) = v @ s"
    using s assms(2) by (cases v) (auto simp: good_value_def)
  have tw: "takeWhile value_char (v @ s) = v" "dropWhile value_char (v @ s) = s"
    using s assms(2) by (auto simp: good_value_def list_all_iff takeWhile_append dropWhile_append)
  have tr: "trim v = v" and del: "0x7F \<notin> set v" using assms(2) by (simp_all add: good_value_def)
  show ?thesis
    unfolding spec_field [OF assms(1)] Let_def start tw tr if_not_P [OF del] ..
qed

text \<open>Updates of the fields that belong to the current header field.\<close>

lemma store_frame [simp]:
  "field_store_inv (rp\<lparr>rp_handler := x0\<rparr>) = field_store_inv rp"
  "field_store_inv (rp\<lparr>field_name := x1\<rparr>) = field_store_inv rp"
  "field_store_inv (rp\<lparr>field_name_length := x2\<rparr>) = field_store_inv rp"
  "field_store_inv (rp\<lparr>field_value := x3\<rparr>) = field_store_inv rp"
  "field_store_inv (rp\<lparr>field_value_length := x4\<rparr>) = field_store_inv rp"
  "field_store_inv (rp\<lparr>field_hash := x5\<rparr>) = field_store_inv rp"
  "field_store_inv (rp\<lparr>skip_field := x6\<rparr>) = field_store_inv rp"
  by (simp_all add: field_store_inv_def split: option.split)

lemma list_frame [simp]:
  "rp_field_list (rp\<lparr>rp_handler := x0\<rparr>) = rp_field_list rp"
  "rp_field_list (rp\<lparr>field_name := x1\<rparr>) = rp_field_list rp"
  "rp_field_list (rp\<lparr>field_name_length := x2\<rparr>) = rp_field_list rp"
  "rp_field_list (rp\<lparr>field_value := x3\<rparr>) = rp_field_list rp"
  "rp_field_list (rp\<lparr>field_value_length := x4\<rparr>) = rp_field_list rp"
  "rp_field_list (rp\<lparr>field_hash := x5\<rparr>) = rp_field_list rp"
  "rp_field_list (rp\<lparr>skip_field := x6\<rparr>) = rp_field_list rp"
  by (simp_all add: rp_field_list_def)

lemma line_frame [simp]:
  "line_fields (rp\<lparr>rp_handler := x0\<rparr>) = line_fields rp"
  "line_fields (rp\<lparr>field_name := x1\<rparr>) = line_fields rp"
  "line_fields (rp\<lparr>field_name_length := x2\<rparr>) = line_fields rp"
  "line_fields (rp\<lparr>field_value := x3\<rparr>) = line_fields rp"
  "line_fields (rp\<lparr>field_value_length := x4\<rparr>) = line_fields rp"
  "line_fields (rp\<lparr>field_hash := x5\<rparr>) = line_fields rp"
  "line_fields (rp\<lparr>skip_field := x6\<rparr>) = line_fields rp"
  by (simp_all add: line_fields_def)

lemma spec_frame [simp]:
  "rp_spec (rp\<lparr>rp_handler := x0\<rparr>) = rp_spec rp"
  "rp_spec (rp\<lparr>field_name := x1\<rparr>) = rp_spec rp"
  "rp_spec (rp\<lparr>field_name_length := x2\<rparr>) = rp_spec rp"
  "rp_spec (rp\<lparr>field_value := x3\<rparr>) = rp_spec rp"
  "rp_spec (rp\<lparr>field_value_length := x4\<rparr>) = rp_spec rp"
  "rp_spec (rp\<lparr>field_hash := x5\<rparr>) = rp_spec rp"
  "rp_spec (rp\<lparr>skip_field := x6\<rparr>) = rp_spec rp"
  by (simp_all add: rp_spec_def)

text \<open>Storing a field.\<close>

lemma field_end_lf_ready:
  assumes "field_store_inv rp" and "name_ready rp" and "value_ready rp"
  defines "fs \<equiv> if discard_unsafe_fields rp \<and> unsafe_name (field_name rp) \<or> discard_fields rp then []
    else [header_field (field_name rp) (field_value rp)]"
  shows "\<exists>rp'. field_end_lf (\<lambda>_. True) rp r = (Rc NXT_OK, rp', r) \<and> line_fields rp' = line_fields rp
    \<and> field_store_inv rp' \<and> rp_handler rp' = Field_name_handler \<and> fresh rp'
    \<and> rp_field_list rp' = rp_field_list rp @ fs"
proof -
  define f where "f = header_field (field_name rp) (field_value rp)"
  have f: "\<lparr>hf_hash = ucast (nxt_http_field_hash_end (field_hash rp)), hf_skip = False, hf_hopbyhop = False,
      hf_name_length = of_nat (field_name_length rp), hf_value_length = of_nat (field_value_length rp),
      hf_name = field_name rp, hf_value = field_value rp\<rparr> = f"
    using assms(2,3) by (simp add: f_def header_field_def name_ready_def value_ready_def)
  have len: "field_name_length rp \<noteq> 0" using assms(2) by (simp add: name_ready_def good_name_def)
  define fin where "fin = (\<lambda>rp :: http_request_parse. rp\<lparr>field_hash := NXT_HTTP_FIELD_HASH_INIT, field_name_length := 0,
      field_value_length := 0, rp_handler := Field_name_handler\<rparr>)"
  have fin: "line_fields (fin rp) = line_fields rp" "field_store_inv (fin rp) = field_store_inv rp"
    "rp_handler (fin rp) = Field_name_handler" "fresh (fin rp) \<longleftrightarrow> \<not> skip_field rp"
    "rp_field_list (fin rp) = rp_field_list rp" for rp
    by (simp_all add: fin_def fresh_def)
  consider "skip_field rp" | "\<not> skip_field rp" "discard_fields rp" | "\<not> skip_field rp" "\<not> discard_fields rp" by blast
  then show ?thesis
  proof cases
    case 1
    then have "field_end_lf (\<lambda>_. True) rp r = (Rc NXT_OK, fin (rp\<lparr>skip_field := False\<rparr>), r)" "fs = []"
      using assms(2) len by (auto simp: field_end_lf_def fin_def fs_def name_ready_def)
    then show ?thesis
      using assms(1) fin [of "rp\<lparr>skip_field := False\<rparr>"] by simp
  next
    case 2
    then have "field_end_lf (\<lambda>_. True) rp r = (Rc NXT_OK, fin rp, r)" "fs = []"
      using assms(2) len by (auto simp: field_end_lf_def fin_def fs_def name_ready_def)
    then show ?thesis using assms(1) fin [of rp] 2 by simp
  next
    case 3
    obtain rp1 where rp1: "field_store_add True f rp = Some rp1" "field_store_inv rp1"
      "rp_field_list rp1 = rp_field_list rp @ [f]"
      using store.add_cases [OF assms(1), of f] by blast
    have keep: "line_fields rp1 = line_fields rp \<and> skip_field rp1 = skip_field rp"
      using rp1(1) by (auto simp: field_store_add_def line_fields_def split: if_splits option.splits)
    have "field_end_lf (\<lambda>_. True) rp r = (Rc NXT_OK, fin rp1, r)"
      unfolding field_end_lf_def f using 3 len rp1(1) by (simp add: fin_def)
    moreover have "fs = [f]"
      using 3 assms(2) by (auto simp: fs_def f_def name_ready_def)
    ultimately show ?thesis using rp1 keep fin [of rp1] 3 by simp
  qed
qed

lemma field_end_lf_fresh:
  "fresh rp \<Longrightarrow> field_end_lf mem rp r = (Rc NXT_DONE, rp, r)"
  by (simp add: field_end_lf_def fresh_def)

lemma eol_cases:
  assumes "s \<noteq> []"
  obtains (lf) r where "s = c_lf # r" | (crlf) r where "s = c_cr # c_lf # r" | (cr) "s = [c_cr]"
    | (cr_bad) ch r where "s = c_cr # ch # r" "ch \<noteq> c_lf" | (other) ch r where "s = ch # r" "\<not> line_char ch"
proof -
  obtain ch q where s: "s = ch # q" using assms by (cases s) auto
  show thesis
  proof (cases "ch = c_cr")
    case True
    then show thesis using s cr crlf cr_bad by (cases q; cases "hd q = c_lf") auto
  next
    case False
    then show thesis using s lf other by (cases "ch = c_lf") (auto simp: line_char_def)
  qed
qed

text \<open>The two situations in which the end of a line is expected.\<close>

definition at_end :: "http_request_parse \<Rightarrow> nxt_str \<Rightarrow> nxt_str \<Rightarrow> bool" where
  "at_end rp s V \<longleftrightarrow> s \<noteq> [] \<and>
     (fresh rp \<and> V = s \<and> \<not> name_char (hd s) \<and> hd s \<noteq> c_colon
      \<or> name_ready rp \<and> value_ready rp \<and> V = field_name rp @ c_colon # field_value rp @ s \<and> line_char (hd s))"

lemma at_end_spec:
  assumes "at_end rp s V"
  defines "fs \<equiv> if discard_unsafe_fields rp \<and> unsafe_name (field_name rp) \<or> discard_fields rp then []
    else [header_field (field_name rp) (field_value rp)]"
  shows "rp_spec rp (V @ c) =
    (case eol (s @ c) of
       None \<Rightarrow> None
     | Some r \<Rightarrow> if fresh rp then Some ([], r) else map_option (apfst ((@) fs)) (rp_spec rp r))"
proof (cases "fresh rp")
  case True
  then have "\<not> name_ready rp" by (auto simp: fresh_def name_ready_def good_name_def)
  with assms(1) have "V = s" "s \<noteq> []" "\<not> name_char (hd s)" "hd s \<noteq> c_colon" by (auto simp: at_end_def)
  then show ?thesis
    using True spec_end [of "s @ c" "discard_unsafe_fields rp" "discard_fields rp"]
    by (simp add: rp_spec_def split: option.split)
next
  case False
  with assms(1) have "name_ready rp" "value_ready rp" "V = field_name rp @ c_colon # field_value rp @ s"
    "line_char (hd s)" "s \<noteq> []" by (auto simp: at_end_def)
  then show ?thesis
    using False spec_value [of "field_name rp" "field_value rp" "s @ c" "discard_unsafe_fields rp" "discard_fields rp"]
    by (cases "eol (s @ c)") (simp_all add: rp_spec_def name_ready_def value_ready_def fs_def)
qed

lemma field_end_contract:
  assumes "field_store_inv rp" and "at_end rp s V"
  shows "contract rp V (nxt_http_parse_field_end (\<lambda>_. True) rp s)"
proof -
  note spec = at_end_spec [OF assms(2)]
  have line: "contract rp V (field_end_lf (\<lambda>_. True) rp r)" if "\<And>c. eol (s @ c) = Some (r @ c)" for r
  proof (cases "fresh rp")
    case True
    then show ?thesis
      using that assms(1) spec by (simp add: contract_def field_end_lf_fresh)
  next
    case False
    with assms(2) have "name_ready rp" "value_ready rp" by (auto simp: at_end_def)
    from field_end_lf_ready [OF assms(1) this, of r] False that spec show ?thesis
      by (auto simp: contract_def)
  qed
  have "s \<noteq> []" using assms(2) by (simp add: at_end_def)
  then show ?thesis
  proof (cases rule: eol_cases)
    case (lf r)
    then show ?thesis using line [of r] by (simp add: nxt_http_parse_field_end_def)
  next
    case (crlf r)
    then show ?thesis using line [of r] by (simp add: nxt_http_parse_field_end_def)
  next
    case cr
    have "field_rest (rp\<lparr>rp_handler := Field_end_handler\<rparr>) s = V"
      using assms(2) by (auto simp: at_end_def field_rest_def fresh_def name_ready_def good_name_def)
    moreover have "field_inv (rp\<lparr>rp_handler := Field_end_handler\<rparr>) (s @ c)" for c
      using assms(2) cr by (auto simp: at_end_def field_inv_def fresh_def name_ready_def value_ready_def)
    moreover have "rp_spec rp V = None" using spec [of "[]"] cr by simp
    ultimately show ?thesis
      using cr assms(1) by (simp add: nxt_http_parse_field_end_def contract_def)
  next
    case (cr_bad ch r)
    then show ?thesis
      using assms(1) spec by (simp add: nxt_http_parse_field_end_def contract_def)
  next
    case (other ch r)
    then show ?thesis
      using assms(1) spec by (simp add: nxt_http_parse_field_end_def contract_def line_char_def)
  qed
qed

lemma contract_transfer:
  assumes "contract rp1 V1 r" and "line_fields rp1 = line_fields rp" and "rp_field_list rp1 = rp_field_list rp"
    and "rp_spec rp1 = rp_spec rp" and "\<And>c. rp_spec rp (V @ c) = rp_spec rp (V1 @ c)"
  shows "contract rp V r"
proof -
  have V: "rp_spec rp V = rp_spec rp V1" using assms(5) [of "[]"] by simp
  from assms(1) show ?thesis unfolding contract_def assms(2-5) V .
qed

lemma trim_prefix: "\<exists>b. raw = trim raw @ b \<and> list_all is_blank b"
proof -
  have "rev raw = takeWhile is_blank (rev raw) @ dropWhile is_blank (rev raw)" by simp
  then have "raw = rev (dropWhile is_blank (rev raw)) @ rev (takeWhile is_blank (rev raw))"
    by (metis rev_append rev_rev_ident)
  moreover have "list_all is_blank (rev (takeWhile is_blank (rev raw)))"
    by (auto simp: list_all_iff dest: set_takeWhileD)
  ultimately show ?thesis unfolding trim_def by blast
qed

lemma trim_trim: "trim (trim raw) = trim raw"
  by (simp add: trim_def dropWhile_idem)

lemma good_trim:
  assumes "list_all value_char raw" and "0x7F \<notin> set raw" and "raw \<noteq> [] \<Longrightarrow> \<not> is_blank (hd raw)"
  shows "good_value (trim raw)"
proof -
  obtain b where b: "raw = trim raw @ b" "list_all is_blank b" using trim_prefix [of raw] by blast
  then have "set (trim raw) \<subseteq> set raw" by (metis Un_upper1 set_append)
  moreover have "\<not> is_blank (hd (trim raw))" if "trim raw \<noteq> []"
    using that b(1) assms(3) by (metis append_is_Nil_conv hd_append2)
  ultimately show ?thesis
    using assms(1,2) by (auto simp: good_value_def trim_trim list_all_iff)
qed

lemma dropWhile_append_Cons: "dropWhile P s = ch # q \<Longrightarrow> dropWhile P (s @ c) = ch # q @ c"
  by (induction s) (auto split: if_splits)

lemma takeWhile_append_Cons: "dropWhile P s = ch # q \<Longrightarrow> takeWhile P (s @ c) = takeWhile P s"
  by (induction s) (auto split: if_splits)

lemma take_takeWhile: "take (length s - length (dropWhile P s)) s = takeWhile P s"
  by (metis add_diff_cancel_right' append_eq_conv_conj length_append takeWhile_dropWhile_id)

lemma dropWhile_drop: "list_all P (take n s) \<Longrightarrow> dropWhile P (drop n s) = dropWhile P s"
  by (metis append_take_drop_id dropWhile_append2 list_all_iff)

lemma blank_append: "dropWhile is_blank s = st \<Longrightarrow> dropWhile is_blank (s @ c) = dropWhile is_blank (st @ c)"
proof -
  assume "dropWhile is_blank s = st"
  then have "s = takeWhile is_blank s @ st" by auto
  then have "s @ c = takeWhile is_blank s @ (st @ c)" by (metis append.assoc)
  then show ?thesis by (metis dropWhile_append2 set_takeWhileD)
qed

lemma spec_open:
  "good_name name \<Longrightarrow> dropWhile value_char (dropWhile is_blank s) = [] \<Longrightarrow> rp_spec rp (name @ c_colon # s) = None"
  by (simp add: rp_spec_def spec_field Let_def)

lemma field_value_contract:
  assumes "field_store_inv rp" and "name_ready rp" and "length s \<le> NXT_HTTP_MAX_FIELD_VALUE"
    and "field_value_length rp = 0 \<or> field_value_length rp \<le> length s \<and> s \<noteq> [] \<and> \<not> is_blank (hd s)
      \<and> list_all value_char (take (field_value_length rp) s)"
  shows "contract rp (field_name rp @ c_colon # s) (nxt_http_parse_field_value (\<lambda>_. True) rp s)"
proof -
  define start where "start = dropWhile is_blank s"
  have good: "good_name (field_name rp)" using assms(2) by (simp add: name_ready_def)
  have spec: "rp_spec rp (field_name rp @ c_colon # s @ c) = rp_spec rp (field_name rp @ c_colon # start @ c)" for c
    unfolding rp_spec_def spec_field [OF good] using blank_append [of s start c] by (simp add: start_def)
  show ?thesis
  proof (cases "start = []")
    case True
    then have "field_value_length rp = 0"
      using assms(4) by (cases s) (auto simp: start_def split: if_splits)
    then show ?thesis
      using True assms(1,2) spec spec_open [OF good, of s]
      by (simp add: nxt_http_parse_field_value_def start_def contract_def field_inv_def field_rest_def name_ready_def)
  next
    case False
    define D where "D = dropWhile value_char start"
    have nb: "\<not> is_blank (hd start)" using False hd_dropWhile [of is_blank s] by (simp add: start_def)
    have len: "length start \<le> NXT_HTTP_MAX_FIELD_VALUE"
      using assms(3) length_dropWhile_le [of is_blank s] by (simp add: start_def)
    have "dropWhile value_char (drop (field_value_length rp) start) = D"
    proof (cases "field_value_length rp = 0")
      case nz: False
      with assms(4) have "start = s" by (cases s) (auto simp: start_def)
      with assms(4) nz show ?thesis by (simp add: D_def dropWhile_drop)
    qed (simp add: D_def)
    then have vf: "value_for (drop (field_value_length rp) start) =
        (case D of [] \<Rightarrow> Value_again
         | ch # q \<Rightarrow> if ch = c_cr \<or> ch = c_lf then Value_line (ch # q) else Value_invalid)"
      by (simp add: value_for_eq)
    show ?thesis
    proof (cases D)
      case Nil
      then have all: "list_all value_char start" by (simp add: D_def dropWhile_eq_Nil_conv list_all_iff)
      then show ?thesis
        using Nil vf False len nb assms(1,2) spec spec_open [OF good, of s]
        by (simp add: D_def start_def [symmetric]) (simp add: nxt_http_parse_field_value_def start_def [symmetric] Let_def contract_def field_inv_def
          field_rest_def name_ready_def)
    next
      case (Cons ch q)
      define raw where "raw = takeWhile value_char start"
      have raw: "take (length start - length D) start = raw"
        unfolding D_def raw_def by (rule take_takeWhile)
      have blank: "dropWhile is_blank (start @ c) = start @ c" for c
        using False nb by (cases start) auto
      have tw: "takeWhile value_char (start @ c) = raw" "dropWhile value_char (start @ c) = D @ c" for c
        using takeWhile_append_Cons [of value_char start ch q c] dropWhile_append_Cons [of value_char start ch q c] Cons
        by (simp_all add: D_def raw_def)
      have sp: "rp_spec rp (field_name rp @ c_colon # start @ c) =
          (if 0x7F \<in> set raw then None
           else case eol (D @ c) of
             None \<Rightarrow> None
           | Some r \<Rightarrow> map_option (apfst ((@) (if discard_unsafe_fields rp \<and> unsafe_name (field_name rp) \<or> discard_fields rp
               then [] else [header_field (field_name rp) (trim raw)]))) (rp_spec rp r))" for c
        unfolding rp_spec_def spec_field [OF good] blank Let_def tw ..
      show ?thesis
      proof (cases "line_char ch \<and> 0x7F \<notin> set raw")
        case False
        then have "fst (nxt_http_parse_field_value (\<lambda>_. True) rp s) = NXT_HTTP_PARSE_INVALID
            \<and> fst (snd (nxt_http_parse_field_value (\<lambda>_. True) rp s)) = rp"
          using Cons vf \<open>start \<noteq> []\<close> raw
          by (auto simp: nxt_http_parse_field_value_def start_def [symmetric] Let_def line_char_def)
        moreover have "rp_spec rp (field_name rp @ c_colon # s @ c) = None" for c
          using False Cons by (auto simp: spec sp line_char_def)
        ultimately show ?thesis
          using assms(1) by (cases "nxt_http_parse_field_value (\<lambda>_. True) rp s") (simp add: contract_def)
      next
        case True
        define rp1 where "rp1 = rp\<lparr>field_value_length := length (trim raw), field_value := trim raw\<rparr>"
        define V1 where "V1 = field_name rp1 @ c_colon # field_value rp1 @ D"
        have "hd raw = hd start" if "raw \<noteq> []"
          using that by (cases start) (auto simp: raw_def split: if_splits)
        moreover have "list_all value_char raw"
          by (auto simp: raw_def list_all_iff dest: set_takeWhileD)
        ultimately have gv: "good_value (trim raw)"
          using True nb by (intro good_trim) auto
        have "length (trim raw) \<le> length start"
          using trim_prefix [of raw] raw
          by (metis append_take_drop_id le_add1 length_append order_trans)
        then have run: "nxt_http_parse_field_value (\<lambda>_. True) rp s = nxt_http_parse_field_end (\<lambda>_. True) rp1 D"
          using Cons vf \<open>start \<noteq> []\<close> raw True len
          by (auto simp: nxt_http_parse_field_value_def start_def [symmetric] Let_def line_char_def rp1_def trim_def)
        have "at_end rp1 D V1"
          using True Cons assms(2) gv by (simp add: at_end_def V1_def rp1_def name_ready_def value_ready_def)
        then have "contract rp1 V1 (nxt_http_parse_field_end (\<lambda>_. True) rp1 D)"
          using assms(1) by (intro field_end_contract) (simp_all add: rp1_def)
        then show ?thesis
          unfolding run
        proof (rule contract_transfer)
          fix c
          have D: "D @ c \<noteq> []" "line_char (hd (D @ c))" and del: "0x7F \<notin> set raw" using Cons True by simp_all
          have V1: "V1 @ c = field_name rp @ c_colon # trim raw @ D @ c" by (simp add: V1_def rp1_def)
          show "rp_spec rp ((field_name rp @ c_colon # s) @ c) = rp_spec rp (V1 @ c)"
            unfolding V1 append.assoc append_Cons spec sp if_not_P [OF del]
              spec_value [OF good gv D, of "discard_unsafe_fields rp" "discard_fields rp", folded rp_spec_def] ..
        qed (simp_all add: rp1_def)
      qed
    qed
  qed
qed

definition name_inv :: "http_request_parse \<Rightarrow> nxt_str \<Rightarrow> bool" where
  "name_inv rp s \<longleftrightarrow> field_value_length rp = 0 \<and> field_name_length rp \<le> length s
     \<and> list_all name_char (take (field_name_length rp) s)
     \<and> field_hash rp = name_hash (take (field_name_length rp) s)
     \<and> (skip_field rp \<longleftrightarrow> discard_unsafe_fields rp \<and> unsafe_name (take (field_name_length rp) s))"

lemma fresh_name_inv: "fresh rp \<Longrightarrow> name_inv rp s"
  by (simp add: fresh_def name_inv_def name_hash_def unsafe_name_def)

text \<open>Resuming the scan of a name is scanning it from its beginning.\<close>

lemma name_resume:
  assumes "name_inv rp s"
  shows "stop_scan (field_name_test_char (discard_unsafe_fields rp)) (field_hash rp, skip_field rp)
      (drop (field_name_length rp) s) =
    (dropWhile name_char s \<noteq> [],
     (name_hash (takeWhile name_char s), discard_unsafe_fields rp \<and> unsafe_name (takeWhile name_char s)),
     dropWhile name_char s)"
proof -
  define n where "n = field_name_length rp"
  have all: "list_all name_char (take n s)" using assms by (simp add: name_inv_def n_def)
  have drop: "dropWhile name_char (drop n s) = dropWhile name_char s" using dropWhile_drop [OF all] .
  have "takeWhile name_char (take n s @ drop n s) = take n s @ takeWhile name_char (drop n s)"
    using all by (intro takeWhile_append2) (simp add: list_all_iff)
  then have tk: "takeWhile name_char s = take n s @ takeWhile name_char (drop n s)" by simp
  show ?thesis
    unfolding name_scan_eq n_def [symmetric] drop
    using assms by (auto simp: tk name_inv_def n_def [symmetric] name_hash_def unsafe_name_def)
qed

lemma spec_bad_name:
  assumes "dropWhile name_char s = [] \<and> NXT_HTTP_MAX_FIELD_NAME < length s
    \<or> (\<exists>ch q. dropWhile name_char s = ch # q \<and>
        (if ch = c_colon then takeWhile name_char s = [] \<or> NXT_HTTP_MAX_FIELD_NAME < length (takeWhile name_char s)
         else takeWhile name_char s \<noteq> []))"
  shows "fields_spec d n (s @ c) = None"
  using assms
proof (elim disjE exE conjE)
  assume all: "dropWhile name_char s = []" and len: "NXT_HTTP_MAX_FIELD_NAME < length s"
  then have "takeWhile name_char (s @ c) = s @ takeWhile name_char c"
    by (simp add: dropWhile_eq_Nil_conv takeWhile_append2)
  with len show ?thesis by (subst fields_spec.simps) (auto simp: Let_def split: list.split)
next
  fix ch q
  assume "dropWhile name_char s = ch # q" "if ch = c_colon then takeWhile name_char s = [] \<or>
    NXT_HTTP_MAX_FIELD_NAME < length (takeWhile name_char s) else takeWhile name_char s \<noteq> []"
  then show ?thesis
    using takeWhile_append_Cons [of name_char s ch q c] dropWhile_append_Cons [of name_char s ch q c]
    by (subst fields_spec.simps) (auto simp: Let_def split: if_splits)
qed

lemma field_name_contract:
  assumes "field_store_inv rp" and "name_inv rp s" and "length s \<le> NXT_HTTP_MAX_FIELD_VALUE"
  shows "contract rp s (nxt_http_parse_field_name (\<lambda>_. True) rp s)"
proof -
  define name where "name = takeWhile name_char s"
  define r where "r = dropWhile name_char s"
  define sk where "sk \<longleftrightarrow> discard_unsafe_fields rp \<and> unsafe_name name"
  have s: "s = name @ r" by (simp add: name_def r_def)
  have nc: "list_all name_char name" by (auto simp: name_def list_all_iff dest: set_takeWhileD)
  note scan = name_resume [OF assms(2), folded name_def r_def, folded sk_def]
  have bad: "contract rp s (rc, rp\<lparr>skip_field := sk\<rparr>, s)"
    if "\<And>c. rp_spec rp (s @ c) = None" "rc \<notin> {Rc NXT_OK, Rc NXT_DONE, Rc NXT_AGAIN}" for rc
    using that assms(1) by (simp add: contract_def)
  show ?thesis
  proof (cases rule: field_name_cases [where rp = rp and pos = s and mem = "\<lambda>_. True"])
    case (again hash skip p)
    with scan have x: "r = []" "hash = name_hash name" "skip = sk" by simp_all
    then have name: "name = s" using s by simp
    show ?thesis
    proof (cases "NXT_HTTP_MAX_FIELD_NAME < length s")
      case True
      then have "rp_spec rp (s @ c) = None" for c
        unfolding rp_spec_def using x(1) by (intro spec_bad_name) (simp add: r_def)
      then show ?thesis using again(2) True x(3) bad by simp
    next
      case False
      moreover have "rp_spec rp s = None"
        using x(1) by (simp add: rp_spec_def fields_spec.simps [of _ _ s] r_def)
      ultimately show ?thesis
        using again(2) x name nc assms(1,2)
        by (simp add: contract_def field_inv_def field_rest_def sk_def name_inv_def)
    qed
  next
    case (colon hash skip q)
    with scan have x: "r = c_colon # q" "hash = name_hash name" "skip = sk" by simp_all
    have len: "length s - length q - 1 = length name" using s x(1) by simp
    show ?thesis
    proof (cases "good_name name")
      case False
      then have "name = [] \<or> NXT_HTTP_MAX_FIELD_NAME < length name" using nc by (auto simp: good_name_def)
      then have "rp_spec rp (s @ c) = None" for c
        unfolding rp_spec_def using x(1) by (intro spec_bad_name) (auto simp: r_def name_def)
      then show ?thesis
        using colon(3) x(3) bad \<open>name = [] \<or> _\<close> by (auto simp: len [simplified] Let_def)
    next
      case True
      define rp1 where "rp1 = rp\<lparr>skip_field := skip, field_hash := hash, field_name_length := length name, field_name := name\<rparr>"
      have run: "nxt_http_parse_field_name (\<lambda>_. True) rp s = nxt_http_parse_field_value (\<lambda>_. True) rp1 q"
        using colon(3) True s unfolding len Let_def by (simp add: good_name_def rp1_def)
      have "contract rp1 (field_name rp1 @ c_colon # q) (nxt_http_parse_field_value (\<lambda>_. True) rp1 q)"
        using assms x True colon(2)
        by (intro field_value_contract) (simp_all add: rp1_def name_ready_def name_inv_def sk_def)
      then show ?thesis
        unfolding run by (rule contract_transfer) (simp_all add: rp1_def s x(1))
    qed
  next
    case (other hash skip ch q)
    with scan have x: "r = ch # q" "skip = sk" by simp_all
    have len: "length s - length q - 1 = length name" using s x(1) by simp
    show ?thesis
    proof (cases "name = []")
      case False
      then have "rp_spec rp (s @ c) = None" for c
        unfolding rp_spec_def using x(1) other(2) by (intro spec_bad_name) (auto simp: r_def name_def)
      then show ?thesis
        using other(4) x(2) bad False by (simp add: len [simplified])
    next
      case True
      have "\<not> name_char ch" using x(1) hd_dropWhile [of name_char s] by (simp add: r_def)
      then have "field_name_length rp = 0"
        using assms(2) s x(1) True by (cases "field_name_length rp") (auto simp: name_inv_def)
      then have "fresh (rp\<lparr>skip_field := skip\<rparr>)"
        using assms(2) x(2) True by (simp add: fresh_def name_inv_def name_hash_def sk_def unsafe_name_def)
      then have "contract (rp\<lparr>skip_field := skip\<rparr>) s (nxt_http_parse_field_end (\<lambda>_. True) (rp\<lparr>skip_field := skip\<rparr>) s)"
        using assms(1) s x(1) True other(2) \<open>\<not> name_char ch\<close>
        by (intro field_end_contract) (auto simp: at_end_def)
      moreover have "nxt_http_parse_field_name (\<lambda>_. True) rp s =
          nxt_http_parse_field_end (\<lambda>_. True) (rp\<lparr>skip_field := skip\<rparr>) s"
        using other(4) True by (simp add: len [simplified])
      ultimately show ?thesis by (auto intro: contract_transfer)
    qed
  qed
qed

section \<open>Runs of the parser\<close>

text \<open>The position only moves forward.\<close>

lemma field_end_le: "length (snd (snd (nxt_http_parse_field_end mem rp s))) \<le> length s"
proof -
  have "snd (snd (field_end_lf mem rp r)) = r" for r
    by (metis field_end_lf_ok prod.collapse)
  then show ?thesis
    by (auto simp: nxt_http_parse_field_end_def Let_def split: list.split)
qed

lemma field_value_le: "length (snd (snd (nxt_http_parse_field_value mem rp s))) \<le> length s"
proof -
  define start where "start = dropWhile is_blank s"
  have st: "length start \<le> length s" by (simp add: start_def length_dropWhile_le)
  have "length (snd (snd (nxt_http_parse_field_end mem rp' p))) \<le> length s \<and> length p \<le> length s"
    if "value_for (drop (field_value_length rp) start) = Value_line p" for p rp'
    using value_for_length [OF that] st field_end_le [of mem rp' p] unfolding length_drop
    by (intro conjI; linarith)
  then show ?thesis
    using st unfolding nxt_http_parse_field_value_def start_def [symmetric] Let_def
    by (auto split: value_end.split)
qed

lemma field_name_le: "length (snd (snd (nxt_http_parse_field_name mem rp s))) \<le> length s"
proof (cases rule: field_name_cases [where rp = rp and pos = s and mem = mem])
  case (colon hash skip q)
  have "length (snd (snd (nxt_http_parse_field_value mem rp' q))) \<le> length s" for rp'
    using field_value_le [of mem rp' q] colon(2) by simp
  with colon show ?thesis by (auto simp: Let_def)
next
  case (other hash skip ch q)
  then show ?thesis using field_end_le by auto
qed auto

lemma request_line_le: "length (snd (snd (nxt_http_parse_request_line mem rp s))) \<le> length s"
proof (cases "request_cut s")
  case None
  with request_line_cut [where pos = s and mem = mem and rp = rp] show ?thesis by auto
next
  case (Some c)
  obtain m p te v where c: "c = (m, p, te, v)" by (cases c)
  with Some request_line_cut [where pos = s and mem = mem and rp = rp] obtain rp1 args where
    run: "nxt_http_parse_request_line mem rp s = request_line_version mem rp1 s args v" by auto
  have v: "10 \<le> length v" "line_char (v ! 9)" "length v \<le> length s"
    using request_cut_facts [of s m p te v] Some c by auto
  show ?thesis
  proof (cases "version_ok v")
    case False
    with request_line_version_bad [OF v(1), of mem rp1 s args] run show ?thesis by auto
  next
    case True
    have end_le: "length t \<le> length s" if "line_end v = Inr t" for t
      using that v by (auto simp: line_end_def split: if_splits)
    have "length (snd (snd (nxt_http_parse_field_name mem rp' t))) \<le> length s" if "line_end v = Inr t" for rp' t
      using end_le [OF that] field_name_le [of mem rp' t] by simp
    then show ?thesis
      unfolding run request_line_version_ok [OF v(1,2) True] Let_def
      using end_le by (auto split: sum.split prod.split http_rc.split nxt_rc.split)
  qed
qed

lemma call_handler_le: "length (snd (snd (call_handler mem rp s))) \<le> length s"
  by (simp add: call_handler_def request_line_le field_name_le field_value_le field_end_le split: http_handler.split)

lemma handler_loop_le: "length (snd (snd (handler_loop mem rp s))) \<le> length s"
proof (induction mem rp s rule: handler_loop.induct)
  case (1 mem rp s)
  obtain rc rp' s' where r: "call_handler mem rp s = (rc, rp', s')" by (metis prod_cases3)
  then have "length s' \<le> length s" using call_handler_le [of mem rp s] by simp
  with 1 r show ?case
    by (subst handler_loop.simps) (auto split: http_rc.split nxt_rc.split intro: order_trans)
qed

definition field_handlers :: "http_handler set" where
  "field_handlers = {Field_name_handler, Field_value_handler, Field_end_handler}"

lemma field_handler_contract:
  assumes "field_store_inv rp" and "field_inv rp s" and "rp_handler rp \<in> field_handlers"
    and "length s \<le> NXT_HTTP_MAX_FIELD_VALUE"
  shows "contract rp (field_rest rp s) (call_handler (\<lambda>_. True) rp s)"
proof -
  consider "rp_handler rp = Field_name_handler" | "rp_handler rp = Field_value_handler" | "rp_handler rp = Field_end_handler"
    using assms(3) by (auto simp: field_handlers_def)
  then show ?thesis
  proof cases
    case 1
    then show ?thesis
      using assms field_name_contract [of rp s]
      by (simp add: call_handler_def field_rest_def field_inv_def name_inv_def)
  next
    case 2
    then show ?thesis
      using assms field_value_contract [of rp s]
      by (simp add: call_handler_def field_rest_def field_inv_def)
  next
    case 3
    then obtain q where "s = c_cr # q" "fresh rp \<or> name_ready rp \<and> value_ready rp"
      using assms(2) by (auto simp: field_inv_def)
    moreover have "fresh rp \<Longrightarrow> field_name_length rp = 0" "name_ready rp \<Longrightarrow> field_name_length rp \<noteq> 0"
      by (simp_all add: fresh_def name_ready_def good_name_def)
    ultimately have "at_end rp s (field_rest rp s)"
      using 3 cr_not_name by (auto simp: at_end_def field_rest_def line_char_def)
    then show ?thesis
      using 3 assms(1) by (simp add: call_handler_def field_end_contract)
  qed
qed

text \<open>What a run of the handlers has done with \<open>V\<close>.\<close>

definition outcome :: "http_request_parse \<Rightarrow> nxt_str \<Rightarrow> http_rc \<times> http_request_parse \<times> nxt_str \<Rightarrow> bool" where
  "outcome rp V r \<longleftrightarrow>
     (case r of (rc, rp', s') \<Rightarrow>
        line_fields rp' = line_fields rp \<and> field_store_inv rp' \<and> rc \<noteq> Rc NXT_OK \<and>
        (if rc = Rc NXT_DONE then
           \<exists>fs. rp_field_list rp' = rp_field_list rp @ fs \<and> (\<forall>c. rp_spec rp (V @ c) = Some (fs, s' @ c))
         else if rc = Rc NXT_AGAIN then
           rp_handler rp' \<in> field_handlers \<and> (\<forall>c. field_inv rp' (s' @ c)) \<and> rp_spec rp V = None
           \<and> (\<exists>fs. rp_field_list rp' = rp_field_list rp @ fs
                \<and> (\<forall>c. rp_spec rp (V @ c) = map_option (apfst ((@) fs)) (rp_spec rp (field_rest rp' s' @ c))))
         else \<forall>c. rp_spec rp (V @ c) = None))"

lemma contract_outcome:
  assumes "contract rp V (rc, rp', s')" and "rc \<noteq> Rc NXT_OK"
  shows "outcome rp V (rc, rp', s')"
proof -
  have id: "map_option (apfst ((@) [])) = (\<lambda>x. x)"
    by (auto simp: fun_eq_iff map_option_case split: option.split)
  have "rp_handler rp' \<notin> {No_handler, Request_line_handler} \<longleftrightarrow> rp_handler rp' \<in> field_handlers"
    by (cases "rp_handler rp'") (simp_all add: field_handlers_def)
  with assms show ?thesis
    unfolding contract_def outcome_def prod.case
    by (auto simp: id intro!: exI [of _ "[]"] split: if_splits)
qed

lemma spec_prefix_append:
  "map_option (apfst ((@) fs)) (map_option (apfst ((@) gs)) x) = map_option (apfst ((@) (fs @ gs))) x"
  by (cases x) auto

text \<open>A run that goes on after a handler has returned \<open>NXT_OK\<close>.\<close>

lemma outcome_step:
  assumes "contract rp V (Rc NXT_OK, rp1, s1)" and "outcome rp1 s1 (rc, rp', s')"
  shows "outcome rp V (rc, rp', s')"
proof -
  from assms(1) obtain gs where c: "line_fields rp1 = line_fields rp" "rp_field_list rp1 = rp_field_list rp @ gs"
    "\<And>c. rp_spec rp (V @ c) = map_option (apfst ((@) gs)) (rp_spec rp (s1 @ c))"
    unfolding contract_def by auto
  have spec: "rp_spec rp1 = rp_spec rp" using c(1) by (simp add: rp_spec_def line_fields_def)
  show ?thesis
  proof (cases "rc = Rc NXT_DONE \<or> rc = Rc NXT_AGAIN")
    case False
    then show ?thesis using assms(2) c spec by (auto simp: outcome_def)
  next
    case True
    with assms(2) obtain fs where fs: "rp_field_list rp' = rp_field_list rp1 @ fs"
      "rc = Rc NXT_DONE \<Longrightarrow> \<forall>c. rp_spec rp (s1 @ c) = Some (fs, s' @ c)"
      "rc = Rc NXT_AGAIN \<Longrightarrow> \<forall>c. rp_spec rp (s1 @ c) = map_option (apfst ((@) fs)) (rp_spec rp (field_rest rp' s' @ c))"
      by (auto simp: outcome_def spec)
    have "rp_field_list rp' = rp_field_list rp @ (gs @ fs)" using fs(1) c(2) by simp
    moreover have "rc = Rc NXT_DONE \<Longrightarrow> \<forall>c. rp_spec rp (V @ c) = Some (gs @ fs, s' @ c)"
      using fs(2) c(3) by simp
    moreover have "rc = Rc NXT_AGAIN \<Longrightarrow>
        \<forall>c. rp_spec rp (V @ c) = map_option (apfst ((@) (gs @ fs))) (rp_spec rp (field_rest rp' s' @ c))"
      using fs(3) c(3) by (simp add: spec_prefix_append)
    moreover have "rc = Rc NXT_AGAIN \<Longrightarrow> rp_spec rp V = None"
      using c(3) [of "[]"] assms(2) by (simp add: outcome_def spec)
    ultimately show ?thesis
      using True assms(2) c(1) unfolding outcome_def prod.case by (elim disjE) auto
  qed
qed

lemma fields_loop_outcome:
  assumes "field_store_inv rp" and "field_inv rp s" and "rp_handler rp \<in> field_handlers"
    and "length s \<le> NXT_HTTP_MAX_FIELD_VALUE"
  shows "outcome rp (field_rest rp s) (handler_loop (\<lambda>_. True) rp s)"
  using assms
proof (induction "length s" arbitrary: rp s rule: less_induct)
  case less
  obtain rc rp1 s1 where r: "call_handler (\<lambda>_. True) rp s = (rc, rp1, s1)" by (metis prod_cases3)
  have c: "contract rp (field_rest rp s) (rc, rp1, s1)"
    using field_handler_contract [OF less.prems] r by simp
  show ?case
  proof (cases "rc = Rc NXT_OK")
    case False
    then have "handler_loop (\<lambda>_. True) rp s = (rc, rp1, s1)"
      using r by (subst handler_loop.simps) (auto split: http_rc.split nxt_rc.split)
    then show ?thesis using contract_outcome [OF c False] by simp
  next
    case True
    have len: "length s1 < length s" using call_handler_shorter [of "\<lambda>_. True" rp s rp1 s1] r True by simp
    have x: "rp_handler rp1 = Field_name_handler" "fresh rp1" "field_store_inv rp1"
      using c True by (simp_all add: contract_def)
    have "field_inv rp1 s1"
      using x fresh_name_inv [of rp1 s1] by (simp add: field_inv_def name_inv_def)
    then have "outcome rp1 (field_rest rp1 s1) (handler_loop (\<lambda>_. True) rp1 s1)"
      using less.hyps [OF len x(3)] x(1) len less.prems(4) by (simp add: field_handlers_def)
    moreover have "field_rest rp1 s1 = s1" using x(1) by (simp add: field_rest_def)
    moreover have "handler_loop (\<lambda>_. True) rp s = handler_loop (\<lambda>_. True) rp1 s1"
      using r True by (subst handler_loop.simps) simp
    ultimately show ?thesis
      using outcome_step [of rp "field_rest rp s" rp1 s1] c True
      by (cases "handler_loop (\<lambda>_. True) rp1 s1") simp
  qed
qed

end
