(* ===== verification/Nxt_Http_Line.thy ===== *)
theory Nxt_Http_Line
  imports Nxt_Http_Request
begin

text \<open>
  The specification of a whole request and the theorem that the parser computes it however the
  bytes arrive.  \<open>line_spec\<close> says what a request line is in terms of the bytes up to the end of
  the line; \<open>request_spec\<close> adds the normalization of the target and the header fields.
\<close>

section \<open>The specification of a request\<close>

definition nb_char :: "u_char \<Rightarrow> bool" where
  "nb_char ch \<longleftrightarrow> \<not> bad_char ch"

definition rstrip :: "nxt_str \<Rightarrow> nxt_str" where
  "rstrip s = rev (dropWhile (\<lambda>ch. ch = c_space) (rev s))"

text \<open>
  A request line: empty lines in front of it are skipped.  The line has a method, spaces, a target
  that starts with a slash, spaces, and the eight characters of the version.  The result is the
  method, the target, the version and what follows the line.
\<close>

definition line_spec :: "nxt_str \<Rightarrow> (nxt_str \<times> nxt_str \<times> nxt_str \<times> nxt_str) option" where
  "line_spec s =
     (let t = dropWhile line_char s; line = takeWhile nb_char t;
          r = dropWhile method_char line; p = dropWhile (\<lambda>ch. ch = c_space) r; k = length p - 9 in
      if r \<noteq> [] \<and> hd r = c_space \<and> 9 < length p \<and> hd p = c_slash \<and> p ! k = c_space \<and> version_ok (drop k p) then
        map_option (\<lambda>u. (takeWhile method_char line, rstrip (take k p), drop (k + 1) p, u)) (eol (dropWhile nb_char t))
      else None)"

text \<open>
  The head of a request: the method, the path and the arguments of the target, the version, and
  what follows the line.  A target without arguments leaves the arguments of the parser state as
  they are.
\<close>

definition head_spec :: "http_request_parse \<Rightarrow> nxt_str \<Rightarrow> (nxt_str \<times> nxt_str \<times> nxt_str \<times> nxt_str \<times> nxt_str) option" where
  "head_spec rp s =
     (case line_spec s of
        None \<Rightarrow> None
      | Some (m, target, ver, u) \<Rightarrow>
          map_option (\<lambda>(path, args). (m, path, case args of None \<Rightarrow> rp_args rp | Some a \<Rightarrow> a, ver, u))
            (target_spec (encoded_slashes rp) (tl target)))"

section \<open>The loop over the target finds the version\<close>

lemma method_space: "\<not> method_char c_space" and space_nb: "nb_char c_space" and slash_nb: "nb_char c_slash"
  by (simp_all add: method_char_def nb_char_def bad_char_def)

lemma replicate_snoc: "replicate k x @ x # s = replicate (Suc k) x @ s"
  by (simp add: replicate_app_Cons_same)

lemma accept_pos_complete:
  assumes "list_all nb_char x" and "list_all nb_char ver" and "length ver = 8" and "list_all run_char ver"
    and "line_char e" and "x = [] \<or> hd x = c_space"
  shows "\<exists>te. accept_pos (replicate k c_space @ x @ c_space # ver @ e # u) (x @ c_space # ver @ e # u) = Some (te, c_space # ver @ e # u)
    \<and> (\<exists>y j. te = replicate j c_space @ c_space # ver @ e # u \<and> replicate k c_space @ x = y @ replicate j c_space
        \<and> (y = [] \<or> last y \<noteq> c_space))"
  using assms
proof (induction "length x" arbitrary: x k rule: less_induct)
  case less
  define p where "p = x @ c_space # ver @ e # u"
  have len: "\<not> length p < 10" using less.prems(3) by (simp add: p_def)
  show ?case
  proof (cases x)
    case Nil
    then have "p ! 9 = e" using less.prems(3) by (simp add: p_def nth_append)
    then have "accept_pos (replicate k c_space @ p) p = Some (replicate k c_space @ p, p)"
      using len less.prems(5) by (auto simp: accept_pos.simps [of _ p] line_char_def)
    then show ?thesis
      unfolding p_def Nil append_Nil
      by (intro exI [of _ "replicate k c_space @ c_space # ver @ e # u"] conjI exI [of _ "[]"] exI [of _ k]) simp_all
  next
    case (Cons a x')
    then have a: "a = c_space" using less.prems(6) by simp
    define y where "y = x @ c_space # ver"
    have "p = y @ e # u" "9 < length y" using Cons less.prems(3) by (simp_all add: p_def y_def)
    then have "p ! 9 \<in> set (x @ c_space # ver)" by (simp add: nth_append y_def [symmetric])
    then have "nb_char (p ! 9)"
      using less.prems(1,2) space_nb unfolding set_append list.set list_all_iff by (metis UnE insertE)
    then have nine: "p ! 9 \<noteq> c_cr \<and> p ! 9 \<noteq> c_lf" by (auto simp only: nb_char_def bad_char_def)
    have tl: "tl p = x' @ c_space # ver @ e # u" and p1: "p ! 1 = hd (tl p)"
      using Cons by (simp_all add: p_def hd_conv_nth)
    show ?thesis
    proof (cases "p ! 1 = c_space")
      case True
      then have x': "x' = [] \<or> hd x' = c_space" using p1 tl by (cases x') auto
      have "accept_pos (replicate k c_space @ p) p = accept_pos (replicate (Suc k) c_space @ tl p) (tl p)"
        using len nine True Cons a by (simp add: accept_pos.simps [of _ p]) (simp add: p_def replicate_snoc)
      moreover have "replicate k c_space @ x = replicate (Suc k) c_space @ x'"
        using Cons a by (simp add: replicate_snoc)
      ultimately show ?thesis
        using less.hyps [of x' "Suc k"] less.prems Cons x' unfolding tl p_def [symmetric]
        by (simp add: replicate_snoc del: replicate_Suc)
    next
      case False
      define r where "r = takeWhile run_char x'"
      define x2 where "x2 = dropWhile run_char x'"
      define t where "t = x2 @ c_space # ver @ e # u"
      have x': "x' = r @ x2" by (simp add: r_def x2_def)
      have "x' \<noteq> []" "hd x' \<noteq> c_space" using False p1 tl by (cases x'; simp)+
      then have r: "r \<noteq> []" "list_all run_char r"
        using less.prems(1) Cons by (cases x'; auto simp: r_def run_char_def nb_char_def list_all_iff dest: set_takeWhileD)+
      have x2: "x2 = [] \<or> hd x2 = c_space"
        using less.prems(1) Cons hd_dropWhile [of run_char x'] set_dropWhileD [of "hd x2" run_char x']
        by (cases x2) (auto simp: x2_def [symmetric] run_char_def nb_char_def list_all_iff)
      have shorter: "length x2 < length x" using x' Cons by simp
      have nbx2: "list_all nb_char x2" using less.prems(1) Cons x' by simp
      obtain q where t: "t = c_space # q" using x2 by (cases x2) (auto simp: t_def)
      have "dropWhile run_char (r @ t) = t"
        using r(2) t by (simp add: dropWhile_append2 list_all_iff run_char_def)
      then have "dropWhile run_char (tl p) = c_space # q" by (simp add: tl x' t_def [symmetric] t [symmetric])
      then have "accept_pos (replicate k c_space @ p) p = accept_pos t t"
        using len nine False t by (simp add: accept_pos.simps [of _ p] bad_char_def)
      moreover obtain te y j where "accept_pos t t = Some (te, c_space # ver @ e # u)"
        "te = replicate j c_space @ c_space # ver @ e # u" "x2 = y @ replicate j c_space" "y = [] \<or> last y \<noteq> c_space"
        using less.hyps [OF shorter nbx2 less.prems(2-5) x2, of 0]
        unfolding replicate_0 append_Nil t_def [symmetric] by blast
      moreover have "replicate k c_space @ x = (replicate k c_space @ c_space # r @ y) @ replicate j c_space"
        using calculation x' Cons a by simp
      moreover have "last (replicate k c_space @ c_space # r @ y) \<noteq> c_space"
        using r calculation(5) last_in_set [of r] by (cases y) (auto simp: list_all_iff run_char_def)
      ultimately show ?thesis
        unfolding p_def [symmetric]
        by (intro exI [of _ te] conjI exI [of _ "replicate k c_space @ c_space # r @ y"] exI [of _ j]) simp_all
    qed
  qed
qed

section \<open>The shape of a request line\<close>

lemma version_chars:
  assumes "version_ok (c_space # ver)" and "length ver = 8"
  shows "list_all run_char ver" and "list_all nb_char ver"
proof -
  have "ver = take 7 ver @ [ver ! 7]" using assms(2) by (simp add: take_Suc_conv_app_nth [of 7, simplified, symmetric])
  moreover have "take 7 ver = bytes ''HTTP/1.''" "digit_char (ver ! 7)" using assms(1) by (simp_all add: version_ok_def)
  moreover have "digit_char ch \<Longrightarrow> run_char ch" for ch
    by (auto simp: digit_char_def run_char_def bad_char_def)
  moreover have "list_all run_char (bytes ''HTTP/1.'')" by (simp add: run_char_def bad_char_def)
  ultimately show r: "list_all run_char ver" by (metis list_all_append list.pred_inject)
  then show "list_all nb_char ver" by (auto simp: list_all_iff run_char_def nb_char_def)
qed

lemma method_nb: "method_char ch \<Longrightarrow> nb_char ch"
  by (auto simp: method_char_def nb_char_def bad_char_def)

lemma line_char_not_nb: "line_char ch \<Longrightarrow> \<not> nb_char ch"
  by (auto simp: line_char_def nb_char_def bad_char_def)

lemma eol_line: "eol z = Some w \<Longrightarrow> \<exists>e u. z = e # u \<and> line_char e"
  by (cases z) (auto simp: line_char_def split: if_splits)

lemma takeWhile_stop: "list_all P xs \<Longrightarrow> \<not> P y \<Longrightarrow> takeWhile P (xs @ y # ys) = xs"
  by (induction xs) auto

lemma dropWhile_stop: "list_all P xs \<Longrightarrow> \<not> P y \<Longrightarrow> dropWhile P (xs @ y # ys) = y # ys"
  by (induction xs) auto

text \<open>The parts of a line, with \<open>z\<close> what follows the version.\<close>

definition line_parts :: "nxt_str \<Rightarrow> nxt_str \<Rightarrow> nat \<Rightarrow> nxt_str \<Rightarrow> nxt_str \<Rightarrow> nxt_str \<Rightarrow> bool" where
  "line_parts s m n x ver z \<longleftrightarrow>
     dropWhile line_char s = (m @ replicate (Suc n) c_space @ c_slash # x @ c_space # ver) @ z
     \<and> list_all method_char m \<and> list_all nb_char x \<and> length ver = 8 \<and> version_ok (c_space # ver)"

lemma line_parts_nb:
  assumes "line_parts s m n x ver z"
  shows "list_all nb_char (m @ replicate (Suc n) c_space @ c_slash # x @ c_space # ver)"
  using assms version_chars(2) [of ver]
  by (auto simp: line_parts_def list_all_iff method_nb space_nb slash_nb)

lemma line_parts_spec:
  assumes "line_parts s m n x ver z" and "eol z = Some w"
  shows "line_spec s = Some (m, rstrip (c_slash # x), ver, w)"
proof -
  let ?D = "m @ replicate (Suc n) c_space @ c_slash # x @ c_space # ver"
  let ?p = "c_slash # x @ c_space # ver"
  obtain e u where z: "z = e # u" "line_char e" using eol_line [OF assms(2)] by blast
  have t: "takeWhile nb_char (?D @ z) = ?D" "dropWhile nb_char (?D @ z) = z"
    using line_parts_nb [OF assms(1)] line_char_not_nb [OF z(2)] unfolding z(1)
    by (blast intro: takeWhile_stop dropWhile_stop)+
  have m: "takeWhile method_char ?D = m" "dropWhile method_char ?D = replicate (Suc n) c_space @ ?p"
    using assms(1) method_space takeWhile_stop [of method_char m c_space] dropWhile_stop [of method_char m c_space]
    by (simp_all add: line_parts_def)
  have p: "dropWhile (\<lambda>ch. ch = c_space) (replicate (Suc n) c_space @ ?p) = ?p"
    by (rule dropWhile_stop) (simp_all add: list_all_iff)
  have v: "length ver = 8" "version_ok (c_space # ver)" using assms(1) by (simp_all add: line_parts_def)
  have k: "length ?p - 9 = Suc (length x)" "?p ! Suc (length x) = c_space" "drop (Suc (length x)) ?p = c_space # ver"
    "drop (Suc (length x) + 1) ?p = ver" "take (Suc (length x)) ?p = c_slash # x" "9 < length ?p"
    using v(1) by simp_all
  have "dropWhile line_char s = ?D @ z" using assms(1) by (simp add: line_parts_def)
  then show ?thesis
    unfolding line_spec_def Let_def by (simp only: t m p k v(2) assms(2)) simp
qed

lemma line_spec_parts:
  assumes "line_spec s = Some (m, tg, ver, w)"
  shows "\<exists>n x z. line_parts s m n x ver z \<and> eol z = Some w \<and> tg = rstrip (c_slash # x)"
proof -
  define t where "t = dropWhile line_char s"
  define line where "line = takeWhile nb_char t"
  define r where "r = dropWhile method_char line"
  define p where "p = dropWhile (\<lambda>ch. ch = c_space) r"
  define k where "k = length p - 9"
  have a: "(if r \<noteq> [] \<and> hd r = c_space \<and> 9 < length p \<and> hd p = c_slash \<and> p ! k = c_space \<and> version_ok (drop k p) then
      map_option (\<lambda>u. (takeWhile method_char line, rstrip (take k p), drop (k + 1) p, u)) (eol (dropWhile nb_char t))
      else None) = Some (m, tg, ver, w)"
    using assms unfolding line_spec_def Let_def
    by (simp only: t_def [symmetric] line_def [symmetric] r_def [symmetric] p_def [symmetric] k_def [symmetric])
  then have cond: "r \<noteq> [] \<and> hd r = c_space \<and> 9 < length p \<and> hd p = c_slash \<and> p ! k = c_space \<and> version_ok (drop k p)"
    by (metis option.distinct(1))
  then have out: "map_option (\<lambda>u. (takeWhile method_char line, rstrip (take k p), drop (k + 1) p, u)) (eol (dropWhile nb_char t))
      = Some (m, tg, ver, w)"
    using a by (simp only: if_True simp_thms)
  from cond have c: "r \<noteq> []" "hd r = c_space" "9 < length p" "hd p = c_slash" "p ! k = c_space" "version_ok (drop k p)"
    by blast+
  from out have res: "m = takeWhile method_char line" "tg = rstrip (take k p)" "ver = drop (k + 1) p" "eol (dropWhile nb_char t) = Some w"
    by auto
  define sp where "sp = takeWhile (\<lambda>ch. ch = c_space) r"
  have r: "r = sp @ p" by (simp add: sp_def p_def)
  have "sp = replicate (length sp) c_space"
    by (rule replicate_length_same [symmetric]) (auto simp: sp_def dest: set_takeWhileD)
  moreover have "sp \<noteq> []" using c(1,2) by (cases r) (auto simp: sp_def)
  ultimately obtain n where sp: "sp = replicate (Suc n) c_space" by (cases "length sp") auto
  have k: "0 < k" "k < length p" "length (drop (k + 1) p) = 8" using c(3) by (auto simp: k_def)
  then have dk: "drop k p = c_space # ver" using c(5) res(3) by (simp add: Cons_nth_drop_Suc [symmetric])
  have "take k p = c_slash # tl (take k p)" using k(1) c(3,4) by (cases p; cases k) auto
  then obtain x where x: "take k p = c_slash # x" by blast
  have p: "p = c_slash # x @ c_space # ver" using x dk by (metis append_Cons append_take_drop_id)
  have line: "line = m @ replicate (Suc n) c_space @ c_slash # x @ c_space # ver"
    using res(1) r sp p by (metis r_def takeWhile_dropWhile_id)
  have "list_all nb_char line" by (auto simp: line_def list_all_iff dest: set_takeWhileD)
  then have "list_all nb_char x" using line by simp
  moreover have "list_all method_char m" by (auto simp: res(1) list_all_iff dest: set_takeWhileD)
  moreover have "dropWhile line_char s = line @ dropWhile nb_char t" by (simp add: t_def line_def)
  ultimately have "line_parts s m n x ver (dropWhile nb_char t)"
    using line k(3) res(3) c(6) dk by (simp add: line_parts_def)
  then show ?thesis using res(2,4) x by auto
qed

lemma rstrip_replicate:
  assumes "s = t @ replicate j c_space" and "t \<noteq> []" and "last t \<noteq> c_space"
  shows "rstrip s = t"
proof -
  have "dropWhile (\<lambda>ch. ch = c_space) (replicate j c_space @ rev t) = rev t"
    using assms(2,3) by (cases t rule: rev_cases) (auto intro: dropWhile_stop simp: list_all_iff)
  then show ?thesis by (simp add: rstrip_def assms(1))
qed

lemma request_cut_complete:
  assumes "line_parts s m n x ver (e # u)" and "line_char e"
  shows "\<exists>te. request_cut s = Some (m, c_slash # x @ c_space # ver @ e # u, te, c_space # ver @ e # u)
    \<and> c_slash # x @ c_space # ver @ e # u = rstrip (c_slash # x) @ te"
proof -
  let ?v = "c_space # ver @ e # u"
  define p where "p = c_slash # x @ ?v"
  define r where "r = takeWhile run_char x"
  define x2 where "x2 = dropWhile run_char x"
  have x: "x = r @ x2" by (simp add: r_def x2_def)
  have nb: "list_all nb_char x" and v: "length ver = 8" "version_ok (c_space # ver)" and m: "list_all method_char m"
    and s: "dropWhile line_char s = m @ c_space # replicate n c_space @ p"
    using assms(1) by (simp_all add: line_parts_def p_def)
  have "method_result [] (dropWhile line_char s) = Method_space m (c_space # replicate n c_space @ p)"
    unfolding s method_result_def
    by (simp add: takeWhile_stop [OF m method_space] dropWhile_stop [OF m method_space])
  moreover have "dropWhile (\<lambda>ch. ch = c_space) (replicate n c_space @ p) = p"
    unfolding p_def by (rule dropWhile_stop) (simp_all add: list_all_iff)
  moreover have r: "list_all run_char r" by (auto simp: r_def list_all_iff dest: set_takeWhileD)
  have x2: "x2 = [] \<or> hd x2 = c_space"
    using nb hd_dropWhile [of run_char x] set_dropWhileD [of "hd x2" run_char x]
    by (cases x2) (auto simp: x2_def [symmetric] run_char_def nb_char_def list_all_iff)
  obtain q where q: "x2 @ ?v = c_space # q" using x2 by (cases x2) auto
  have "dropWhile run_char (tl p) = c_space # q"
    using dropWhile_stop [OF r, of c_space q] q by (simp add: p_def x run_char_def)
  moreover have nb2: "list_all nb_char x2" using nb x by simp
  obtain te y j where a: "accept_pos (x2 @ ?v) (x2 @ ?v) = Some (te, ?v)" "te = replicate j c_space @ ?v"
    "x2 = y @ replicate j c_space" "y = [] \<or> last y \<noteq> c_space"
    using accept_pos_complete [OF nb2 version_chars(2) [OF v(2,1)] v(1) version_chars(1) [OF v(2,1)] assms(2) x2, of 0 u]
    unfolding replicate_0 append_Nil by blast
  ultimately have "request_cut s = Some (m, p, te, ?v)"
    unfolding request_cut_def using q by (simp add: p_def bad_char_def Let_def)
  moreover have "last (c_slash # r @ y) \<noteq> c_space"
    using a(4) r last_in_set [of r] by (cases "y = []") (auto simp: list_all_iff run_char_def)
  then have "rstrip (c_slash # x) = c_slash # r @ y"
    using rstrip_replicate [of "c_slash # x" "c_slash # r @ y" j] x a(3) by simp
  ultimately show ?thesis using x a(2,3) by (simp add: p_def)
qed

lemma request_cut_parts:
  assumes "request_cut s = Some (m, p, te, v)" and "version_ok v"
  shows "\<exists>n x ver e u. line_parts s m n x ver (e # u) \<and> line_char e \<and> v = c_space # ver @ e # u
    \<and> p = c_slash # x @ v \<and> p = rstrip (c_slash # x) @ te"
proof -
  obtain q where q: "method_result [] (dropWhile line_char s) = Method_space m q"
    using assms(1) by (auto simp: request_cut_def Let_def split: method_end.splits if_splits list.splits)
  have p: "p = dropWhile (\<lambda>ch. ch = c_space) (tl q)"
    using assms(1) q by (auto simp: request_cut_def Let_def split: if_splits list.splits)
  obtain x where v: "p = c_slash # x @ v" "list_all (\<lambda>c. \<not> bad_char c) x" "10 \<le> length v" "hd v = c_space" "line_char (v ! 9)"
    using request_cut_facts [OF assms(1)] by (elim exE conjE) (rule that)
  define ver where "ver = take 8 (tl v)"
  have "length (tl v) = length v - 1" by simp
  then have "tl v = ver @ v ! 9 # drop 9 (tl v)"
    using v(3) id_take_nth_drop [of 8 "tl v"] by (simp add: ver_def nth_tl)
  then have v': "v = c_space # ver @ v ! 9 # drop 9 (tl v)" "length ver = 8"
    using v(3,4) by (cases v; simp add: ver_def)+
  have ok: "version_ok (c_space # ver)"
    using assms(2) v'(2) unfolding version_ok_def by (subst (asm) (1 2) v'(1)) (simp add: nth_append)
  have m: "m = takeWhile method_char (dropWhile line_char s)" "dropWhile line_char s = m @ q" "q \<noteq> []" "hd q = c_space"
    using method_result_space [OF q] by auto
  define sp where "sp = takeWhile (\<lambda>ch. ch = c_space) (tl q)"
  have "sp = replicate (length sp) c_space"
    by (rule replicate_length_same [symmetric]) (auto simp: sp_def dest: set_takeWhileD)
  then have "q = replicate (Suc (length sp)) c_space @ p"
    using m(3,4) p by (metis append_Cons list.collapse replicate_Suc sp_def takeWhile_dropWhile_id)
  then have "dropWhile line_char s = (m @ replicate (Suc (length sp)) c_space @ c_slash # x @ c_space # ver) @ v ! 9 # drop 9 (tl v)"
    using m(2) v(1) v'(1) by simp
  moreover have "list_all method_char m" unfolding m(1) by (auto simp: list_all_iff dest: set_takeWhileD)
  ultimately have parts: "line_parts s m (length sp) x ver (v ! 9 # drop 9 (tl v))"
    using v(2) v'(2) ok by (simp add: line_parts_def nb_char_def [abs_def])
  obtain te' where "request_cut s = Some (m, p, te', v)" "p = rstrip (c_slash # x) @ te'"
    using request_cut_complete [OF parts v(5)] v(1) v'(1) by auto
  then have "p = rstrip (c_slash # x) @ te" using assms(1) by simp
  with parts v(1,5) v'(1) show ?thesis by blast
qed

section \<open>What a call does with the request line\<close>

lemma method_result_prefix:
  assumes "a @ b = m @ replicate (Suc n) c_space @ p" and "list_all method_char m"
  shows "method_result [] a = Method_again a
    \<or> (\<exists>q. method_result [] a = Method_space m (c_space # q) \<and> q @ b = replicate n c_space @ p)"
proof -
  from assms(1) consider r where "m = a @ r" | r where "a = m @ r" "r @ b = c_space # replicate n c_space @ p"
    by (auto simp: append_eq_append_conv2)
  then show ?thesis
  proof cases
    case 1
    then have "dropWhile method_char a = []" using assms(2) by (simp add: dropWhile_eq_Nil_conv list_all_iff)
    then show ?thesis by (simp add: method_result_def)
  next
    case 2
    show ?thesis
    proof (cases r)
      case Nil
      then have "dropWhile method_char a = []" using assms(2) 2 by (simp add: dropWhile_eq_Nil_conv list_all_iff)
      then show ?thesis by (simp add: method_result_def)
    next
      case (Cons ch q)
      then have "method_result [] a = Method_space m (c_space # q)"
        using 2 takeWhile_stop [OF assms(2) method_space, of q] dropWhile_stop [OF assms(2) method_space, of q]
        by (simp add: method_result_def)
      then show ?thesis using 2 Cons by auto
    qed
  qed
qed

lemma prefix_le: "a @ c = d @ z \<Longrightarrow> length a \<le> length d \<Longrightarrow> \<exists>r. d = a @ r"
  by (auto simp: append_eq_append_conv2)

lemma request_line_again:
  assumes "line_parts (s @ c) m n x ver z"
    and "length (dropWhile line_char s) \<le> length (m @ replicate (Suc n) c_space @ c_slash # x @ c_space # ver)"
  shows "\<exists>rp'. nxt_http_parse_request_line mem rp s = (Rc NXT_AGAIN, rp', s) \<and> same_line rp rp'"
proof -
  define a where "a = dropWhile line_char s"
  let ?D = "m @ replicate (Suc n) c_space @ c_slash # x @ c_space # ver"
  have again: ?thesis if "method_result [] a = Method_again k" for k
    using that by (auto simp: nxt_http_parse_request_line_def method_for_eq a_def same_line_method)
  show ?thesis
  proof (cases "a = []")
    case True
    then show ?thesis using again by (simp add: method_result_def)
  next
    case False
    then obtain ch t where "dropWhile line_char s = ch # t" by (cases a) (auto simp: a_def)
    then have "dropWhile line_char (s @ c) = a @ c" by (simp add: dropWhile_append_Cons a_def)
    then have ac: "a @ c = ?D @ z" using assms(1) by (simp add: line_parts_def)
    then obtain r where "?D = a @ r" using prefix_le [OF ac] assms(2) unfolding a_def by blast
    then have nb: "list_all nb_char a"
      using line_parts_nb [OF assms(1)] by (metis list_all_append)
    have "a @ c = m @ replicate (Suc n) c_space @ (c_slash # x @ c_space # ver @ z)" using ac by simp
    from method_result_prefix [OF this] assms(1)
    consider k where "method_result [] a = Method_again k"
      | q where "method_result [] a = Method_space m (c_space # q)" "q @ c = replicate n c_space @ c_slash # x @ c_space # ver @ z"
      by (auto simp: line_parts_def)
    then show ?thesis
    proof cases
      case 1
      then show ?thesis by (rule again)
    next
      case (2 q)
      define p where "p = dropWhile (\<lambda>ch. ch = c_space) q"
      note line = request_line_space [OF 2(1) [unfolded a_def], of mem rp, unfolded list.sel, folded p_def]
      show ?thesis
      proof (cases p)
        case Nil
        then show ?thesis using line by (auto simp: same_line_method)
      next
        case (Cons ch r)
        have "ch # r @ c = dropWhile (\<lambda>ch. ch = c_space) (q @ c)"
          using dropWhile_append_Cons [of "\<lambda>ch. ch = c_space" q ch r c] Cons by (simp add: p_def)
        also have "\<dots> = c_slash # x @ c_space # ver @ z"
          unfolding 2(2) by (rule dropWhile_stop) (simp_all add: list_all_iff)
        finally have ch: "ch = c_slash" by simp
        obtain w where "a = w @ p"
          using method_result_space [OF 2(1)] by (metis p_def append.assoc append_Cons takeWhile_dropWhile_id)
        then have "list_all (\<lambda>c. \<not> bad_char c) p" using nb by (simp add: nb_char_def [abs_def])
        then obtain rp' where "target_loop Continue_target (rp\<lparr>rp_method := m, target_start := p\<rparr>) (tl p) None False p
            = Inl (Rc NXT_AGAIN, rp')" "same_target (rp\<lparr>rp_method := m, target_start := p\<rparr>) rp'"
          using target_loop_no_bad [of p] Cons by blast
        then show ?thesis using line Cons ch by (auto intro: same_lineI)
      qed
    qed
  qed
qed

lemma dropWhile_append_nonempty: "dropWhile P s \<noteq> [] \<Longrightarrow> dropWhile P (s @ c) = dropWhile P s @ c"
  by (cases "dropWhile P s") (simp_all add: dropWhile_append_Cons)

lemma line_parts_append: "line_parts s m n x ver z \<Longrightarrow> line_parts (s @ c) m n x ver (z @ c)"
  by (simp add: line_parts_def dropWhile_append_nonempty)

lemma eol_append: "eol s = Some t \<Longrightarrow> eol (s @ c) = Some (t @ c)"
  by (cases s) (auto split: if_splits list.splits)

lemma line_parts_rest:
  assumes "line_parts s m n x ver (e # u)" and "line_char e"
  shows "dropWhile nb_char (dropWhile line_char s) = e # u"
  using dropWhile_stop [OF line_parts_nb [OF assms(1)] line_char_not_nb [OF assms(2)]] assms(1)
  by (simp add: line_parts_def)

lemma line_spec_rest:
  assumes "line_parts s m n x ver (e # u)" and "line_char e"
  shows "line_spec s = map_option (\<lambda>w. (m, rstrip (c_slash # x), ver, w)) (eol (e # u))"
proof (cases "eol (e # u)")
  case (Some w)
  then show ?thesis using line_parts_spec [OF assms(1)] by simp
next
  case None
  have "line_spec s = None"
  proof (rule ccontr)
    assume "line_spec s \<noteq> None"
    then obtain m' tg ver' w where "line_spec s = Some (m', tg, ver', w)" by auto
    then obtain n' x' z where z: "line_parts s m' n' x' ver' z" "eol z = Some w" using line_spec_parts by blast
    obtain e' u' where "z = e' # u'" "line_char e'" using eol_line [OF z(2)] by blast
    then have "z = e # u" using z(1) line_parts_rest [OF assms] line_parts_rest [of s m' n' x' ver' e' u'] by simp
    then show False using z(2) None by (simp del: eol.simps)
  qed
  then show ?thesis using None by simp
qed

lemma longer_prefix:
  assumes "a @ c = d @ z" and "length d < length a"
  shows "\<exists>e u. a = d @ e # u \<and> z = e # u @ c"
proof -
  obtain r where "a = d @ r" "z = r @ c" using assms by (auto simp: append_eq_append_conv2)
  with assms(2) show ?thesis by (cases r) auto
qed

text \<open>A line that may still come can only be there already, or the call returns \<open>NXT_AGAIN\<close>.\<close>

lemma line_spec_prefix:
  assumes "line_spec (s @ c) \<noteq> None"
  shows "(\<forall>mem rp. \<exists>rp'. nxt_http_parse_request_line mem rp s = (Rc NXT_AGAIN, rp', s) \<and> same_line rp rp')
    \<or> (\<exists>m n x ver e u. line_parts s m n x ver (e # u) \<and> line_char e)"
proof -
  obtain m tg ver w where "line_spec (s @ c) = Some (m, tg, ver, w)" using assms by auto
  then obtain n x z where z: "line_parts (s @ c) m n x ver z" "eol z = Some w" using line_spec_parts by blast
  let ?D = "m @ replicate (Suc n) c_space @ c_slash # x @ c_space # ver"
  show ?thesis
  proof (cases "length (dropWhile line_char s) \<le> length ?D")
    case True
    then show ?thesis using request_line_again [OF z(1)] by blast
  next
    case False
    then have "dropWhile line_char s \<noteq> []" by auto
    then have "dropWhile line_char s @ c = ?D @ z"
      using z(1) by (simp add: line_parts_def dropWhile_append_nonempty)
    then obtain e u where r: "dropWhile line_char s = ?D @ e # u" "z = e # u @ c"
      using longer_prefix False by (metis not_le)
    moreover have "line_char e" using eol_line [OF z(2)] r(2) by auto
    ultimately have "line_parts s m n x ver (e # u) \<and> line_char e" using z(1) r(1) by (simp add: line_parts_def)
    then show ?thesis by blast
  qed
qed

text \<open>The fields that a call with an incomplete line changes, and those a complete line sets.\<close>

definition line_keep :: "http_request_parse \<Rightarrow> http_request_parse \<Rightarrow> bool" where
  "line_keep rp rp' \<longleftrightarrow> (\<exists>m ts te ct qt ver. rp' = rp\<lparr>rp_method := m, target_start := ts, target_end := te,
     complex_target := ct, quoted_target := qt, rp_version := ver\<rparr>)"

definition line_done :: "http_request_parse \<Rightarrow> http_request_parse \<Rightarrow> nxt_str \<Rightarrow> nxt_str \<Rightarrow> nxt_str \<Rightarrow> nxt_str \<Rightarrow> bool" where
  "line_done rp rp' m path a ver \<longleftrightarrow> (\<exists>ts te ct qt le. rp' = rp\<lparr>rp_method := m, target_start := ts, target_end := te,
     complex_target := ct, quoted_target := qt, rp_version := ver, request_line_end := le, rp_path := path, rp_args := a\<rparr>)"

lemma same_line_keep: "same_line rp rp' \<Longrightarrow> line_keep rp rp'"
proof -
  assume "same_line rp rp'"
  then obtain m ts te ct qt where
    "rp' = rp\<lparr>rp_method := m, target_start := ts, target_end := te, complex_target := ct, quoted_target := qt\<rparr>"
    unfolding same_line_def by blast
  then have "rp' = rp\<lparr>rp_method := m, target_start := ts, target_end := te, complex_target := ct, quoted_target := qt,
      rp_version := rp_version rp\<rparr>" by simp
  then show ?thesis unfolding line_keep_def by blast
qed

definition line_outcome :: "http_request_parse \<Rightarrow> nxt_str \<Rightarrow> http_rc \<times> http_request_parse \<times> nxt_str \<Rightarrow> bool" where
  "line_outcome rp s r \<longleftrightarrow>
     (\<exists>rp'. r = (Rc NXT_AGAIN, rp', s) \<and> line_keep rp rp' \<and> head_spec rp s = None)
   \<or> (\<exists>rc rp' s'. r = (rc, rp', s') \<and> rc \<in> {NXT_HTTP_PARSE_INVALID, NXT_HTTP_PARSE_UNSUPPORTED_VERSION}
        \<and> (\<forall>c. head_spec rp (s @ c) = None))
   \<or> (\<exists>m path a ver t rp'. (\<forall>c. head_spec rp (s @ c) = Some (m, path, a, ver, t @ c)) \<and> line_done rp rp' m path a ver
        \<and> length t < length s \<and> r = nxt_http_parse_field_name (\<lambda>_. True) rp' t)"

lemma line_outcome_error:
  assumes "rc \<in> {NXT_HTTP_PARSE_INVALID, NXT_HTTP_PARSE_UNSUPPORTED_VERSION}"
    and "nxt_http_parse_request_line (\<lambda>_. True) rp s = (rc, rp', s')"
    and "\<And>m n x ver e u. line_parts s m n x ver (e # u) \<Longrightarrow> line_char e \<Longrightarrow> False"
  shows "line_outcome rp s (rc, rp', s')"
proof -
  have "line_spec (s @ c) = None" for c
  proof (rule ccontr)
    assume "line_spec (s @ c) \<noteq> None"
    from line_spec_prefix [OF this] assms(3) have "fst (nxt_http_parse_request_line (\<lambda>_. True) rp s) = Rc NXT_AGAIN"
      by (metis fst_conv)
    then show False using assms(1,2) by auto
  qed
  then show ?thesis using assms(1) by (auto simp: line_outcome_def head_spec_def)
qed

lemma request_line_no_version:
  assumes "\<And>m p te v. request_cut s = Some (m, p, te, v) \<Longrightarrow> \<not> version_ok v"
  shows "line_outcome rp s (nxt_http_parse_request_line (\<lambda>_. True) rp s)"
proof -
  have no_parts: False if "line_parts s m n x ver (e # u)" "line_char e" for m n x ver e u
  proof -
    have "version_ok (c_space # ver)" "length ver = 8" using that(1) by (simp_all add: line_parts_def)
    then have "version_ok (c_space # ver @ e # u)" by (simp add: version_ok_def nth_append)
    then show False using request_cut_complete [OF that] assms by blast
  qed
  show ?thesis
  proof (cases "request_cut s")
    case None
    with request_line_cut [where pos = s and mem = "\<lambda>_. True" and rp = rp] obtain rc rp' where
      r: "nxt_http_parse_request_line (\<lambda>_. True) rp s = (rc, rp', s)" "same_line rp rp'"
      "rc = Rc NXT_AGAIN \<or> rc = NXT_HTTP_PARSE_INVALID" by auto
    from r(3) show ?thesis
    proof
      assume "rc = NXT_HTTP_PARSE_INVALID"
      then show ?thesis using line_outcome_error [OF _ r(1)] no_parts r(1) by auto
    next
      assume again: "rc = Rc NXT_AGAIN"
      have "line_spec s = None"
      proof (rule ccontr)
        assume "line_spec s \<noteq> None"
        then obtain m tg ver w where "line_spec s = Some (m, tg, ver, w)" by auto
        then obtain n x z where z: "line_parts s m n x ver z" "eol z = Some w" using line_spec_parts by blast
        then show False using no_parts eol_line [OF z(2)] by blast
      qed
      then have "head_spec rp s = None" by (simp add: head_spec_def)
      then show ?thesis using r(1) same_line_keep [OF r(2)] again unfolding line_outcome_def by blast
    qed
  next
    case (Some cut)
    obtain m p te v where cut: "cut = (m, p, te, v)" by (cases cut)
    with Some request_line_cut [where pos = s and mem = "\<lambda>_. True" and rp = rp] obtain rp1 args where
      run: "nxt_http_parse_request_line (\<lambda>_. True) rp s = request_line_version (\<lambda>_. True) rp1 s args v" by auto
    have "10 \<le> length v" using request_cut_facts [of s m p te v] Some cut by auto
    with request_line_version_bad [of v "\<lambda>_. True" rp1 s args] assms Some cut run obtain rc rp' where
      "nxt_http_parse_request_line (\<lambda>_. True) rp s = (rc, rp', s)"
      "rc \<in> {NXT_HTTP_PARSE_INVALID, NXT_HTTP_PARSE_UNSUPPORTED_VERSION}" by auto
    then show ?thesis using line_outcome_error [of rc rp s rp' s] no_parts by auto
  qed
qed

lemma line_end_eol:
  assumes "line_char e" and "length ver = 8"
  shows "line_end (c_space # ver @ e # u) =
    (case eol (e # u) of
       Some t \<Rightarrow> Inr t
     | None \<Rightarrow> Inl (if u = [] then Rc NXT_AGAIN else NXT_HTTP_PARSE_INVALID))"
proof -
  have "(c_space # ver @ e # u) ! 9 = e" "drop 10 (c_space # ver @ e # u) = u" "drop 11 (c_space # ver @ e # u) = tl u"
    "u \<noteq> [] \<Longrightarrow> (c_space # ver @ e # u) ! 10 = hd u"
    using assms(2) by (simp_all add: nth_append hd_conv_nth drop_Suc)
  then show ?thesis using assms(1) by (cases u) (auto simp: line_end_def line_char_def)
qed

lemma line_doneI:
  assumes "same_target (rp\<lparr>rp_method := m, target_start := p\<rparr>) rp1"
  shows "line_done rp (rp1\<lparr>rp_version := ver, request_line_end := le, rp_path := path, rp_args := a, quoted_target := q\<rparr>) m path a ver"
proof -
  obtain te ct qt where rp1: "rp1 = rp\<lparr>rp_method := m, target_start := p, target_end := te, complex_target := ct, quoted_target := qt\<rparr>"
    using assms unfolding same_target_def by auto
  show ?thesis
    unfolding line_done_def rp1
    by (intro exI [of _ p] exI [of _ te] exI [of _ ct] exI [of _ q] exI [of _ le]) simp
qed

lemma line_keepI:
  assumes "same_target (rp\<lparr>rp_method := m, target_start := p\<rparr>) rp1"
  shows "line_keep rp (rp1\<lparr>rp_version := ver\<rparr>)"
proof -
  obtain te ct qt where rp1: "rp1 = rp\<lparr>rp_method := m, target_start := p, target_end := te, complex_target := ct, quoted_target := qt\<rparr>"
    using assms unfolding same_target_def by auto
  show ?thesis
    unfolding line_keep_def rp1
    by (intro exI [of _ m] exI [of _ p] exI [of _ te] exI [of _ ct] exI [of _ qt] exI [of _ ver]) simp
qed

lemma rstrip_slash: "\<exists>t. rstrip (c_slash # x) = c_slash # t"
proof -
  have "dropWhile (\<lambda>ch. ch = c_space) (rev x @ [c_slash]) = dropWhile (\<lambda>ch. ch = c_space) (rev x) @ [c_slash]"
    by (rule dropWhile_append3) simp
  then show ?thesis by (simp add: rstrip_def)
qed

lemma request_line_version_outcome:
  assumes "request_cut s = Some (m, p, te, v)" and "version_ok v"
  shows "line_outcome rp s (nxt_http_parse_request_line (\<lambda>_. True) rp s)"
proof -
  obtain n x ver e u where parts: "line_parts s m n x ver (e # u)" "line_char e" "v = c_space # ver @ e # u"
    "p = c_slash # x @ v" "p = rstrip (c_slash # x) @ te"
    using request_cut_parts [OF assms] by (elim exE conjE) (rule that)
  have ver: "length ver = 8" "take 8 (tl v) = ver" "10 \<le> length v" "line_char (v ! 9)"
    using parts(1,2,3) by (simp_all add: line_parts_def nth_append)
  from request_line_cut [where pos = s and mem = "\<lambda>_. True" and rp = rp] assms(1) obtain rp1 args rest t where run:
    "nxt_http_parse_request_line (\<lambda>_. True) rp s = request_line_version (\<lambda>_. True) rp1 s args v"
    "same_target (rp\<lparr>rp_method := m, target_start := p\<rparr>) rp1" "target_end rp1 = te" "p = t @ te" "scanned rp1 args rest t te"
    by auto
  note res = run(1) [unfolded request_line_version_ok [OF ver(3,4) assms(2)] Let_def ver(2),
      unfolded parts(3) line_end_eol [OF parts(2) ver(1)]]
  have head: "head_spec rp (s @ c) = (case eol (e # u @ c) of None \<Rightarrow> None
      | Some w \<Rightarrow> map_option (\<lambda>(path, args). (m, path, case args of None \<Rightarrow> rp_args rp | Some a \<Rightarrow> a, ver, w))
          (target_spec (encoded_slashes rp) (tl (rstrip (c_slash # x)))))" for c
    using line_spec_rest [of "s @ c" m n x ver e "u @ c"] line_parts_append [OF parts(1), of c] parts(2)
    by (simp add: head_spec_def split: option.split)
  show ?thesis
  proof (cases "eol (e # u)")
    case None
    show ?thesis
    proof (cases "u = []")
      case True
      then have "head_spec rp s = None" using head [of "[]"] None by (simp del: eol.simps)
      moreover have "nxt_http_parse_request_line (\<lambda>_. True) rp s = (Rc NXT_AGAIN, rp1\<lparr>rp_version := ver\<rparr>, s)"
        using res None True by (simp del: eol.simps)
      ultimately show ?thesis using line_keepI [OF run(2)] unfolding line_outcome_def by blast
    next
      case False
      then have "eol (e # u @ c) = None" for c using None parts(2) by (cases u) (auto simp: line_char_def split: if_splits)
      then have "head_spec rp (s @ c) = None" for c using head [of c] by (simp del: eol.simps)
      then show ?thesis using res None False by (auto simp: line_outcome_def simp del: eol.simps)
    qed
  next
    case (Some w)
    define rp2 where "rp2 = rp1\<lparr>rp_version := ver, request_line_end := drop 9 (c_space # ver @ e # u)\<rparr>"
    have "t @ te = rstrip (c_slash # x) @ te" using run(4) parts(5) by (rule trans [OF sym])
    then obtain t' where t: "t = rstrip (c_slash # x)" "t = c_slash # t'"
      using rstrip_slash [of x] by (metis append_same_eq)
    obtain te1 ct qt where rp1: "rp1 = rp\<lparr>rp_method := m, target_start := p, target_end := te1, complex_target := ct, quoted_target := qt\<rparr>"
      using run(2) unfolding same_target_def by auto
    have same: "target_start rp2 = p" "encoded_slashes rp2 = encoded_slashes rp" "rp_args rp2 = rp_args rp"
      by (simp_all add: rp2_def rp1)
    have keep: "target_end rp2 = target_end rp1" "complex_target rp2 = complex_target rp1" "quoted_target rp2 = quoted_target rp1"
      by (simp_all add: rp2_def)
    have rp2: "scanned rp2 args rest t (target_end rp2)" "target_start rp2 = t @ target_end rp2"
      "encoded_slashes rp2 = encoded_slashes rp" "rp_args rp2 = rp_args rp"
      using run(3-5) same by (simp_all only: keep scanned_def)
    have rt: "tl (rp_target rp2) = tl t" using rp2(2) by (simp add: rp_target_def)
    note path = line_path_spec [of "\<lambda>_. True", OF TrueI rp2(1,2) t(2)]
    have eolc: "eol (e # u @ c) = Some (w @ c)" for c using eol_append [OF Some, of c] by simp
    have line: "nxt_http_parse_request_line (\<lambda>_. True) rp s =
        (case line_path (\<lambda>_. True) rp2 args of (Rc NXT_OK, rp) \<Rightarrow> nxt_http_parse_field_name (\<lambda>_. True) rp w | (rc, rp) \<Rightarrow> (rc, rp, w))"
      using res Some by (simp add: rp2_def del: eol.simps)
    show ?thesis
    proof (cases "target_spec (encoded_slashes rp) (tl t)")
      case None
      then have "fst (line_path (\<lambda>_. True) rp2 args) = NXT_HTTP_PARSE_INVALID" using path rp2(3) rt by (simp add: target_of_def)
      then have "\<exists>rp'. nxt_http_parse_request_line (\<lambda>_. True) rp s = (NXT_HTTP_PARSE_INVALID, rp', w)"
        using line by (cases "line_path (\<lambda>_. True) rp2 args") auto
      moreover have "head_spec rp (s @ c) = None" for c using head [of c] eolc None t(1) by (simp del: eol.simps)
      ultimately show ?thesis unfolding line_outcome_def by blast
    next
      case (Some pa)
      obtain pth args' where pa: "pa = (pth, args')" by (cases pa)
      define a where "a = (case args' of None \<Rightarrow> rp_args rp | Some a \<Rightarrow> a)"
      have "target_of rp2 = Some (pth, a)" using Some pa rp2(3,4) rt by (simp add: target_of_def a_def split: option.split)
      with path obtain q where q: "line_path (\<lambda>_. True) rp2 args = (Rc NXT_OK, rp2\<lparr>rp_path := pth, rp_args := a, quoted_target := q\<rparr>)"
        by auto
      have "head_spec rp (s @ c) = Some (m, pth, a, ver, w @ c)" for c
        using head [of c] eolc Some pa t(1) by (simp add: a_def del: eol.simps)
      moreover have "line_done rp (rp2\<lparr>rp_path := pth, rp_args := a, quoted_target := q\<rparr>) m pth a ver"
        unfolding rp2_def using line_doneI [OF run(2)] by simp
      moreover have "length w < length s"
        using eol_length [OF \<open>eol (e # u) = Some w\<close>] line_parts_rest [OF parts(1,2)]
        by (metis dual_order.strict_trans1 length_dropWhile_le)
      ultimately show ?thesis using line q unfolding line_outcome_def by auto
    qed
  qed
qed

lemma request_line_outcome: "line_outcome rp s (nxt_http_parse_request_line (\<lambda>_. True) rp s)"
  using request_line_no_version request_line_version_outcome by blast

section \<open>Parsers that are called again with more data\<close>

text \<open>
  A caller of the parser appends what it has received to the data that the parser has not
  consumed, and calls it again as long as it returns \<open>NXT_AGAIN\<close>.  What follows the last call is
  left to the caller.
\<close>

fun feed :: "('s \<Rightarrow> nxt_str \<Rightarrow> http_rc \<times> 's \<times> nxt_str) \<Rightarrow> 's \<Rightarrow> nxt_str \<Rightarrow> nxt_str list \<Rightarrow> http_rc \<times> 's \<times> nxt_str" where
  "feed parse st s [] = parse st s"
| "feed parse st s (c # cs) =
     (case parse st s of
        (rc, st, s) \<Rightarrow> if rc = Rc NXT_AGAIN then feed parse st (s @ c) cs else (rc, st, s @ c @ concat cs))"

text \<open>
  The interface of such a parser.  \<open>spec st s\<close> is what is to be parsed from \<open>s\<close> in the state
  \<open>st\<close>, if it is complete and correct, and \<open>result st s\<close> is what the state has in the end.  A
  call either completes the parsing, whatever follows; or it finds that nothing that follows can
  make the data correct; or it finds the data incomplete and keeps what is to be parsed.
\<close>

locale segmented_parser =
  fixes parse :: "'s \<Rightarrow> nxt_str \<Rightarrow> http_rc \<times> 's \<times> nxt_str"
    and inv :: "'s \<Rightarrow> nxt_str \<Rightarrow> bool"
    and spec :: "'s \<Rightarrow> nxt_str \<Rightarrow> 'r option"
    and result :: "'s \<Rightarrow> nxt_str \<Rightarrow> 'r"
    and bound :: nat
  assumes parse_le: "length (snd (snd (parse st s))) \<le> length s"
    and parse_done: "inv st s \<Longrightarrow> length s \<le> bound \<Longrightarrow> parse st s = (Rc NXT_DONE, st', s') \<Longrightarrow>
      spec st (s @ c) = Some (result st' (s' @ c))"
    and parse_again: "inv st s \<Longrightarrow> length s \<le> bound \<Longrightarrow> parse st s = (Rc NXT_AGAIN, st', s') \<Longrightarrow>
      spec st s = None \<and> inv st' (s' @ c) \<and> spec st (s @ c) = spec st' (s' @ c)"
    and parse_error: "inv st s \<Longrightarrow> length s \<le> bound \<Longrightarrow> parse st s = (rc, st', s') \<Longrightarrow>
      rc \<noteq> Rc NXT_DONE \<Longrightarrow> rc \<noteq> Rc NXT_AGAIN \<Longrightarrow> spec st (s @ c) = None"
begin

lemma feed_spec:
  "inv st s \<Longrightarrow> length (s @ concat cs) \<le> bound \<Longrightarrow>
   case spec st (s @ concat cs) of
     None \<Rightarrow> fst (feed parse st s cs) \<noteq> Rc NXT_DONE
   | Some r \<Rightarrow> \<exists>st' s'. feed parse st s cs = (Rc NXT_DONE, st', s') \<and> result st' s' = r"
proof (induction cs arbitrary: st s)
  case Nil
  obtain rc st' s' where p: "parse st s = (rc, st', s')" by (metis prod_cases3)
  from Nil have i: "inv st s" "length s \<le> bound" by simp_all
  consider "rc = Rc NXT_DONE" | "rc = Rc NXT_AGAIN" | "rc \<noteq> Rc NXT_DONE" "rc \<noteq> Rc NXT_AGAIN" by blast
  then show ?case
  proof cases
    case 1
    then show ?thesis using parse_done [OF i, of st' s' "[]"] p by simp
  next
    case 2
    then show ?thesis using parse_again [OF i, of st' s' "[]"] p by simp
  next
    case 3
    then show ?thesis using parse_error [OF i p, of "[]"] p by simp
  qed
next
  case (Cons c cs)
  obtain rc st' s' where p: "parse st s = (rc, st', s')" by (metis prod_cases3)
  from Cons.prems have i: "inv st s" "length s \<le> bound" by simp_all
  consider "rc = Rc NXT_DONE" | "rc = Rc NXT_AGAIN" | "rc \<noteq> Rc NXT_DONE" "rc \<noteq> Rc NXT_AGAIN" by blast
  then show ?case
  proof cases
    case 1
    then show ?thesis using parse_done [OF i, of st' s' "c @ concat cs"] p by simp
  next
    case 2
    have "length s' \<le> length s" using parse_le [of st s] p by simp
    then have "length ((s' @ c) @ concat cs) \<le> bound" using Cons.prems(2) by simp
    moreover have "inv st' (s' @ c)" "spec st (s @ c @ concat cs) = spec st' (s' @ c @ concat cs)"
      using parse_again [OF i, of st' s'] p 2 by simp_all
    moreover have "feed parse st s (c # cs) = feed parse st' (s' @ c) cs" using p 2 by simp
    ultimately show ?thesis using Cons.IH [of st' "s' @ c"] by (simp only: append_assoc concat.simps)
  next
    case 3
    then show ?thesis using parse_error [OF i p, of "c @ concat cs"] p by simp
  qed
qed

end

section \<open>The request parser\<close>

definition fields_result :: "http_request_parse \<Rightarrow> (http_field list \<times> nxt_str) option \<Rightarrow> (http_field list \<times> nxt_str) option" where
  "fields_result rp x = map_option (apfst ((@) (rp_field_list rp))) x"

definition run_on :: "http_rc \<times> http_request_parse \<times> nxt_str \<Rightarrow> http_rc \<times> http_request_parse \<times> nxt_str" where
  "run_on r = (case r of (Rc NXT_OK, rp, s) \<Rightarrow> handler_loop (\<lambda>_. True) rp s | r \<Rightarrow> r)"

lemma contract_run_on:
  assumes "contract rp V (rc, rp1, s1)" and "length s1 \<le> NXT_HTTP_MAX_FIELD_VALUE"
  shows "outcome rp V (run_on (rc, rp1, s1))"
proof (cases "rc = Rc NXT_OK")
  case False
  then have "run_on (rc, rp1, s1) = (rc, rp1, s1)"
    by (auto simp: run_on_def split: http_rc.split nxt_rc.split)
  then show ?thesis using contract_outcome [OF assms(1) False] by simp
next
  case True
  have x: "rp_handler rp1 = Field_name_handler" "fresh rp1" "field_store_inv rp1"
    using assms(1) True by (simp_all add: contract_def)
  have "field_inv rp1 s1"
    using x fresh_name_inv [of rp1 s1] by (simp add: field_inv_def name_inv_def)
  then have "outcome rp1 s1 (handler_loop (\<lambda>_. True) rp1 s1)"
    using fields_loop_outcome [OF x(3), of s1] x(1) assms(2) by (simp add: field_handlers_def field_rest_def)
  then show ?thesis
    using outcome_step [of rp V rp1 s1] assms(1) True
    by (cases "handler_loop (\<lambda>_. True) rp1 s1") (simp add: run_on_def)
qed

lemma handler_loop_run_on: "handler_loop (\<lambda>_. True) rp s = run_on (call_handler (\<lambda>_. True) rp s)"
  by (subst handler_loop.simps) (auto simp: run_on_def split: prod.split http_rc.split nxt_rc.split)

lemma field_rest_append: "field_rest rp s @ c = field_rest rp (s @ c)"
  by (simp add: field_rest_def split: http_handler.split)

lemma line_fields_spec: "line_fields rp' = line_fields rp \<Longrightarrow> rp_spec rp' = rp_spec rp"
  by (simp add: line_fields_def rp_spec_def)

lemma outcome_done:
  assumes "outcome rp V (Rc NXT_DONE, rp', s')"
  shows "fields_result rp (rp_spec rp (V @ c)) = Some (rp_field_list rp', s' @ c)"
  using assms by (auto simp: outcome_def fields_result_def)

lemma outcome_again:
  assumes "outcome rp V (Rc NXT_AGAIN, rp', s')"
  shows "rp_spec rp V = None \<and> field_store_inv rp' \<and> field_inv rp' (s' @ c) \<and> rp_handler rp' \<in> field_handlers
    \<and> line_fields rp' = line_fields rp
    \<and> fields_result rp (rp_spec rp (V @ c)) = fields_result rp' (rp_spec rp' (field_rest rp' (s' @ c)))"
proof -
  have ne: "Rc NXT_AGAIN \<noteq> Rc NXT_DONE" by simp
  have out: "line_fields rp' = line_fields rp" "field_store_inv rp'" "rp_handler rp' \<in> field_handlers"
      "\<forall>c. field_inv rp' (s' @ c)" "rp_spec rp V = None"
      "\<exists>fs. rp_field_list rp' = rp_field_list rp @ fs
        \<and> (\<forall>c. rp_spec rp (V @ c) = map_option (apfst ((@) fs)) (rp_spec rp (field_rest rp' s' @ c)))"
    using assms unfolding outcome_def prod.case if_not_P [OF ne] if_P [OF refl] by blast+
  have spec: "rp_spec rp' = rp_spec rp" using out(1) by (rule line_fields_spec)
  from out(6)
  obtain fs where "rp_field_list rp' = rp_field_list rp @ fs"
    "rp_spec rp (V @ c) = map_option (apfst ((@) fs)) (rp_spec rp (field_rest rp' s' @ c))" by blast
  then have "fields_result rp (rp_spec rp (V @ c)) = fields_result rp' (rp_spec rp' (field_rest rp' (s' @ c)))"
    by (simp add: fields_result_def spec spec_prefix_append field_rest_append)
  with out(1-5) show ?thesis by blast
qed

lemma outcome_error:
  assumes "outcome rp V (rc, rp', s')" and "rc \<noteq> Rc NXT_DONE" and "rc \<noteq> Rc NXT_AGAIN"
  shows "rp_spec rp (V @ c) = None"
  using assms by (simp add: outcome_def)

text \<open>The header fields alone, \<^verbatim>\<open>nxt_http_parse_fields\<close>.\<close>

definition fields_parse_inv :: "http_request_parse \<Rightarrow> nxt_str \<Rightarrow> bool" where
  "fields_parse_inv rp s \<longleftrightarrow> field_store_inv rp \<and> field_inv rp s \<and> rp_handler rp \<noteq> Request_line_handler"

definition fields_parse_spec :: "http_request_parse \<Rightarrow> nxt_str \<Rightarrow> (http_field list \<times> nxt_str) option" where
  "fields_parse_spec rp s = fields_result rp (rp_spec rp (field_rest rp s))"

definition fields_parse_result :: "http_request_parse \<Rightarrow> nxt_str \<Rightarrow> http_field list \<times> nxt_str" where
  "fields_parse_result rp s = (rp_field_list rp, s)"

lemma parse_fields_outcome:
  assumes "fields_parse_inv rp s" and "length s \<le> NXT_HTTP_MAX_FIELD_VALUE"
  shows "outcome rp (field_rest rp s) (nxt_http_parse_fields (\<lambda>_. True) rp s)"
proof (cases "rp_handler rp = No_handler")
  case True
  define rp1 where "rp1 = rp\<lparr>rp_handler := Field_name_handler\<rparr>"
  have rp1: "field_store_inv rp1" "field_inv rp1 s" "rp_handler rp1 \<in> field_handlers" "field_rest rp1 s = field_rest rp s"
    "rp_spec rp1 = rp_spec rp" "line_fields rp1 = line_fields rp" "rp_field_list rp1 = rp_field_list rp"
    using assms(1) True fresh_name_inv [of rp1 s]
    by (simp_all add: rp1_def fields_parse_inv_def field_inv_def name_inv_def field_handlers_def field_rest_def fresh_def)
  have "outcome rp1 (field_rest rp1 s) (handler_loop (\<lambda>_. True) rp1 s)"
    by (rule fields_loop_outcome [OF rp1(1,2,3) assms(2)])
  moreover have "outcome rp1 V r = outcome rp V r" for V r unfolding outcome_def rp1(5,6,7) by (rule refl)
  moreover have "nxt_http_parse_fields (\<lambda>_. True) rp s = handler_loop (\<lambda>_. True) rp1 s"
    using True by (simp add: nxt_http_parse_fields_def rp1_def)
  ultimately show ?thesis by (simp only: rp1(4))
next
  case False
  then have "rp_handler rp \<in> field_handlers"
    using assms(1) by (cases "rp_handler rp") (simp_all add: fields_parse_inv_def field_handlers_def)
  then show ?thesis
    using fields_loop_outcome [of rp s] assms False by (simp add: nxt_http_parse_fields_def fields_parse_inv_def)
qed

interpretation fields: segmented_parser "nxt_http_parse_fields (\<lambda>_. True)" fields_parse_inv fields_parse_spec
  fields_parse_result NXT_HTTP_MAX_FIELD_VALUE
proof
  fix rp s
  show "length (snd (snd (nxt_http_parse_fields (\<lambda>_. True) rp s))) \<le> length s"
    by (simp add: nxt_http_parse_fields_def handler_loop_le)
  fix rc rp' s' c
  assume "fields_parse_inv rp s" "length s \<le> NXT_HTTP_MAX_FIELD_VALUE"
  note out = parse_fields_outcome [OF this]
  show "fields_parse_spec rp (s @ c) = Some (fields_parse_result rp' (s' @ c))"
    if "nxt_http_parse_fields (\<lambda>_. True) rp s = (Rc NXT_DONE, rp', s')"
    using outcome_done [of rp "field_rest rp s" rp' s' c] out that
    by (simp add: fields_parse_spec_def fields_parse_result_def field_rest_append)
  show "fields_parse_spec rp s = None \<and> fields_parse_inv rp' (s' @ c) \<and> fields_parse_spec rp (s @ c) = fields_parse_spec rp' (s' @ c)"
    if "nxt_http_parse_fields (\<lambda>_. True) rp s = (Rc NXT_AGAIN, rp', s')"
    using outcome_again [of rp "field_rest rp s" rp' s' c] out that
    by (auto simp: fields_parse_spec_def fields_parse_inv_def field_rest_append fields_result_def field_handlers_def)
  show "fields_parse_spec rp (s @ c) = None"
    if "nxt_http_parse_fields (\<lambda>_. True) rp s = (rc, rp', s')" "rc \<noteq> Rc NXT_DONE" "rc \<noteq> Rc NXT_AGAIN"
    using outcome_error [of rp "field_rest rp s" rc rp' s' c] out that
    by (simp add: fields_parse_spec_def field_rest_append fields_result_def)
qed

text \<open>
  A whole request, \<^verbatim>\<open>nxt_http_parse_request\<close>: the method, the path, the arguments, the version,
  the fields after those the parser has stored already, and what follows the header.
\<close>

type_synonym request_parts = "nxt_str \<times> nxt_str \<times> nxt_str \<times> nxt_str \<times> http_field list \<times> nxt_str"

definition with_line :: "nxt_str \<times> nxt_str \<times> nxt_str \<times> nxt_str \<Rightarrow> (http_field list \<times> nxt_str) option \<Rightarrow> request_parts option" where
  "with_line l x = (case l of (m, path, a, ver) \<Rightarrow> map_option (\<lambda>(fs, rest). (m, path, a, ver, fs, rest)) x)"

definition request_spec :: "http_request_parse \<Rightarrow> nxt_str \<Rightarrow> request_parts option" where
  "request_spec rp s =
     (case head_spec rp s of
        None \<Rightarrow> None
      | Some (m, path, a, ver, u) \<Rightarrow> with_line (m, path, a, ver) (fields_result rp (rp_spec rp u)))"

definition rp_line :: "http_request_parse \<Rightarrow> nxt_str \<times> nxt_str \<times> nxt_str \<times> nxt_str" where
  "rp_line rp = (rp_method rp, rp_path rp, rp_args rp, rp_version rp)"

definition request_parse_spec :: "http_request_parse \<Rightarrow> nxt_str \<Rightarrow> request_parts option" where
  "request_parse_spec rp s =
     (if rp_handler rp \<in> field_handlers then with_line (rp_line rp) (fields_parse_spec rp s) else request_spec rp s)"

definition request_parse_inv :: "http_request_parse \<Rightarrow> nxt_str \<Rightarrow> bool" where
  "request_parse_inv rp s \<longleftrightarrow> field_store_inv rp \<and> field_inv rp s"

definition request_parse_result :: "http_request_parse \<Rightarrow> nxt_str \<Rightarrow> request_parts" where
  "request_parse_result rp s = (rp_method rp, rp_path rp, rp_args rp, rp_version rp, rp_field_list rp, s)"

lemma with_line_None [simp]: "with_line l None = None"
  by (simp add: with_line_def split: prod.split)

lemma fields_result_None [simp]: "fields_result rp None = None"
  by (simp add: fields_result_def)

text \<open>What the three laws say of one call.\<close>

definition request_step :: "http_request_parse \<Rightarrow> nxt_str \<Rightarrow> http_rc \<times> http_request_parse \<times> nxt_str \<Rightarrow> bool" where
  "request_step rp s r \<longleftrightarrow>
     (case r of (rc, rp', s') \<Rightarrow>
        if rc = Rc NXT_DONE then \<forall>c. request_parse_spec rp (s @ c) = Some (request_parse_result rp' (s' @ c))
        else if rc = Rc NXT_AGAIN then request_parse_spec rp s = None
          \<and> (\<forall>c. request_parse_inv rp' (s' @ c) \<and> request_parse_spec rp (s @ c) = request_parse_spec rp' (s' @ c))
        else \<forall>c. request_parse_spec rp (s @ c) = None)"

lemma outcome_request_step:
  assumes "outcome rp1 V r"
    and "\<And>c. request_parse_spec rp (s @ c) = with_line (rp_line rp1) (fields_result rp1 (rp_spec rp1 (V @ c)))"
  shows "request_step rp s r"
proof -
  obtain rc rp' s' where r: "r = (rc, rp', s')" by (metis prod_cases3)
  have line: "rp_line rp' = rp_line rp1" using assms(1) by (simp add: r outcome_def line_fields_def rp_line_def)
  note spec = assms(2)
  consider "rc = Rc NXT_DONE" | "rc = Rc NXT_AGAIN" | "rc \<noteq> Rc NXT_DONE" "rc \<noteq> Rc NXT_AGAIN" by blast
  then show ?thesis
  proof cases
    case 1
    have "request_parse_spec rp (s @ c) = Some (request_parse_result rp' (s' @ c))" for c
      using outcome_done [of rp1 V rp' s' c] assms(1) r 1 line spec [of c]
      by (simp add: with_line_def request_parse_result_def rp_line_def)
    then show ?thesis using r 1 by (simp add: request_step_def)
  next
    case 2
    have again: "rp_spec rp1 V = None \<and> field_store_inv rp' \<and> field_inv rp' (s' @ c) \<and> rp_handler rp' \<in> field_handlers
      \<and> line_fields rp' = line_fields rp1
      \<and> fields_result rp1 (rp_spec rp1 (V @ c)) = fields_result rp' (rp_spec rp' (field_rest rp' (s' @ c)))" for c
      using outcome_again [of rp1 V rp' s' c] assms(1) r 2 by simp
    have "request_parse_spec rp s = None" using spec [of "[]"] again by simp
    moreover have "request_parse_inv rp' (s' @ c)" "request_parse_spec rp (s @ c) = request_parse_spec rp' (s' @ c)" for c
      using again [of c] spec [of c] line by (simp_all add: request_parse_inv_def request_parse_spec_def fields_parse_spec_def)
    ultimately show ?thesis using r 2 by (simp add: request_step_def)
  next
    case 3
    then show ?thesis using outcome_error [of rp1 V rc rp' s'] assms(1) r spec by (simp add: request_step_def)
  qed
qed

text \<open>The updates of the request line do not touch the fields.\<close>

definition same_fields :: "http_request_parse \<Rightarrow> http_request_parse \<Rightarrow> bool" where
  "same_fields rp rp' \<longleftrightarrow> rp_handler rp' = rp_handler rp \<and> inline_fields rp' = inline_fields rp
     \<and> num_inline_fields rp' = num_inline_fields rp \<and> rp_fields rp' = rp_fields rp
     \<and> field_name_length rp' = field_name_length rp \<and> field_value_length rp' = field_value_length rp
     \<and> field_hash rp' = field_hash rp \<and> skip_field rp' = skip_field rp
     \<and> discard_unsafe_fields rp' = discard_unsafe_fields rp \<and> discard_fields rp' = discard_fields rp
     \<and> encoded_slashes rp' = encoded_slashes rp"

lemma line_keep_same: "line_keep rp rp' \<Longrightarrow> same_fields rp rp' \<and> rp_args rp' = rp_args rp"
  unfolding line_keep_def by (elim exE) (simp add: same_fields_def)

lemma line_done_same: "line_done rp rp' m path a ver \<Longrightarrow> same_fields rp rp' \<and> rp_line rp' = (m, path, a, ver)"
  unfolding line_done_def by (elim exE) (simp add: same_fields_def rp_line_def)

lemma same_fields_frame:
  assumes "same_fields rp rp'"
  shows "field_store_inv rp' = field_store_inv rp" and "fresh rp' = fresh rp" and "rp_spec rp' = rp_spec rp"
    and "fields_result rp' = fields_result rp"
  using assms
  by (simp_all add: same_fields_def field_store_inv_def fresh_def rp_spec_def fields_result_def rp_field_list_def fun_eq_iff
    split: option.split)

lemma head_spec_frame:
  assumes "encoded_slashes rp' = encoded_slashes rp" and "rp_args rp' = rp_args rp"
  shows "head_spec rp' = head_spec rp"
  unfolding fun_eq_iff head_spec_def assms by simp

lemma line_request_step:
  assumes "field_store_inv rp" and "fresh rp" and "rp_handler rp \<notin> field_handlers" and "length s \<le> NXT_HTTP_MAX_FIELD_VALUE"
    and "line_outcome rp s r"
  shows "request_step rp s (run_on r)"
proof -
  have spec: "request_parse_spec rp (s @ c) = request_spec rp (s @ c)" for c
    using assms(3) by (simp add: request_parse_spec_def)
  from assms(5) consider
      (again) rp' where "r = (Rc NXT_AGAIN, rp', s)" "line_keep rp rp'" "head_spec rp s = None"
    | (error) rc rp' s' where "r = (rc, rp', s')" "rc \<in> {NXT_HTTP_PARSE_INVALID, NXT_HTTP_PARSE_UNSUPPORTED_VERSION}"
        "\<forall>c. head_spec rp (s @ c) = None"
    | (line) m path a ver t rp' where "\<forall>c. head_spec rp (s @ c) = Some (m, path, a, ver, t @ c)"
        "line_done rp rp' m path a ver" "length t < length s" "r = nxt_http_parse_field_name (\<lambda>_. True) rp' t"
    unfolding line_outcome_def by blast
  then show ?thesis
  proof cases
    case again
    have same: "same_fields rp rp'" "rp_args rp' = rp_args rp" using line_keep_same [OF again(2)] by simp_all
    have "head_spec rp' = head_spec rp" using same by (intro head_spec_frame) (simp_all add: same_fields_def)
    then have "request_spec rp' = request_spec rp"
      unfolding fun_eq_iff request_spec_def same_fields_frame(3,4) [OF same(1)] by simp
    moreover have h: "rp_handler rp' = rp_handler rp" using same(1) by (simp add: same_fields_def)
    ultimately have "request_parse_spec rp' = request_parse_spec rp"
      using assms(3) by (simp add: request_parse_spec_def fun_eq_iff)
    moreover have "request_parse_inv rp' (s @ c)" for c
      using assms(1-3) same_fields_frame(1,2) [OF same(1)] h
      by (cases "rp_handler rp") (simp_all add: request_parse_inv_def field_inv_def field_handlers_def)
    moreover have "request_parse_spec rp s = None" using spec [of "[]"] again(3) by (simp add: request_spec_def)
    ultimately show ?thesis using again(1) by (simp add: request_step_def run_on_def)
  next
    case error
    then have "run_on r = r" by (auto simp: run_on_def)
    moreover have "request_parse_spec rp (s @ c) = None" for c using error(3) spec by (simp add: request_spec_def)
    ultimately show ?thesis using error(1,2) by (auto simp: request_step_def)
  next
    case line
    have same: "same_fields rp rp'" "rp_line rp' = (m, path, a, ver)" using line_done_same [OF line(2)] by simp_all
    note frame = same_fields_frame [OF same(1)]
    have "contract rp' t r"
      unfolding line(4) using field_name_contract [of rp' t] fresh_name_inv [of rp' t] frame(1,2) assms(1,2,4) line(3) by simp
    moreover have "length (snd (snd r)) \<le> NXT_HTTP_MAX_FIELD_VALUE"
      unfolding line(4) using field_name_le [of "\<lambda>_. True" rp' t] line(3) assms(4) by linarith
    ultimately have "outcome rp' t (run_on r)" using contract_run_on by (cases r) simp
    then show ?thesis
      by (rule outcome_request_step) (simp add: spec request_spec_def line(1) frame(3,4) same(2))
  qed
qed

lemma parse_request_step:
  assumes "request_parse_inv rp s" and "length s \<le> NXT_HTTP_MAX_FIELD_VALUE"
  shows "request_step rp s (nxt_http_parse_request (\<lambda>_. True) rp s)"
proof (cases "rp_handler rp \<in> field_handlers")
  case True
  then have "nxt_http_parse_request (\<lambda>_. True) rp s = handler_loop (\<lambda>_. True) rp s"
    by (auto simp: nxt_http_parse_request_def field_handlers_def)
  moreover have "outcome rp (field_rest rp s) (handler_loop (\<lambda>_. True) rp s)"
    using fields_loop_outcome [of rp s] assms True by (simp add: request_parse_inv_def)
  ultimately show ?thesis
    using outcome_request_step [of rp "field_rest rp s" _ rp s] True
    by (simp add: request_parse_spec_def fields_parse_spec_def field_rest_append)
next
  case False
  define rp1 where "rp1 = rp\<lparr>rp_handler := Request_line_handler\<rparr>"
  have fr: "fresh rp" "field_store_inv rp"
    using assms(1) False by (cases "rp_handler rp"; simp add: request_parse_inv_def field_inv_def field_handlers_def)+
  then have rp1: "field_store_inv rp1" "fresh rp1" "rp_handler rp1 \<notin> field_handlers"
    by (simp_all add: rp1_def fresh_def field_handlers_def)
  have run: "nxt_http_parse_request (\<lambda>_. True) rp s = run_on (nxt_http_parse_request_line (\<lambda>_. True) rp1 s)"
  proof (cases "rp_handler rp = No_handler")
    case True
    then show ?thesis
      by (simp add: nxt_http_parse_request_def rp1_def handler_loop_run_on call_handler_def)
  next
    case line: False
    then have h: "rp_handler rp = Request_line_handler"
      using False by (cases "rp_handler rp") (simp_all add: field_handlers_def)
    then have "rp1 = rp" by (cases rp) (simp add: rp1_def)
    then show ?thesis using h by (simp add: nxt_http_parse_request_def handler_loop_run_on call_handler_def)
  qed
  have "head_spec rp1 = head_spec rp" by (rule head_spec_frame) (simp_all add: rp1_def)
  moreover have fs: "fields_result rp1 = fields_result rp" "rp_spec rp1 = rp_spec rp"
    by (simp_all add: rp1_def fields_result_def fun_eq_iff)
  ultimately have "request_spec rp1 = request_spec rp" unfolding fun_eq_iff request_spec_def fs by simp
  then have "request_parse_spec rp1 = request_parse_spec rp"
    using False rp1(3) by (simp add: request_parse_spec_def fun_eq_iff)
  then have "request_step rp1 s = request_step rp s" by (simp add: request_step_def fun_eq_iff)
  then show ?thesis
    using line_request_step [OF rp1 assms(2) request_line_outcome] run by simp
qed

interpretation request: segmented_parser "nxt_http_parse_request (\<lambda>_. True)" request_parse_inv request_parse_spec
  request_parse_result NXT_HTTP_MAX_FIELD_VALUE
proof
  fix rp s
  show "length (snd (snd (nxt_http_parse_request (\<lambda>_. True) rp s))) \<le> length s"
    by (simp add: nxt_http_parse_request_def handler_loop_le)
  fix rc rp' s' c
  assume "request_parse_inv rp s" "length s \<le> NXT_HTTP_MAX_FIELD_VALUE"
  note step = parse_request_step [OF this]
  show "request_parse_spec rp (s @ c) = Some (request_parse_result rp' (s' @ c))"
    if "nxt_http_parse_request (\<lambda>_. True) rp s = (Rc NXT_DONE, rp', s')"
    using step that by (simp add: request_step_def)
  show "request_parse_spec rp s = None \<and> request_parse_inv rp' (s' @ c) \<and> request_parse_spec rp (s @ c) = request_parse_spec rp' (s' @ c)"
    if "nxt_http_parse_request (\<lambda>_. True) rp s = (Rc NXT_AGAIN, rp', s')"
    using step that by (simp add: request_step_def)
  show "request_parse_spec rp (s @ c) = None"
    if "nxt_http_parse_request (\<lambda>_. True) rp s = (rc, rp', s')" "rc \<noteq> Rc NXT_DONE" "rc \<noteq> Rc NXT_AGAIN"
    using step that by (simp add: request_step_def)
qed

section \<open>The characters of a field name\<close>

text \<open>
  The table \<open>normal\<close> in one formula: the characters of a token of RFC 9110, upper case letters
  mapped to lower case, and those that are neither a letter nor a digit nor a hyphen marked
  as unsafe.  The formula is also what the examples below are evaluated with.
\<close>

definition normal_value :: "u_char \<Rightarrow> u_char" where
  "normal_value ch =
     (if 128 \<le> ch \<or> ch < 33 then 0
      else if c_a \<le> ch \<and> ch \<le> c_z then ch
      else if c_A \<le> ch \<and> ch \<le> c_Z then ch + 32
      else if c_0 \<le> ch \<and> ch \<le> c_9 \<or> ch = c_minus then ch
      else if ch = 33 \<or> 35 \<le> ch \<and> ch \<le> 39 \<or> ch = 42 \<or> ch = 43 \<or> ch = 46 \<or> 94 \<le> ch \<and> ch \<le> 96 \<or> ch = 124 \<or> ch = 126
      then 1 else 0)"

lemma normal_table:
  "normal = map (\<lambda>n. if 128 \<le> n \<or> n < 33 then 0 else if 97 \<le> n \<and> n \<le> 122 then of_nat n
     else if 65 \<le> n \<and> n \<le> 90 then of_nat (n + 32) else if 48 \<le> n \<and> n \<le> 57 \<or> n = 45 then of_nat n
     else if n = 33 \<or> 35 \<le> n \<and> n \<le> 39 \<or> n = 42 \<or> n = 43 \<or> n = 46 \<or> 94 \<le> n \<and> n \<le> 96 \<or> n = 124 \<or> n = 126
     then 1 else 0) [0..<256]"
  by code_simp

lemma normal_eq: "normal ! unat ch = normal_value ch"
proof -
  have "unat ch < 256" using unsigned_less [of ch] by simp
  then show ?thesis
    by (simp add: normal_table normal_value_def word_le_nat_alt word_less_nat_alt word_unat_eq_iff)
qed

lemma name_char_code [code]: "name_char ch \<longleftrightarrow> normal_value ch \<noteq> 0"
  by (simp add: name_char_def normal_eq)

lemma unsafe_char_code [code]: "unsafe_char ch \<longleftrightarrow> normal_value ch = 1"
  by (simp add: unsafe_char_def normal_eq)

lemma hash_char_code [code]:
  "hash_char h ch = (let c = normal_value ch in nxt_http_field_hash_char h (if c \<le> 1 then ch else c))"
  by (simp add: hash_char_def normal_eq Let_def)

lemma field_name_test_char_code [code]:
  "field_name_test_char discard_unsafe v ch =
     (case v of (hash, skip) \<Rightarrow>
        let c = normal_value ch in
        if c \<le> 1 then
          if c = 0 then None
          else Some (nxt_http_field_hash_char hash ch, discard_unsafe)
        else Some (nxt_http_field_hash_char hash c, skip))"
  by (simp add: field_name_test_char_def normal_eq)

lemma nxt_http_parse_target_code [code]:
  "nxt_http_parse_target p =
     (case dropWhile plain_char p of [] \<Rightarrow> (NXT_HTTP_TARGET_AGAIN, p) | ch # q \<Rightarrow> (char_trap ch, ch # q))"
  by (rule parse_target_eq)

section \<open>What the parser guarantees\<close>

text \<open>A parser state before the first call.\<close>

definition ready :: "http_request_parse \<Rightarrow> bool" where
  "ready rp \<longleftrightarrow> rp_handler rp = No_handler \<and> fresh rp \<and> field_store_inv rp \<and> rp_field_list rp = []"

lemma ready_request:
  assumes "ready rp"
  shows "request_parse_inv rp s" and "request_parse_spec rp s = request_spec rp s"
  using assms by (simp_all add: ready_def request_parse_inv_def field_inv_def request_parse_spec_def field_handlers_def)

lemma ready_fields:
  assumes "ready rp"
  shows "fields_parse_inv rp s" and "fields_parse_spec rp s = rp_spec rp s"
proof -
  show "fields_parse_inv rp s" using assms by (simp add: ready_def fields_parse_inv_def field_inv_def)
  have "map_option (apfst ((@) [])) x = x" for x :: "(http_field list \<times> nxt_str) option"
    by (cases x) auto
  then show "fields_parse_spec rp s = rp_spec rp s"
    using assms by (simp add: ready_def fields_parse_spec_def fields_result_def field_rest_def)
qed

text \<open>The state that \<^verbatim>\<open>nxt_http_parse_request_init\<close> makes of a zeroed structure is ready.\<close>

definition rp_start :: "bool \<Rightarrow> bool \<Rightarrow> bool \<Rightarrow> http_request_parse" where
  "rp_start unsafe discard slashes =
     (snd (nxt_http_parse_request_init rp_zero))
       \<lparr>discard_unsafe_fields := unsafe, discard_fields := discard, encoded_slashes := slashes\<rparr>"

lemma ready_start: "ready (rp_start unsafe discard slashes)"
  by (simp add: ready_def rp_start_def nxt_http_parse_request_init_def rp_zero_def fresh_def field_store_inv_def
    rp_field_list_def nxt_http_fields_each_def nxt_http_fields_first_def)

text \<open>
  C4: The request parser computes the specification of a request, however the bytes arrive.
  Let the data be cut into any segments, with the parser called again each time it returns
  \<^verbatim>\<open>NXT_AGAIN\<close>.  If the data begins with a request, the parser ends with \<^verbatim>\<open>NXT_DONE\<close> and has
  exactly the method, the path and the arguments of the normalized target, the version and the
  fields of the request, with the position at what follows it; if not, it does not end with
  \<^verbatim>\<open>NXT_DONE\<close>.
\<close>

theorem nxt_http_parse_request_spec:
  assumes "ready rp" and "length (s @ concat cs) \<le> NXT_HTTP_MAX_FIELD_VALUE"
  shows "case request_spec rp (s @ concat cs) of
      None \<Rightarrow> fst (feed (nxt_http_parse_request (\<lambda>_. True)) rp s cs) \<noteq> Rc NXT_DONE
    | Some (method, path, args, version, fs, rest) \<Rightarrow>
        \<exists>rp'. feed (nxt_http_parse_request (\<lambda>_. True)) rp s cs = (Rc NXT_DONE, rp', rest)
          \<and> rp_method rp' = method \<and> rp_path rp' = path \<and> rp_args rp' = args \<and> rp_version rp' = version
          \<and> rp_field_list rp' = fs"
  using request.feed_spec [OF ready_request(1) [OF assms(1)] assms(2)]
  by (auto simp: ready_request(2) [OF assms(1)] request_parse_result_def split: option.split)

definition request_example :: "nxt_str list" where
  "request_example = [bytes ''GET /a/%2e%2e/b?x=1 HT'', bytes ''TP/1.1'' @ [c_cr],
     c_lf # bytes ''Host: h '' @ [c_cr, c_lf], [c_cr, c_lf] @ bytes ''body'']"

lemma request_example_spec:
  "request_spec (rp_start False False False) (hd request_example @ concat (tl request_example)) =
     Some (bytes ''GET'', bytes ''/b'', bytes ''x=1'', bytes ''HTTP/1.1'', [header_field (bytes ''Host'') (bytes ''h'')], bytes ''body'')"
  by code_simp

lemma request_example_length:
  "length (hd request_example @ concat (tl request_example)) \<le> NXT_HTTP_MAX_FIELD_VALUE"
  by (simp add: request_example_def NXT_HTTP_MAX_FIELD_VALUE_def)

theorem nxt_http_parse_request_spec_witness:
  "\<exists>rp'. feed (nxt_http_parse_request (\<lambda>_. True)) (rp_start False False False) (hd request_example) (tl request_example)
       = (Rc NXT_DONE, rp', bytes ''body'')
     \<and> rp_method rp' = bytes ''GET'' \<and> rp_path rp' = bytes ''/b'' \<and> rp_args rp' = bytes ''x=1''
     \<and> rp_version rp' = bytes ''HTTP/1.1'' \<and> rp_field_list rp' = [header_field (bytes ''Host'') (bytes ''h'')]"
  using nxt_http_parse_request_spec [OF ready_start request_example_length, of False False False]
  by (simp only: request_example_spec option.case prod.case)

text \<open>
  C10: The same of \<^verbatim>\<open>nxt_http_parse_fields\<close>, which parses header fields without a request line.
\<close>

theorem nxt_http_parse_fields_spec:
  assumes "ready rp" and "length (s @ concat cs) \<le> NXT_HTTP_MAX_FIELD_VALUE"
  shows "case fields_spec (discard_unsafe_fields rp) (discard_fields rp) (s @ concat cs) of
      None \<Rightarrow> fst (feed (nxt_http_parse_fields (\<lambda>_. True)) rp s cs) \<noteq> Rc NXT_DONE
    | Some (fs, rest) \<Rightarrow>
        \<exists>rp'. feed (nxt_http_parse_fields (\<lambda>_. True)) rp s cs = (Rc NXT_DONE, rp', rest) \<and> rp_field_list rp' = fs"
  using fields.feed_spec [OF ready_fields(1) [OF assms(1)] assms(2)]
  by (auto simp: ready_fields(2) [OF assms(1)] rp_spec_def fields_parse_result_def split: option.split)

theorem nxt_http_parse_fields_spec_witness:
  "\<exists>rp'. feed (nxt_http_parse_fields (\<lambda>_. True)) (rp_start True False False)
       (bytes ''X-a: 1'') [[c_lf] @ bytes ''b_c:2'', [c_lf, c_cr], [c_lf]] = (Rc NXT_DONE, rp', [])
     \<and> rp_field_list rp' = [header_field (bytes ''X-a'') (bytes ''1'')]"
proof -
  have spec: "fields_spec (discard_unsafe_fields (rp_start True False False)) (discard_fields (rp_start True False False))
      (bytes ''X-a: 1'' @ concat [[c_lf] @ bytes ''b_c:2'', [c_lf, c_cr], [c_lf]]) =
    Some ([header_field (bytes ''X-a'') (bytes ''1'')], [])" by code_simp
  have len: "length (bytes ''X-a: 1'' @ concat [[c_lf] @ bytes ''b_c:2'', [c_lf, c_cr], [c_lf]]) \<le> NXT_HTTP_MAX_FIELD_VALUE"
    by (simp add: NXT_HTTP_MAX_FIELD_VALUE_def)
  show ?thesis
    using nxt_http_parse_fields_spec [OF ready_start len, of True False False] unfolding spec
    by (simp only: option.case prod.case)
qed

text \<open>The fields of the specification have proper names and values.\<close>

definition good_field :: "http_field \<Rightarrow> bool" where
  "good_field f \<longleftrightarrow> good_name (hf_name f) \<and> good_value (hf_value f)
     \<and> unat (hf_name_length f) = length (hf_name f) \<and> unat (hf_value_length f) = length (hf_value f)
     \<and> hf_hash f = ucast (nxt_http_field_hash_end (name_hash (hf_name f)))"

lemma good_header_field:
  assumes "good_name name" and "good_value v" and "length v \<le> NXT_HTTP_MAX_FIELD_VALUE"
  shows "good_field (header_field name v)"
proof -
  have "unat (of_nat (length name) :: 8 word) = length name"
    using assms(1) by (simp add: unat_of_nat good_name_def NXT_HTTP_MAX_FIELD_NAME_def)
  moreover have "unat (of_nat (length v) :: 32 word) = length v"
    using assms(3) by (simp add: unat_of_nat NXT_HTTP_MAX_FIELD_VALUE_def)
  ultimately show ?thesis using assms by (simp add: good_field_def header_field_def)
qed

lemma fields_spec_good:
  "fields_spec d n s = Some (fs, rest) \<Longrightarrow> length s \<le> NXT_HTTP_MAX_FIELD_VALUE \<Longrightarrow> list_all good_field fs"
proof (induction "length s" arbitrary: s fs rest rule: less_induct)
  case less
  define name where "name = takeWhile name_char s"
  note spec = less.prems(1) [unfolded fields_spec.simps [of d n s] Let_def, folded name_def]
  obtain ch q where q: "dropWhile name_char s = ch # q"
    using spec by (cases "dropWhile name_char s") auto
  show ?case
  proof (cases "ch = c_colon")
    case False
    then have "fs = []" using spec q by (auto split: if_splits)
    then show ?thesis by simp
  next
    case True
    define start where "start = dropWhile is_blank q"
    define raw where "raw = takeWhile value_char start"
    obtain r where r: "eol (dropWhile value_char start) = Some r"
      and name: "name \<noteq> []" "length name \<le> NXT_HTTP_MAX_FIELD_NAME" and del: "0x7F \<notin> set raw"
      using spec q True
      by (auto simp: start_def [symmetric] raw_def [symmetric] not_less split: if_splits option.splits)
    define pre where "pre = (if d \<and> unsafe_name name \<or> n then [] else [header_field name (trim raw)])"
    have "map_option (apfst ((@) pre)) (fields_spec d n r) = Some (fs, rest)"
      using spec q True r name del unfolding pre_def raw_def start_def by (simp add: not_less)
    then obtain fs' where fs': "fields_spec d n r = Some (fs', rest)" "fs = pre @ fs'" by auto
    have fs: "set fs \<subseteq> insert (header_field name (trim raw)) (set fs')" unfolding fs'(2) by (auto simp: pre_def)
    have len: "length r < length s" using field_line_length [OF q] r by (simp add: start_def)
    have "list_all good_field fs'" using less.hyps [OF len fs'(1)] len less.prems(2) by simp
    moreover have "good_name name" using name by (auto simp: good_name_def name_def list_all_iff dest: set_takeWhileD)
    moreover have "raw \<noteq> [] \<Longrightarrow> \<not> is_blank (hd raw)"
      using hd_dropWhile [of is_blank q] by (cases start) (auto simp: raw_def start_def [symmetric] split: if_splits)
    then have "good_value (trim raw)"
      using del by (intro good_trim) (auto simp: raw_def list_all_iff dest: set_takeWhileD)
    moreover have "length (trim raw) \<le> length raw" by (simp add: trim_def) (metis length_dropWhile_le length_rev)
    moreover have "length raw \<le> length s"
      using length_takeWhile_le [of value_char start] length_dropWhile_le [of is_blank q] length_dropWhile_le [of name_char s] q
      unfolding raw_def start_def by simp
    ultimately have "list_all good_field fs'" "good_field (header_field name (trim raw))"
      using good_header_field [of name "trim raw"] less.prems(2) by simp_all
    with fs show ?thesis by (auto simp: list_all_iff)
  qed
qed

lemma request_done_safe:
  assumes "ready rp" and "length (s @ concat cs) \<le> NXT_HTTP_MAX_FIELD_VALUE"
    and "feed (nxt_http_parse_request (\<lambda>_. True)) rp s cs = (Rc NXT_DONE, rp', rest)"
  shows "safe_path (rp_path rp') \<and> list_all good_field (rp_field_list rp')"
proof -
  define V where "V = s @ concat cs"
  have "request_spec rp V = Some (request_parse_result rp' rest)"
    using request.feed_spec [OF ready_request(1) [OF assms(1)] assms(2)] assms(3) ready_request(2) [OF assms(1)]
    by (auto simp: V_def [symmetric] split: option.splits)
  then obtain u where head: "head_spec rp V = Some (rp_method rp', rp_path rp', rp_args rp', rp_version rp', u)"
    and fs: "fields_result rp (rp_spec rp u) = Some (rp_field_list rp', rest)"
    by (auto simp: request_spec_def request_parse_result_def with_line_def split: option.splits)
  then obtain tg where tg: "line_spec V = Some (rp_method rp', tg, rp_version rp', u)"
    "\<exists>a. target_spec (encoded_slashes rp) (tl tg) = Some (rp_path rp', a)"
    by (auto simp: head_spec_def split: option.splits)
  have "safe_path (rp_path rp')" using tg(2) target_spec_safe by blast
  moreover obtain n x z where z: "line_parts V (rp_method rp') n x (rp_version rp') z" "eol z = Some u"
    using line_spec_parts [OF tg(1)] by blast
  have "length z \<le> length (dropWhile line_char V)" using z(1) by (simp add: line_parts_def)
  then have "length u \<le> NXT_HTTP_MAX_FIELD_VALUE"
    using eol_length [OF z(2)] length_dropWhile_le [of line_char V] assms(2) unfolding V_def by linarith
  moreover have "rp_spec rp u = Some (rp_field_list rp', rest)"
    using fs assms(1) by (cases "rp_spec rp u") (auto simp: fields_result_def ready_def)
  ultimately show ?thesis using fields_spec_good unfolding rp_spec_def by blast
qed

text \<open>
  C5: What an accepted request contains is safe to use.  Whenever the parser ends with
  \<^verbatim>\<open>NXT_DONE\<close>, the path starts with a slash and has no segment \<^verbatim>\<open>.\<close> or \<^verbatim>\<open>..\<close> and no
  empty segment except possibly the last, whether or not the target had to be normalized; and
  every stored field has a name of at most 255 token characters, a value without control
  characters except tabs and without blanks around it, length fields that did not wrap, and the
  hash of its name.
\<close>

theorem nxt_http_parse_request_safe:
  assumes "ready rp" and "length (s @ concat cs) \<le> NXT_HTTP_MAX_FIELD_VALUE"
    and "feed (nxt_http_parse_request (\<lambda>_. True)) rp s cs = (Rc NXT_DONE, rp', rest)"
  shows "safe_path (rp_path rp') \<and> list_all good_field (rp_field_list rp')"
  using assms by (rule request_done_safe)

theorem nxt_http_parse_request_safe_witness:
  "\<exists>rp'. feed (nxt_http_parse_request (\<lambda>_. True)) (rp_start False False False) (hd request_example) (tl request_example)
       = (Rc NXT_DONE, rp', bytes ''body'')
     \<and> safe_path (rp_path rp') \<and> list_all good_field (rp_field_list rp')"
proof -
  obtain rp' where run: "feed (nxt_http_parse_request (\<lambda>_. True)) (rp_start False False False) (hd request_example) (tl request_example)
      = (Rc NXT_DONE, rp', bytes ''body'')"
    using request.feed_spec [OF ready_request(1) [OF ready_start] request_example_length, of False False False]
    by (auto simp: ready_request(2) [OF ready_start] request_example_spec request_parse_result_def simp del: bytes_Cons)
  show ?thesis
    using run nxt_http_parse_request_safe [OF ready_start request_example_length run] by blast
qed



text \<open>
  The loop over the handlers with a bound on the number of calls; None when the bound is
  exceeded.
\<close>

fun handler_run :: "nat \<Rightarrow> (nat \<Rightarrow> bool) \<Rightarrow> http_request_parse \<Rightarrow> nxt_str \<Rightarrow> (http_rc \<times> http_request_parse \<times> nxt_str) option" where
  "handler_run 0 mem rp s = None"
| "handler_run (Suc n) mem rp s =
     (case call_handler mem rp s of
        (rc, rp, s) \<Rightarrow> if rc = Rc NXT_OK then handler_run n mem rp s else Some (rc, rp, s))"

lemma handler_run_loop:
  "length s < n \<Longrightarrow> handler_run n mem rp s = Some (handler_loop mem rp s) \<and> fst (handler_loop mem rp s) \<noteq> Rc NXT_OK"
proof (induction n arbitrary: rp s)
  case (Suc n)
  obtain rc rp1 s1 where c: "call_handler mem rp s = (rc, rp1, s1)" by (metis prod_cases3)
  show ?case
  proof (cases "rc = Rc NXT_OK")
    case True
    then have "length s1 < n" using call_handler_shorter [of mem rp s rp1 s1] c Suc.prems by simp
    moreover have "handler_loop mem rp s = handler_loop mem rp1 s1" using c True by (subst handler_loop.simps) simp
    ultimately show ?thesis using Suc.IH [of s1 rp1] c True by simp
  next
    case False
    then have "handler_loop mem rp s = (rc, rp1, s1)"
      using c by (subst handler_loop.simps) (auto split: http_rc.split nxt_rc.split)
    then show ?thesis using c False by simp
  qed
qed simp

text \<open>
  C12: The parser returns.  Whatever the state, the data and the memory, the loop
  \<^verbatim>\<open>do { rc = rp->handler(...); } while (rc == NXT_OK)\<close> ends after at most one call more than
  there are bytes, with a code other than \<^verbatim>\<open>NXT_OK\<close> and without moving the position backwards.
\<close>

theorem nxt_http_parse_request_returns:
  "\<exists>rc rp' s'. handler_run (length s + 1) mem (if rp_handler rp = No_handler then rp\<lparr>rp_handler := Request_line_handler\<rparr> else rp) s
       = Some (rc, rp', s')
     \<and> nxt_http_parse_request mem rp s = (rc, rp', s') \<and> rc \<noteq> Rc NXT_OK \<and> length s' \<le> length s"
proof -
  define rp1 where "rp1 = (if rp_handler rp = No_handler then rp\<lparr>rp_handler := Request_line_handler\<rparr> else rp)"
  obtain rc rp' s' where r: "handler_loop mem rp1 s = (rc, rp', s')" by (metis prod_cases3)
  show ?thesis
    using handler_run_loop [of s "length s + 1" mem rp1] handler_loop_le [of mem rp1 s] r
    unfolding nxt_http_parse_request_def rp1_def [symmetric] by auto
qed

end
