(* ===== verification/Nxt_Lvlhsh.thy ===== *)
theory Nxt_Lvlhsh
  imports Nxt_Prelude "HOL-Library.Multiset"
begin

text \<open>
  The level hash, \<^verbatim>\<open>src/nxt_lvlhsh.c\<close> and \<^verbatim>\<open>src/nxt_lvlhsh.h\<close>: a hash table that is a bucket, a
  chain of buckets, or a tree of levels whose slots are chosen by successive bits of the hash.
  Every pointer to a level or a bucket has one owner, so that a slot is the tree it points to.
  The low bits of a pointer, which tell a bucket from a level and count its entries or used
  slots, are the number \<open>tag\<close>.  Memory is threaded through the operations: how many allocations
  will still succeed, how many blocks are allocated, and what a fresh block contains.
\<close>

section \<open>Data\<close>

text \<open>An entry; a free entry has the null pointer as its value.\<close>

record 'v entry =
  entry_key :: uint32
  entry_value :: "'v option"

definition nxt_lvlhsh_valid_entry :: "'v entry \<Rightarrow> bool" where
  "nxt_lvlhsh_valid_entry e \<longleftrightarrow> entry_value e \<noteq> None"

datatype 'v slot =
    Null
  | Bucket nat "'v entry list" "'v slot"
  | Level nat "'v slot list"

text \<open>\<^verbatim>\<open>test\<close> compares the key of a query with the value of an entry.\<close>

record ('k, 'v) lvlhsh_proto =
  bucket_end :: nat
  bucket_size :: nat
  bucket_mask :: nat
  shift :: "nat list"
  test :: "'k \<Rightarrow> 'v \<Rightarrow> bool"

record ('k, 'v) lvlhsh_query =
  key_hash :: uint32
  replace :: bool
  lq_key :: 'k
  lq_value :: "'v option"

text \<open>\<open>m_junk n i\<close> is what the entry \<open>i\<close> of a bucket holds that is allocated when \<open>m_avail\<close> is \<open>n\<close>.\<close>

record 'v lvl_mem =
  m_avail :: nat
  m_live :: int
  m_junk :: "nat \<Rightarrow> nat \<Rightarrow> 'v entry"

definition NXT_LVLHSH_ENTRY_SIZE :: nat where
  "NXT_LVLHSH_ENTRY_SIZE = 3"

text \<open>The constants of a prototype with buckets of a given size, for pointers of eight bytes.\<close>

definition NXT_LVLHSH_BUCKET_END :: "nat \<Rightarrow> nat" where
  "NXT_LVLHSH_BUCKET_END sz = (sz - 8) div (NXT_LVLHSH_ENTRY_SIZE * 4) * NXT_LVLHSH_ENTRY_SIZE"

definition NXT_LVLHSH_BUCKET_SIZE :: "nat \<Rightarrow> nat list \<Rightarrow> ('k \<Rightarrow> 'v \<Rightarrow> bool) \<Rightarrow> ('k, 'v) lvlhsh_proto" where
  "NXT_LVLHSH_BUCKET_SIZE sz sh tst =
     \<lparr>bucket_end = NXT_LVLHSH_BUCKET_END sz, bucket_size = sz, bucket_mask = sz - 1, shift = sh, test = tst\<rparr>"

definition NXT_LVLHSH_DEFAULT :: "('k \<Rightarrow> 'v \<Rightarrow> bool) \<Rightarrow> ('k, 'v) lvlhsh_proto" where
  "NXT_LVLHSH_DEFAULT = NXT_LVLHSH_BUCKET_SIZE 128 [4, 4, 4, 4, 4, 4, 4, 0]"

definition NXT_LVLHSH_LARGE_SLAB :: "('k \<Rightarrow> 'v \<Rightarrow> bool) \<Rightarrow> ('k, 'v) lvlhsh_proto" where
  "NXT_LVLHSH_LARGE_SLAB = NXT_LVLHSH_BUCKET_SIZE 128 [10, 4, 4, 4, 4, 4, 4, 0]"

text \<open>The argument is \<^verbatim>\<open>NXT_LVLHSH_MAX_MEMALIGN_SHIFT\<close>, which depends on the platform and is at most ten.\<close>

definition NXT_LVLHSH_LARGE_MEMALIGN :: "nat \<Rightarrow> ('k \<Rightarrow> 'v \<Rightarrow> bool) \<Rightarrow> ('k, 'v) lvlhsh_proto" where
  "NXT_LVLHSH_LARGE_MEMALIGN m = NXT_LVLHSH_BUCKET_SIZE 128 [m, 4, 4, 4, 4, 0, 0, 0]"

text \<open>The number of entries of a bucket, and the numbers that the tags hold.\<close>

definition bucket_cap :: "('k, 'v) lvlhsh_proto \<Rightarrow> nat" where
  "bucket_cap proto = bucket_end proto div NXT_LVLHSH_ENTRY_SIZE"

definition nxt_lvlhsh_bucket_entries :: "('k, 'v) lvlhsh_proto \<Rightarrow> nat \<Rightarrow> nat" where
  "nxt_lvlhsh_bucket_entries proto t = (t AND bucket_mask proto) div 2"

definition nxt_lvlhsh_level_entries :: "nat \<Rightarrow> nat \<Rightarrow> nat" where
  "nxt_lvlhsh_level_entries t m = t AND (2 * m)"

definition level_shift :: "('k, 'v) lvlhsh_proto \<Rightarrow> nat \<Rightarrow> nat" where
  "level_shift proto nlvl = (if nlvl < length (shift proto) then shift proto ! nlvl else 0)"

definition level_index :: "('k, 'v) lvlhsh_proto \<Rightarrow> nat \<Rightarrow> uint32 \<Rightarrow> nat" where
  "level_index proto nlvl key = unat (key AND (2 ^ level_shift proto nlvl - 1))"

definition lvl_free :: "nat \<Rightarrow> 'v lvl_mem \<Rightarrow> 'v lvl_mem" where
  "lvl_free n mem = mem\<lparr>m_live := m_live mem - int n\<rparr>"

definition lvl_alloc :: "'v lvl_mem \<Rightarrow> 'v lvl_mem" where
  "lvl_alloc mem = mem\<lparr>m_avail := m_avail mem - 1, m_live := m_live mem + 1\<rparr>"

section \<open>Search\<close>

text \<open>
  The inner loop of \<^verbatim>\<open>nxt_lvlhsh_bucket_find\<close> and of \<^verbatim>\<open>nxt_lvlhsh_bucket_delete\<close>: it passes over
  \<open>n\<close> valid entries and returns the position of the one that is searched.
\<close>

definition entry_hit :: "('k, 'v) lvlhsh_proto \<Rightarrow> ('k, 'v) lvlhsh_query \<Rightarrow> 'v entry \<Rightarrow> bool" where
  "entry_hit proto lhq e \<longleftrightarrow>
     nxt_lvlhsh_valid_entry e \<and> entry_key e = key_hash lhq \<and> test proto (lq_key lhq) (the (entry_value e))"

fun find_entry :: "('v entry \<Rightarrow> bool) \<Rightarrow> 'v entry list \<Rightarrow> nat \<Rightarrow> nat \<Rightarrow> nat option" where
  "find_entry hit [] n i = None"
| "find_entry hit (e # es) n i =
     (if hit e then Some i
      else
        let n = (if nxt_lvlhsh_valid_entry e then n - 1 else n) in
        if n = 0 then None else find_entry hit es n (i + 1))"

fun nxt_lvlhsh_bucket_find :: "('k, 'v) lvlhsh_proto \<Rightarrow> ('k, 'v) lvlhsh_query \<Rightarrow> 'v slot \<Rightarrow> 'v option" where
  "nxt_lvlhsh_bucket_find proto lhq (Bucket t es nx) =
     (case find_entry (entry_hit proto lhq) es (nxt_lvlhsh_bucket_entries proto t) 0 of
        Some i \<Rightarrow> entry_value (es ! i)
      | None \<Rightarrow> nxt_lvlhsh_bucket_find proto lhq nx)"
| "nxt_lvlhsh_bucket_find proto lhq _ = None"

lemma size_nth [termination_simp]:
  "i < length lvl \<Longrightarrow> lvl ! i = Level t lvl' \<Longrightarrow> size_list size lvl' < size_list size lvl"
proof -
  assume a: "i < length lvl" "lvl ! i = Level t lvl'"
  then have "Level t lvl' \<in> set lvl" by (metis nth_mem)
  then have "size (Level t lvl') \<le> size_list size lvl" by (rule size_list_estimation') simp
  then show ?thesis by simp
qed

text \<open>
  A slot of a level is chosen by the low bits of the key that is left; the index is always within
  the level.
\<close>

fun nxt_lvlhsh_level_find ::
  "('k, 'v) lvlhsh_proto \<Rightarrow> ('k, 'v) lvlhsh_query \<Rightarrow> 'v slot list \<Rightarrow> uint32 \<Rightarrow> nat \<Rightarrow> 'v option" where
  "nxt_lvlhsh_level_find proto lhq lvl key nlvl =
     (let i = level_index proto nlvl key in
      if i < length lvl then
        case lvl ! i of
          Null \<Rightarrow> None
        | Bucket t es nx \<Rightarrow> nxt_lvlhsh_bucket_find proto lhq (lvl ! i)
        | Level t lvl' \<Rightarrow> nxt_lvlhsh_level_find proto lhq lvl' (drop_bit (level_shift proto nlvl) key) (nlvl + 1)
      else None)"

definition nxt_lvlhsh_find :: "('k, 'v) lvlhsh_proto \<Rightarrow> ('k, 'v) lvlhsh_query \<Rightarrow> 'v slot \<Rightarrow> 'v option" where
  "nxt_lvlhsh_find proto lhq slot =
     (case slot of
        Null \<Rightarrow> None
      | Bucket t es nx \<Rightarrow> nxt_lvlhsh_bucket_find proto lhq slot
      | Level t lvl \<Rightarrow> nxt_lvlhsh_level_find proto lhq lvl (key_hash lhq) 0)"

section \<open>Insertion\<close>

text \<open>The result of an allocation is the code, the new bucket and the memory.\<close>

definition nxt_lvlhsh_new_bucket ::
  "('k, 'v) lvlhsh_proto \<Rightarrow> ('k, 'v) lvlhsh_query \<Rightarrow> 'v lvl_mem \<Rightarrow> nxt_rc \<times> 'v slot \<times> 'v lvl_mem" where
  "nxt_lvlhsh_new_bucket proto lhq mem =
     (if m_avail mem = 0 then (NXT_ERROR, Null, mem)
      else
        let es = map (m_junk mem (m_avail mem)) [0..<bucket_cap proto] in
        (NXT_OK, Bucket 3 (es[0 := \<lparr>entry_key = key_hash lhq, entry_value = lq_value lhq\<rparr>]) Null, lvl_alloc mem))"

text \<open>
  The loops of \<^verbatim>\<open>nxt_lvlhsh_bucket_insert\<close>.  The inner loop ends at an entry with the key of the
  query (\<open>Inl\<close>), or after the last entry with the position there and the first hole (\<open>Inr\<close>).
  The outer loop returns the bucket of the chain and the position in it: of an entry with the key
  of the query, or else of the first vacant entry, if there is one.
\<close>

fun insert_entry_loop :: "('v entry \<Rightarrow> bool) \<Rightarrow> 'v entry list \<Rightarrow> nat \<Rightarrow> nat \<Rightarrow> nat option \<Rightarrow> nat + nat \<times> nat option" where
  "insert_entry_loop hit [] n i vacant = Inr (i, vacant)"
| "insert_entry_loop hit (e # es) n i vacant =
     (if hit e then Inl i
      else
        let valid = nxt_lvlhsh_valid_entry e;
            n = (if valid then n - 1 else n);
            vacant = (if \<not> valid \<and> vacant = None then Some i else vacant)
        in if n = 0 then Inr (i + 1, vacant) else insert_entry_loop hit es n (i + 1) vacant)"

datatype bucket_pos = Duplicate nat nat | Vacant nat nat | Full

fun insert_bucket_loop ::
  "('k, 'v) lvlhsh_proto \<Rightarrow> ('k, 'v) lvlhsh_query \<Rightarrow> 'v slot \<Rightarrow> nat \<Rightarrow> (nat \<times> nat) option \<Rightarrow> bucket_pos" where
  "insert_bucket_loop proto lhq (Bucket t es nx) d vacant =
     (case insert_entry_loop (entry_hit proto lhq) es (nxt_lvlhsh_bucket_entries proto t) 0 None of
        Inl i \<Rightarrow> Duplicate d i
      | Inr (e, hole) \<Rightarrow>
          let vacant = (case vacant of
                Some _ \<Rightarrow> vacant
              | None \<Rightarrow>
                  (case hole of
                     Some i \<Rightarrow> Some (d, i)
                   | None \<Rightarrow> if e < bucket_cap proto then Some (d, e) else None))
          in insert_bucket_loop proto lhq nx (d + 1) vacant)"
| "insert_bucket_loop proto lhq _ d vacant = (case vacant of Some (d, i) \<Rightarrow> Vacant d i | None \<Rightarrow> Full)"

text \<open>Access to the bucket number \<open>d\<close> of a chain, to the last bucket and to the end of the chain.\<close>

fun chain_entry :: "'v slot \<Rightarrow> nat \<Rightarrow> nat \<Rightarrow> 'v entry" where
  "chain_entry (Bucket t es nx) d i = (if d = 0 then es ! i else chain_entry nx (d - 1) i)"
| "chain_entry _ d i = \<lparr>entry_key = 0, entry_value = None\<rparr>"

fun chain_update :: "'v slot \<Rightarrow> nat \<Rightarrow> (nat \<Rightarrow> nat) \<Rightarrow> nat \<Rightarrow> 'v entry \<Rightarrow> 'v slot" where
  "chain_update (Bucket t es nx) d cnt i e =
     (if d = 0 then Bucket (cnt t) (es[i := e]) nx else Bucket t es (chain_update nx (d - 1) cnt i e))"
| "chain_update s d cnt i e = s"

fun last_bucket :: "'v slot \<Rightarrow> 'v entry list" where
  "last_bucket (Bucket t es nx) = (case nx of Bucket _ _ _ \<Rightarrow> last_bucket nx | _ \<Rightarrow> es)"
| "last_bucket _ = []"

fun chain_append :: "'v slot \<Rightarrow> 'v slot \<Rightarrow> 'v slot" where
  "chain_append (Bucket t es nx) b = Bucket t es (chain_append nx b)"
| "chain_append _ b = b"

text \<open>The macros \<^verbatim>\<open>nxt_lvlhsh_count_inc\<close> and \<^verbatim>\<open>nxt_lvlhsh_count_dec\<close>.\<close>

definition nxt_lvlhsh_count_inc :: "nat \<Rightarrow> nat" where
  "nxt_lvlhsh_count_inc t = t + 2"

definition nxt_lvlhsh_count_dec :: "nat \<Rightarrow> nat" where
  "nxt_lvlhsh_count_dec t = t - 2"

text \<open>
  The first bucket of the chain with room after its entries, in
  \<^verbatim>\<open>nxt_lvlhsh_bucket_convertion_insert\<close>.
\<close>

fun convertion_bucket_loop :: "('k, 'v) lvlhsh_proto \<Rightarrow> 'v slot \<Rightarrow> nat \<Rightarrow> (nat \<times> nat) option" where
  "convertion_bucket_loop proto (Bucket t es nx) d =
     (let n = nxt_lvlhsh_bucket_entries proto t in
      if n < bucket_cap proto then Some (d, n) else convertion_bucket_loop proto nx (d + 1))"
| "convertion_bucket_loop proto _ d = None"

text \<open>\<^verbatim>\<open>nxt_lvlhsh_free_level\<close> frees the bucket of every slot and the level.\<close>

definition nxt_lvlhsh_free_level :: "'v slot \<Rightarrow> 'v lvl_mem \<Rightarrow> 'v lvl_mem" where
  "nxt_lvlhsh_free_level level mem =
     (case level of
        Level t lvl \<Rightarrow> lvl_free (length (filter (\<lambda>s. s \<noteq> Null) lvl) + 1) mem
      | _ \<Rightarrow> mem)"

text \<open>
  The functions that insert call each other.  They return the code, the new slot, the value of
  the query and the memory.  The parameter \<open>nlvl\<close> of the bucket functions is the level that a
  full bucket is converted to, which the code computes with \<^verbatim>\<open>nlvl++\<close>.  The array \<^verbatim>\<open>shift\<close> has
  eight elements, so that there is no level eight.  The code leaves the key of the query that
  inserts the entries of a converted bucket unset; it is not used.
\<close>

function nxt_lvlhsh_level_insert ::
    "('k, 'v) lvlhsh_proto \<Rightarrow> ('k, 'v) lvlhsh_query \<Rightarrow> 'v slot \<Rightarrow> uint32 \<Rightarrow> nat \<Rightarrow> 'v lvl_mem \<Rightarrow>
     nxt_rc \<times> 'v slot \<times> 'v option \<times> 'v lvl_mem"
  and nxt_lvlhsh_bucket_insert ::
    "('k, 'v) lvlhsh_proto \<Rightarrow> ('k, 'v) lvlhsh_query \<Rightarrow> 'v slot \<Rightarrow> uint32 \<Rightarrow> nat \<Rightarrow> 'v lvl_mem \<Rightarrow>
     nxt_rc \<times> 'v slot \<times> 'v option \<times> 'v lvl_mem"
  and nxt_lvlhsh_convert_bucket_to_level ::
    "('k, 'v) lvlhsh_proto \<Rightarrow> ('k, 'v) lvlhsh_query \<Rightarrow> 'v slot \<Rightarrow> nat \<Rightarrow> 'v entry list \<Rightarrow> 'v lvl_mem \<Rightarrow>
     nxt_rc \<times> 'v slot \<times> 'v lvl_mem"
  and convert_loop ::
    "('k, 'v) lvlhsh_proto \<Rightarrow> ('k, 'v) lvlhsh_query \<Rightarrow> 'v slot \<Rightarrow> nat \<Rightarrow> nat \<Rightarrow> 'v entry list \<Rightarrow> 'v lvl_mem \<Rightarrow>
     nxt_rc \<times> 'v slot \<times> 'v lvl_mem"
  and nxt_lvlhsh_level_convertion_insert ::
    "('k, 'v) lvlhsh_proto \<Rightarrow> ('k, 'v) lvlhsh_query \<Rightarrow> 'v slot \<Rightarrow> uint32 \<Rightarrow> nat \<Rightarrow> 'v lvl_mem \<Rightarrow>
     nxt_rc \<times> 'v slot \<times> 'v option \<times> 'v lvl_mem"
  and nxt_lvlhsh_bucket_convertion_insert ::
    "('k, 'v) lvlhsh_proto \<Rightarrow> ('k, 'v) lvlhsh_query \<Rightarrow> 'v slot \<Rightarrow> uint32 \<Rightarrow> nat \<Rightarrow> 'v lvl_mem \<Rightarrow>
     nxt_rc \<times> 'v slot \<times> 'v option \<times> 'v lvl_mem" where
  "nxt_lvlhsh_level_insert proto lhq parent key nlvl mem =
     (case parent of
        Level t lvl \<Rightarrow>
          let i = level_index proto nlvl key; rest = drop_bit (level_shift proto nlvl) key in
          if nlvl < 8 \<and> i < length lvl then
            case lvl ! i of
              Null \<Rightarrow>
                (case nxt_lvlhsh_new_bucket proto lhq mem of
                   (rc, b, mem) \<Rightarrow>
                     (rc, if rc = NXT_OK then Level (nxt_lvlhsh_count_inc t) (lvl[i := b]) else parent, lq_value lhq, mem))
            | Bucket _ _ _ \<Rightarrow>
                (case nxt_lvlhsh_bucket_insert proto lhq (lvl ! i) rest (nlvl + 1) mem of
                   (rc, s, v, mem) \<Rightarrow> (rc, Level t (lvl[i := s]), v, mem))
            | Level _ _ \<Rightarrow>
                (case nxt_lvlhsh_level_insert proto lhq (lvl ! i) rest (nlvl + 1) mem of
                   (rc, s, v, mem) \<Rightarrow> (rc, Level t (lvl[i := s]), v, mem))
          else (NXT_ERROR, parent, lq_value lhq, mem)
      | _ \<Rightarrow> (NXT_ERROR, parent, lq_value lhq, mem))"
| "nxt_lvlhsh_bucket_insert proto lhq slot key nlvl mem =
     (case insert_bucket_loop proto lhq slot 0 None of
        Duplicate d i \<Rightarrow>
          let old = chain_entry slot d i in
          if replace lhq
          then (NXT_OK, chain_update slot d (\<lambda>t. t) i (old\<lparr>entry_value := lq_value lhq\<rparr>), entry_value old, mem)
          else (NXT_DECLINED, slot, entry_value old, mem)
      | Vacant d i \<Rightarrow>
          (NXT_OK, chain_update slot d nxt_lvlhsh_count_inc i \<lparr>entry_key = key_hash lhq, entry_value = lq_value lhq\<rparr>,
           lq_value lhq, mem)
      | Full \<Rightarrow>
          if nlvl < 8 \<and> level_shift proto nlvl \<noteq> 0 then
            case nxt_lvlhsh_convert_bucket_to_level proto lhq slot nlvl (last_bucket slot) mem of
              (rc, slot, mem) \<Rightarrow>
                if rc = NXT_OK then nxt_lvlhsh_level_insert proto lhq slot key nlvl mem
                else (rc, slot, lq_value lhq, mem)
          else
            (case nxt_lvlhsh_new_bucket proto lhq mem of
               (rc, b, mem) \<Rightarrow> (rc, chain_append slot b, lq_value lhq, mem)))"
| "nxt_lvlhsh_convert_bucket_to_level proto lhq slot nlvl bucket mem =
     (if m_avail mem = 0 then (NXT_ERROR, slot, mem)
      else
        let lvl = Level 0 (replicate (2 ^ level_shift proto nlvl) Null);
            sh = (\<Sum>i\<leftarrow>[0..<nlvl]. level_shift proto i)
        in case convert_loop proto lhq lvl sh nlvl bucket (lvl_alloc mem) of
             (rc, lvl, mem) \<Rightarrow>
               if rc = NXT_OK then (NXT_OK, lvl, lvl_free 1 mem)
               else (NXT_ERROR, slot, nxt_lvlhsh_free_level lvl mem))"
| "convert_loop proto lhq lvl sh nlvl bucket mem =
     (case bucket of
        [] \<Rightarrow> (NXT_OK, lvl, mem)
      | e # es \<Rightarrow>
          let q = lhq\<lparr>key_hash := entry_key e, lq_value := entry_value e\<rparr> in
          case nxt_lvlhsh_level_convertion_insert proto q lvl (drop_bit sh (entry_key e)) nlvl mem of
            (rc, lvl, v, mem) \<Rightarrow>
              if rc = NXT_OK then convert_loop proto lhq lvl sh nlvl es mem else (rc, lvl, mem))"
| "nxt_lvlhsh_level_convertion_insert proto lhq parent key nlvl mem =
     (case parent of
        Level t lvl \<Rightarrow>
          let i = level_index proto nlvl key; rest = drop_bit (level_shift proto nlvl) key in
          if nlvl < 8 \<and> i < length lvl then
            if lvl ! i = Null then
              case nxt_lvlhsh_new_bucket proto lhq mem of
                (rc, b, mem) \<Rightarrow>
                  (rc, if rc = NXT_OK then Level (nxt_lvlhsh_count_inc t) (lvl[i := b]) else parent, lq_value lhq, mem)
            else
              case nxt_lvlhsh_bucket_convertion_insert proto lhq (lvl ! i) rest (nlvl + 1) mem of
                (rc, s, v, mem) \<Rightarrow> (rc, Level t (lvl[i := s]), v, mem)
          else (NXT_ERROR, parent, lq_value lhq, mem)
      | _ \<Rightarrow> (NXT_ERROR, parent, lq_value lhq, mem))"
| "nxt_lvlhsh_bucket_convertion_insert proto lhq slot key nlvl mem =
     (case convertion_bucket_loop proto slot 0 of
        Some (d, i) \<Rightarrow>
          (NXT_OK, chain_update slot d nxt_lvlhsh_count_inc i \<lparr>entry_key = key_hash lhq, entry_value = lq_value lhq\<rparr>,
           lq_value lhq, mem)
      | None \<Rightarrow>
          if nlvl < 8 \<and> level_shift proto nlvl \<noteq> 0 then
            case nxt_lvlhsh_convert_bucket_to_level proto lhq slot nlvl (last_bucket slot) mem of
              (rc, slot, mem) \<Rightarrow>
                if rc = NXT_OK then nxt_lvlhsh_level_insert proto lhq slot key nlvl mem
                else (rc, slot, lq_value lhq, mem)
          else
            (case nxt_lvlhsh_new_bucket proto lhq mem of
               (rc, b, mem) \<Rightarrow> (rc, chain_append slot b, lq_value lhq, mem)))"
  by pat_completeness auto
termination
  by (relation "inv_image (less_than <*lex*> less_than <*lex*> less_than)
      (case_sum
        (case_sum (\<lambda>(proto, lhq, parent, key, nlvl, mem). (8 - nlvl, 0, 0))
          (case_sum (\<lambda>(proto, lhq, slot, key, nlvl, mem). (8 - nlvl, 4, 0))
            (\<lambda>(proto, lhq, slot, nlvl, bucket, mem). (8 - nlvl, 3, 0))))
        (case_sum (\<lambda>(proto, lhq, lvl, sh, nlvl, bucket, mem). (8 - nlvl, 2, length bucket))
          (case_sum (\<lambda>(proto, lhq, parent, key, nlvl, mem). (8 - nlvl, 1, 0))
            (\<lambda>(proto, lhq, slot, key, nlvl, mem). (8 - nlvl, 4, 0)))))") auto

declare nxt_lvlhsh_level_insert.simps [simp del]
declare nxt_lvlhsh_bucket_insert.simps [simp del]
declare nxt_lvlhsh_convert_bucket_to_level.simps [simp del]
declare convert_loop.simps [simp del]
declare nxt_lvlhsh_level_convertion_insert.simps [simp del]
declare nxt_lvlhsh_bucket_convertion_insert.simps [simp del]

definition nxt_lvlhsh_insert ::
  "('k, 'v) lvlhsh_proto \<Rightarrow> ('k, 'v) lvlhsh_query \<Rightarrow> 'v slot \<Rightarrow> 'v lvl_mem \<Rightarrow>
   nxt_rc \<times> 'v slot \<times> 'v option \<times> 'v lvl_mem" where
  "nxt_lvlhsh_insert proto lhq slot mem =
     (case slot of
        Null \<Rightarrow>
          (case nxt_lvlhsh_new_bucket proto lhq mem of
             (rc, b, mem) \<Rightarrow> (rc, b, lq_value lhq, mem))
      | Bucket _ _ _ \<Rightarrow> nxt_lvlhsh_bucket_insert proto lhq slot (key_hash lhq) 0 mem
      | Level _ _ \<Rightarrow> nxt_lvlhsh_level_insert proto lhq slot (key_hash lhq) 0 mem)"

section \<open>Deletion\<close>

text \<open>
  The functions return the value of the deleted entry, which is null when there is none
  (\<^verbatim>\<open>NXT_DECLINED\<close>), the new slot and the memory.
\<close>

fun nxt_lvlhsh_bucket_delete ::
  "('k, 'v) lvlhsh_proto \<Rightarrow> ('k, 'v) lvlhsh_query \<Rightarrow> 'v slot \<Rightarrow> 'v lvl_mem \<Rightarrow> 'v option \<times> 'v slot \<times> 'v lvl_mem" where
  "nxt_lvlhsh_bucket_delete proto lhq (Bucket t es nx) mem =
     (let n = nxt_lvlhsh_bucket_entries proto t in
      case find_entry (entry_hit proto lhq) es n 0 of
        Some i \<Rightarrow>
          if n = 1 then (entry_value (es ! i), nx, lvl_free 1 mem)
          else (entry_value (es ! i), Bucket (nxt_lvlhsh_count_dec t) (es[i := (es ! i)\<lparr>entry_value := None\<rparr>]) nx, mem)
      | None \<Rightarrow>
          (case nxt_lvlhsh_bucket_delete proto lhq nx mem of
             (v, nx, mem) \<Rightarrow> (v, Bucket t es nx, mem)))"
| "nxt_lvlhsh_bucket_delete proto lhq s mem = (None, s, mem)"

text \<open>What the level functions do with the parent when a slot of it has changed.\<close>

definition level_slot_update :: "nat \<Rightarrow> nat \<Rightarrow> 'v slot list \<Rightarrow> nat \<Rightarrow> 'v slot \<Rightarrow> 'v lvl_mem \<Rightarrow> 'v slot \<times> 'v lvl_mem" where
  "level_slot_update m t lvl i s mem =
     (if s = Null then
        let t = nxt_lvlhsh_count_dec t in
        if nxt_lvlhsh_level_entries t m = 0 then (Null, lvl_free 1 mem) else (Level t (lvl[i := s]), mem)
      else (Level t (lvl[i := s]), mem))"

fun nxt_lvlhsh_level_delete ::
  "('k, 'v) lvlhsh_proto \<Rightarrow> ('k, 'v) lvlhsh_query \<Rightarrow> nat \<Rightarrow> 'v slot list \<Rightarrow> uint32 \<Rightarrow> nat \<Rightarrow> 'v lvl_mem \<Rightarrow>
   'v option \<times> 'v slot \<times> 'v lvl_mem" where
  "nxt_lvlhsh_level_delete proto lhq t lvl key nlvl mem =
     (let i = level_index proto nlvl key; m = 2 ^ level_shift proto nlvl - 1 in
      if i < length lvl then
        case lvl ! i of
          Null \<Rightarrow> (None, Level t lvl, mem)
        | Bucket _ _ _ \<Rightarrow>
            (case nxt_lvlhsh_bucket_delete proto lhq (lvl ! i) mem of
               (v, s, mem) \<Rightarrow> (v, level_slot_update m t lvl i s mem))
        | Level t' lvl' \<Rightarrow>
            (case nxt_lvlhsh_level_delete proto lhq t' lvl' (drop_bit (level_shift proto nlvl) key) (nlvl + 1) mem of
               (v, s, mem) \<Rightarrow> (v, level_slot_update m t lvl i s mem))
      else (None, Level t lvl, mem))"

definition nxt_lvlhsh_delete ::
  "('k, 'v) lvlhsh_proto \<Rightarrow> ('k, 'v) lvlhsh_query \<Rightarrow> 'v slot \<Rightarrow> 'v lvl_mem \<Rightarrow> 'v option \<times> 'v slot \<times> 'v lvl_mem" where
  "nxt_lvlhsh_delete proto lhq slot mem =
     (case slot of
        Null \<Rightarrow> (None, slot, mem)
      | Bucket _ _ _ \<Rightarrow> nxt_lvlhsh_bucket_delete proto lhq slot mem
      | Level t lvl \<Rightarrow> nxt_lvlhsh_level_delete proto lhq t lvl (key_hash lhq) 0 mem)"

section \<open>Taking elements out of the hash\<close>

text \<open>\<open>retrieve\<close> is \<^verbatim>\<open>peek->retrieve\<close>: whether the element is removed.\<close>

definition nxt_lvlhsh_bucket_peek ::
  "('k, 'v) lvlhsh_proto \<Rightarrow> bool \<Rightarrow> nat \<Rightarrow> 'v entry list \<Rightarrow> 'v slot \<Rightarrow> 'v lvl_mem \<Rightarrow> 'v option \<times> 'v slot \<times> 'v lvl_mem" where
  "nxt_lvlhsh_bucket_peek proto retrieve t es nx mem =
     (let i = length (takeWhile (\<lambda>e. \<not> nxt_lvlhsh_valid_entry e) es); v = entry_value (es ! i) in
      if retrieve then
        if nxt_lvlhsh_bucket_entries proto t = 1 then (v, nx, lvl_free 1 mem)
        else (v, Bucket (nxt_lvlhsh_count_dec t) (es[i := (es ! i)\<lparr>entry_value := None\<rparr>]) nx, mem)
      else (v, Bucket t es nx, mem))"

fun nxt_lvlhsh_level_peek ::
  "('k, 'v) lvlhsh_proto \<Rightarrow> bool \<Rightarrow> nat \<Rightarrow> 'v slot list \<Rightarrow> nat \<Rightarrow> 'v lvl_mem \<Rightarrow> 'v option \<times> 'v slot \<times> 'v lvl_mem" where
  "nxt_lvlhsh_level_peek proto retrieve t lvl nlvl mem =
     (let n = length (takeWhile (\<lambda>s. s = Null) lvl); m = 2 ^ level_shift proto nlvl - 1 in
      if n < length lvl then
        case lvl ! n of
          Null \<Rightarrow> (None, Level t lvl, mem)
        | Bucket t' es nx \<Rightarrow>
            (case nxt_lvlhsh_bucket_peek proto retrieve t' es nx mem of
               (v, s, mem) \<Rightarrow> (v, level_slot_update m t lvl n s mem))
        | Level t' lvl' \<Rightarrow>
            (case nxt_lvlhsh_level_peek proto retrieve t' lvl' (nlvl + 1) mem of
               (v, s, mem) \<Rightarrow> (v, level_slot_update m t lvl n s mem))
      else (None, Level t lvl, mem))"

definition lvlhsh_peek :: "('k, 'v) lvlhsh_proto \<Rightarrow> bool \<Rightarrow> 'v slot \<Rightarrow> 'v lvl_mem \<Rightarrow> 'v option \<times> 'v slot \<times> 'v lvl_mem" where
  "lvlhsh_peek proto retrieve slot mem =
     (case slot of
        Null \<Rightarrow> (None, slot, mem)
      | Bucket t es nx \<Rightarrow> nxt_lvlhsh_bucket_peek proto retrieve t es nx mem
      | Level t lvl \<Rightarrow> nxt_lvlhsh_level_peek proto retrieve t lvl 0 mem)"

definition nxt_lvlhsh_peek :: "('k, 'v) lvlhsh_proto \<Rightarrow> 'v slot \<Rightarrow> 'v option" where
  "nxt_lvlhsh_peek proto slot = fst (lvlhsh_peek proto False slot \<lparr>m_avail = 0, m_live = 0, m_junk = \<lambda>_ _. \<lparr>entry_key = 0, entry_value = None\<rparr>\<rparr>)"

definition nxt_lvlhsh_retrieve :: "('k, 'v) lvlhsh_proto \<Rightarrow> 'v slot \<Rightarrow> 'v lvl_mem \<Rightarrow> 'v option \<times> 'v slot \<times> 'v lvl_mem" where
  "nxt_lvlhsh_retrieve proto slot mem = lvlhsh_peek proto True slot mem"

section \<open>Iteration\<close>

text \<open>
  The position of the iterator: before the first element, in a bucket, or after the last entry of
  a chain of buckets (\<^verbatim>\<open>NXT_LVLHSH_BUCKET_DONE\<close>).  \<open>lhe_entry\<close> counts entries.
\<close>

datatype 'v each_bucket = No_bucket | Bucket_done | In_bucket "'v entry list" "'v slot"

record 'v lvlhsh_each =
  lhe_bucket :: "'v each_bucket"
  lhe_current :: uint32
  lhe_entry :: nat
  lhe_entries :: nat

definition nxt_lvlhsh_each_init :: "'v lvlhsh_each \<Rightarrow> 'v lvlhsh_each" where
  "nxt_lvlhsh_each_init lhe = lhe\<lparr>lhe_bucket := No_bucket\<rparr>"

definition nxt_lvlhsh_bucket_each :: "('k, 'v) lvlhsh_proto \<Rightarrow> 'v lvlhsh_each \<Rightarrow> 'v option \<times> 'v lvlhsh_each" where
  "nxt_lvlhsh_bucket_each proto lhe =
     (case lhe_bucket lhe of
        In_bucket es nx \<Rightarrow>
          let i = lhe_entry lhe + length (takeWhile (\<lambda>e. \<not> nxt_lvlhsh_valid_entry e) (drop (lhe_entry lhe) es));
              n = lhe_entries lhe - 1
          in (entry_value (es ! i),
              if n = 0 then
                (case nx of
                   Bucket t es' nx' \<Rightarrow> lhe\<lparr>lhe_bucket := In_bucket es' nx', lhe_entries := nxt_lvlhsh_bucket_entries proto t, lhe_entry := 0\<rparr>
                 | _ \<Rightarrow> lhe\<lparr>lhe_bucket := Bucket_done, lhe_entries := 0, lhe_entry := 0\<rparr>)
              else lhe\<lparr>lhe_entry := i + 1, lhe_entries := n\<rparr>)
      | _ \<Rightarrow> (None, lhe))"

text \<open>
  \<^verbatim>\<open>nxt_lvlhsh_level_each\<close>.  The index of the slot is read from the bits of \<open>lhe_current\<close> that belong
  to the level; \<open>each_next\<close> is the end of the loop body, which steps these bits and tells whether
  the loop goes on.  The masks have 64 bits in the code, and all results are stored with 32 bits.
  Nothing in the loop itself makes it end: its result is an option.
\<close>

definition each_index :: "('k, 'v) lvlhsh_proto \<Rightarrow> 'v lvlhsh_each \<Rightarrow> nat \<Rightarrow> nat \<Rightarrow> nat" where
  "each_index proto lhe nlvl sh = unat (drop_bit sh (lhe_current lhe) AND (2 ^ level_shift proto nlvl - 1))"

definition each_next :: "('k, 'v) lvlhsh_proto \<Rightarrow> 'v lvlhsh_each \<Rightarrow> nat \<Rightarrow> nat \<Rightarrow> nat \<Rightarrow> uint32 \<times> 'v lvlhsh_each" where
  "each_next proto lhe n nlvl sh =
     (let m = 2 ^ level_shift proto nlvl - 1;
          lhe = lhe\<lparr>lhe_current := lhe_current lhe AND NOT (push_bit sh m)\<rparr>;
          n = push_bit sh ((of_nat n + 1) AND m)
      in (n, lhe\<lparr>lhe_current := lhe_current lhe OR n\<rparr>))"

partial_function (option) nxt_lvlhsh_level_each ::
    "('k, 'v) lvlhsh_proto \<Rightarrow> 'v lvlhsh_each \<Rightarrow> 'v slot list \<Rightarrow> nat \<Rightarrow> nat \<Rightarrow> ('v option \<times> 'v lvlhsh_each) option" where
  [code]: "nxt_lvlhsh_level_each proto lhe level nlvl sh =
     (let n = each_index proto lhe nlvl sh in
      if n < length level then
        Option.bind
          (case level ! n of
             Null \<Rightarrow> Some (None, lhe)
           | Bucket t es nx \<Rightarrow>
               Some (if lhe_bucket lhe \<noteq> Bucket_done then
                       nxt_lvlhsh_bucket_each proto
                         (lhe\<lparr>lhe_bucket := In_bucket es nx, lhe_entries := nxt_lvlhsh_bucket_entries proto t, lhe_entry := 0\<rparr>)
                     else (None, lhe\<lparr>lhe_bucket := No_bucket\<rparr>))
           | Level t lvl \<Rightarrow> nxt_lvlhsh_level_each proto lhe lvl (nlvl + 1) (sh + level_shift proto nlvl))
          (\<lambda>r. case r of
             (Some v, lhe) \<Rightarrow> Some (Some v, lhe)
           | (None, lhe) \<Rightarrow>
               (case each_next proto lhe n nlvl sh of
                  (n, lhe) \<Rightarrow> if n = 0 then Some (None, lhe) else nxt_lvlhsh_level_each proto lhe level nlvl sh))
      else None)"

text \<open>
  \<^verbatim>\<open>nxt_lvlhsh_each\<close>.  Where the code would follow a null pointer, if the hash has become empty
  during the iteration, there is no result.
\<close>

definition nxt_lvlhsh_each ::
  "('k, 'v) lvlhsh_proto \<Rightarrow> 'v slot \<Rightarrow> 'v lvlhsh_each \<Rightarrow> ('v option \<times> 'v lvlhsh_each) option" where
  "nxt_lvlhsh_each proto slot lhe =
     (case lhe_bucket lhe of
        Bucket_done \<Rightarrow>
          (case slot of
             Level t lvl \<Rightarrow> nxt_lvlhsh_level_each proto lhe lvl 0 0
           | Bucket t es nx \<Rightarrow> Some (None, lhe)
           | Null \<Rightarrow> None)
      | No_bucket \<Rightarrow>
          (case slot of
             Null \<Rightarrow> Some (None, lhe)
           | Level t lvl \<Rightarrow> nxt_lvlhsh_level_each proto (lhe\<lparr>lhe_current := 0\<rparr>) lvl 0 0
           | Bucket t es nx \<Rightarrow>
               Some (nxt_lvlhsh_bucket_each proto
                 (lhe\<lparr>lhe_bucket := In_bucket es nx, lhe_entries := nxt_lvlhsh_bucket_entries proto t, lhe_entry := 0\<rparr>)))
      | In_bucket es nx \<Rightarrow> Some (nxt_lvlhsh_bucket_each proto lhe))"

end
