(* ===== verification/Nxt_Lvlhsh_Store.thy ===== *)
theory Nxt_Lvlhsh_Store
  imports Nxt_Lvlhsh
begin

text \<open>
  The invariant of the level hash, the list of its entries, and what the operations do with them:
  a search returns the first entry that fits, a deletion removes it, and an insertion replaces
  it, is declined, or adds an entry.  Every operation keeps the invariant, and the blocks that
  are allocated are those of the tree.
\<close>

section \<open>The entries and the invariant\<close>

text \<open>The bits of a hash that are used above a level.\<close>

definition shift_sum :: "('k, 'v) lvlhsh_proto \<Rightarrow> nat \<Rightarrow> nat" where
  "shift_sum proto nlvl = (\<Sum>i\<leftarrow>[0..<nlvl]. level_shift proto i)"

text \<open>
  What the code requires of a prototype: buckets that are a power of two in size, with room for at
  least one entry and tags that fit below the size; eight shifts, the last of which is zero;
  and no shift of a hash by 32 or more.
\<close>

definition proto_ok :: "('k, 'v) lvlhsh_proto \<Rightarrow> bool" where
  "proto_ok proto \<longleftrightarrow>
     (\<exists>k<32. bucket_size proto = 2 ^ k) \<and> bucket_mask proto = bucket_size proto - 1 \<and>
     0 < bucket_cap proto \<and> 2 * bucket_cap proto + 1 < bucket_size proto \<and>
     length (shift proto) = 8 \<and> shift proto ! 7 = 0 \<and>
     list_all (\<lambda>s. s < 32) (shift proto) \<and>
     list_all (\<lambda>n. level_shift proto n \<noteq> 0 \<longrightarrow> shift_sum proto n < 32) [0..<8]"

text \<open>The entries in use of a bucket are the first valid ones, as many as the tag says.\<close>

definition bucket_used :: "('k, 'v) lvlhsh_proto \<Rightarrow> nat \<Rightarrow> 'v entry list \<Rightarrow> 'v entry list" where
  "bucket_used proto t es = take (nxt_lvlhsh_bucket_entries proto t) (filter nxt_lvlhsh_valid_entry es)"

fun entries :: "('k, 'v) lvlhsh_proto \<Rightarrow> 'v slot \<Rightarrow> 'v entry list" where
  "entries proto Null = []"
| "entries proto (Bucket t es nx) = bucket_used proto t es @ entries proto nx"
| "entries proto (Level t lvl) = concat (map (entries proto) lvl)"

text \<open>The allocated blocks.\<close>

fun blocks :: "'v slot \<Rightarrow> nat" where
  "blocks Null = 0"
| "blocks (Bucket t es nx) = 1 + blocks nx"
| "blocks (Level t lvl) = 1 + sum_list (map blocks lvl)"

definition bucket_ok :: "('k, 'v) lvlhsh_proto \<Rightarrow> nat \<Rightarrow> 'v entry list \<Rightarrow> bool" where
  "bucket_ok proto t es \<longleftrightarrow>
     length es = bucket_cap proto \<and> odd t \<and> 0 < t div 2 \<and> t div 2 \<le> length (filter nxt_lvlhsh_valid_entry es)"

fun chain_ok :: "('k, 'v) lvlhsh_proto \<Rightarrow> 'v slot \<Rightarrow> bool" where
  "chain_ok proto Null \<longleftrightarrow> True"
| "chain_ok proto (Bucket t es nx) \<longleftrightarrow> bucket_ok proto t es \<and> chain_ok proto nx"
| "chain_ok proto (Level t lvl) \<longleftrightarrow> False"

text \<open>The slot of a level for a key: the bits of the level after those of the levels above.\<close>

definition key_slot :: "('k, 'v) lvlhsh_proto \<Rightarrow> nat \<Rightarrow> uint32 \<Rightarrow> nat" where
  "key_slot proto nlvl key = level_index proto nlvl (drop_bit (shift_sum proto nlvl) key)"

definition used_slots :: "'v slot list \<Rightarrow> nat" where
  "used_slots lvl = length (filter (\<lambda>s. s \<noteq> Null) lvl)"

text \<open>
  The invariant of a slot on the level above \<open>n\<close>: what a bucket there is converted to is a level
  \<open>n\<close>.  A bucket has a successor only where no level can be below.
\<close>

fun slot_ok :: "('k, 'v) lvlhsh_proto \<Rightarrow> nat \<Rightarrow> 'v slot \<Rightarrow> bool" where
  "slot_ok proto n Null \<longleftrightarrow> True"
| "slot_ok proto n (Bucket t es nx) \<longleftrightarrow>
     chain_ok proto (Bucket t es nx) \<and> (nx = Null \<or> level_shift proto n = 0)"
| "slot_ok proto n (Level t lvl) \<longleftrightarrow>
     level_shift proto n \<noteq> 0 \<and> length lvl = 2 ^ level_shift proto n \<and> t = 2 * used_slots lvl \<and> t \<noteq> 0 \<and>
     list_all (slot_ok proto (n + 1)) lvl \<and>
     list_all (\<lambda>(i, s). list_all (\<lambda>e. key_slot proto n (entry_key e) = i) (entries proto s)) (enumerate 0 lvl)"

section \<open>Numbers\<close>

lemma shift_sum_Suc: "shift_sum proto (Suc n) = shift_sum proto n + level_shift proto n"
  by (simp add: shift_sum_def)

lemma shift_sum_0 [simp]: "shift_sum proto 0 = 0"
  by (simp add: shift_sum_def)

lemma level_shift_high [simp]: "proto_ok proto \<Longrightarrow> 7 \<le> n \<Longrightarrow> level_shift proto n = 0"
  by (cases "n = 7") (auto simp: proto_ok_def level_shift_def)

lemma level_shift_less: "proto_ok proto \<Longrightarrow> level_shift proto n < 32"
  by (auto simp: proto_ok_def level_shift_def list_all_length)

lemma level_index_less: "proto_ok proto \<Longrightarrow> level_index proto n key < 2 ^ level_shift proto n"
proof -
  assume "proto_ok proto"
  then have "level_shift proto n < 32" by (rule level_shift_less)
  then show ?thesis
    unfolding level_index_def
    by (simp add: mask_eq_exp_minus_1 [symmetric] take_bit_eq_mask [symmetric] unsigned_take_bit_eq take_bit_nat_less_exp)
qed

lemma key_slot_less: "proto_ok proto \<Longrightarrow> key_slot proto n key < 2 ^ level_shift proto n"
  by (simp add: key_slot_def level_index_less)

lemma rest_key: "drop_bit (level_shift proto n) (drop_bit (shift_sum proto n) key) = drop_bit (shift_sum proto (Suc n)) key"
  by (simp add: shift_sum_Suc ac_simps)

lemma bucket_entries_tag:
  assumes "proto_ok proto" and "n \<le> bucket_cap proto"
  shows "nxt_lvlhsh_bucket_entries proto (2 * n + 1) = n"
proof -
  obtain k where k: "bucket_size proto = 2 ^ k" "bucket_mask proto = 2 ^ k - 1" "2 * bucket_cap proto + 1 < 2 ^ k"
    using assms(1) by (auto simp: proto_ok_def)
  have "(2 * n + 1) AND (2 ^ k - 1) = (2 * n + 1) mod 2 ^ k"
    by (simp only: mask_eq_exp_minus_1 [symmetric] take_bit_eq_mask [symmetric] take_bit_eq_mod)
  with k assms(2) show ?thesis by (simp add: nxt_lvlhsh_bucket_entries_def)
qed

lemma bucket_ok_entries:
  assumes "proto_ok proto" and "bucket_ok proto t es"
  shows "nxt_lvlhsh_bucket_entries proto t = t div 2"
proof -
  have "t div 2 \<le> bucket_cap proto"
    using assms(2) length_filter_le [of nxt_lvlhsh_valid_entry es] by (simp add: bucket_ok_def)
  moreover have "t = 2 * (t div 2) + 1" using assms(2) by (simp add: bucket_ok_def)
  ultimately show ?thesis using bucket_entries_tag [OF assms(1)] by metis
qed

lemma bucket_ok_tag:
  assumes "proto_ok proto" and "bucket_ok proto t es"
  shows "\<exists>n. t = 2 * n + 1 \<and> 0 < n \<and> n \<le> length (filter nxt_lvlhsh_valid_entry es) \<and>
    length es = bucket_cap proto \<and> nxt_lvlhsh_bucket_entries proto t = n \<and>
    bucket_used proto t es = take n (filter nxt_lvlhsh_valid_entry es)"
proof (intro exI conjI)
  show "t = 2 * (t div 2) + 1" using assms(2) by (simp add: bucket_ok_def)
qed (use assms bucket_ok_entries [OF assms] in \<open>simp_all add: bucket_ok_def bucket_used_def\<close>)

section \<open>One bucket\<close>

abbreviation valid :: "'v entry \<Rightarrow> bool" where
  "valid \<equiv> nxt_lvlhsh_valid_entry"

text \<open>An entry at a position before which fewer than \<open>n\<close> valid ones are.\<close>

lemma take_filter_split:
  "length (filter P a) \<le> n \<Longrightarrow> take n (filter P (a @ b)) = filter P a @ take (n - length (filter P a)) (filter P b)"
  by simp

lemma find_entry_Some:
  "find_entry hit es n i = Some j \<Longrightarrow> 0 < n \<Longrightarrow>
     \<exists>a x b. es = a @ x # b \<and> j = i + length a \<and> hit x \<and> length (filter valid a) < n \<and> (\<forall>y\<in>set a. \<not> hit y)"
proof (induction hit es n i rule: find_entry.induct)
  case (2 hit e es n i)
  show ?case
  proof (cases "hit e")
    case True
    then have "e # es = [] @ e # es \<and> j = i + length [] \<and> hit e \<and> length (filter valid []) < n" using 2 by simp
    then show ?thesis by fastforce
  next
    case False
    let ?n = "if valid e then n - 1 else n"
    have "?n \<noteq> 0" "find_entry hit es ?n (i + 1) = Some j" using 2(2) False by (auto simp: Let_def split: if_splits)
    with 2(1) [OF False refl] obtain a x b where
      "es = a @ x # b" "j = i + 1 + length a" "hit x" "length (filter valid a) < ?n" "\<forall>y\<in>set a. \<not> hit y"
      by auto
    then have "e # es = (e # a) @ x # b \<and> j = i + length (e # a) \<and> hit x \<and> length (filter valid (e # a)) < n \<and>
        (\<forall>y\<in>set (e # a). \<not> hit y)"
      using False by (auto split: if_splits)
    then show ?thesis by blast
  qed
qed simp

lemma find_entry_None:
  "find_entry hit es n i = None \<Longrightarrow> 0 < n \<Longrightarrow> list_all (\<lambda>y. \<not> hit y) (take n (filter valid es))"
proof (induction hit es n i rule: find_entry.induct)
  case (2 hit e es n i)
  let ?n = "if valid e then n - 1 else n"
  have h: "\<not> hit e" using 2(2) by auto
  then have "?n = 0 \<or> find_entry hit es ?n (i + 1) = None" using 2(2) by (auto simp: Let_def split: if_splits)
  then have "list_all (\<lambda>y. \<not> hit y) (take ?n (filter valid es))"
    using 2(1) [OF h refl] by (cases "?n = 0") (simp, blast)
  then show ?case using h 2(3) by (cases n) auto
qed simp

lemma insert_entry_Inl: "insert_entry_loop hit es n i vac = Inl j \<longleftrightarrow> find_entry hit es n i = Some j"
  by (induction hit es n i vac rule: insert_entry_loop.induct) (auto simp: Let_def)

lemma insert_entry_keep: "insert_entry_loop hit es n i (Some v) = Inr (e, h) \<Longrightarrow> h = Some v"
  by (induction hit es n i "Some v" rule: insert_entry_loop.induct) (auto simp: Let_def split: if_splits)

lemma insert_entry_hole:
  "insert_entry_loop hit es n i None = Inr (e, Some h) \<Longrightarrow> 0 < n \<Longrightarrow>
     \<exists>a x b. es = a @ x # b \<and> h = i + length a \<and> \<not> valid x \<and> length (filter valid a) < n"
proof (induction es arbitrary: n i)
  case (Cons x es)
  have h: "\<not> hit x" using Cons.prems by auto
  show ?case
  proof (cases "valid x")
    case True
    with Cons.prems h have n: "0 < n - 1" "insert_entry_loop hit es (n - 1) (i + 1) None = Inr (e, Some h)"
      by (auto simp: Let_def split: if_splits)
    from Cons.IH [OF n(2,1)] obtain a y b where
      "es = a @ y # b" "h = i + 1 + length a" "\<not> valid y" "length (filter valid a) < n - 1" by blast
    then have "x # es = (x # a) @ y # b \<and> h = i + length (x # a) \<and> \<not> valid y \<and> length (filter valid (x # a)) < n"
      using True by simp
    then show ?thesis by blast
  next
    case False
    with Cons.prems h have "insert_entry_loop hit es n (i + 1) (Some i) = Inr (e, Some h)"
      by (auto simp: Let_def)
    from insert_entry_keep [OF this] False Cons.prems(2) show ?thesis by fastforce
  qed
qed simp

lemma insert_entry_full:
  "insert_entry_loop hit es n i vac = Inr (e, None) \<Longrightarrow> 0 < n \<Longrightarrow> n \<le> length (filter valid es) \<Longrightarrow>
     \<exists>a b. es = a @ b \<and> e = i + length a \<and> list_all valid a \<and> length a = n"
proof (induction es arbitrary: n i)
  case (Cons x es)
  have v: "vac = None" using insert_entry_keep Cons.prems(1) by (cases vac) blast+
  have x: "valid x"
  proof (rule ccontr)
    assume "\<not> valid x"
    with Cons.prems v have "insert_entry_loop hit es n (i + 1) (Some i) = Inr (e, None)"
      by (auto simp: Let_def split: if_splits)
    then show False by (auto dest: insert_entry_keep)
  qed
  show ?case
  proof (cases "n = 1")
    case True
    with Cons.prems x have "x # es = [x] @ es \<and> e = i + length [x] \<and> list_all valid [x] \<and> length [x] = n"
      by (auto simp: Let_def split: if_splits)
    then show ?thesis by blast
  next
    case False
    with Cons.prems x have "insert_entry_loop hit es (n - 1) (i + 1) vac = Inr (e, None)"
      "0 < n - 1" "n - 1 \<le> length (filter valid es)"
      by (auto simp: Let_def split: if_splits)
    from Cons.IH [OF this] obtain a b where
      "es = a @ b" "e = i + 1 + length a" "list_all valid a" "length a = n - 1" by blast
    with x Cons.prems(2) have "x # es = (x # a) @ b \<and> e = i + length (x # a) \<and> list_all valid (x # a) \<and> length (x # a) = n"
      by simp
    then show ?thesis by blast
  qed
qed simp

text \<open>How a change of one entry changes the entries in use.\<close>

lemma take_valid_at:
  "valid x \<Longrightarrow> length (filter valid a) < n \<Longrightarrow>
     take n (filter valid (a @ x # b)) = filter valid a @ x # take (n - Suc (length (filter valid a))) (filter valid b)"
  using Suc_diff_Suc [of "length (filter valid a)" n, symmetric] by simp

lemma take_valid_free:
  "\<not> valid x \<or> length (filter valid a) = n \<Longrightarrow> length (filter valid a) \<le> n \<Longrightarrow>
     take n (filter valid (a @ x # b)) = filter valid a @ take (n - length (filter valid a)) (filter valid b)"
  by auto

lemma filter_no_hit: "\<forall>y\<in>set a. \<not> hit y \<Longrightarrow> filter hit (filter valid a) = []"
  by (auto simp: filter_empty_conv)

section \<open>Chains of buckets\<close>

lemma entry_hit_valid: "entry_hit proto lhq e \<Longrightarrow> valid e"
  by (simp add: entry_hit_def)

abbreviation hits :: "('k, 'v) lvlhsh_proto \<Rightarrow> ('k, 'v) lvlhsh_query \<Rightarrow> 'v slot \<Rightarrow> 'v entry list" where
  "hits proto lhq s \<equiv> filter (entry_hit proto lhq) (entries proto s)"

definition first_value :: "'v entry list \<Rightarrow> 'v option" where
  "first_value es = (case es of [] \<Rightarrow> None | e # _ \<Rightarrow> entry_value e)"

text \<open>Where the search of a bucket ends.\<close>

lemma bucket_found:
  assumes "proto_ok proto" and "bucket_ok proto t es"
    and "find_entry (entry_hit proto lhq) es (nxt_lvlhsh_bucket_entries proto t) 0 = Some i"
  shows "\<exists>n a x b. t = 2 * n + 1 \<and> 0 < n \<and> nxt_lvlhsh_bucket_entries proto t = n \<and>
    es = a @ x # b \<and> i = length a \<and> length (filter valid a) < n \<and> n \<le> length (filter valid es) \<and>
    entry_hit proto lhq x \<and> (\<forall>y\<in>set a. \<not> entry_hit proto lhq y) \<and>
    bucket_used proto t es = filter valid a @ x # take (n - Suc (length (filter valid a))) (filter valid b)"
proof -
  obtain n where n: "t = 2 * n + 1" "0 < n" "n \<le> length (filter valid es)" "nxt_lvlhsh_bucket_entries proto t = n"
    "bucket_used proto t es = take n (filter valid es)"
    using bucket_ok_tag [OF assms(1,2)] by blast
  with find_entry_Some [OF assms(3)] obtain a x b where
    a: "es = a @ x # b" "i = length a" "entry_hit proto lhq x" "length (filter valid a) < n" "\<forall>y\<in>set a. \<not> entry_hit proto lhq y"
    by auto
  have e: "bucket_used proto t es = filter valid a @ x # take (n - Suc (length (filter valid a))) (filter valid b)"
    using n(5) take_valid_at [OF entry_hit_valid [OF a(3)] a(4), of b] by (simp only: a(1))
  show ?thesis
    by (rule exI [of _ n], rule exI [of _ a], rule exI [of _ x], rule exI [of _ b]) (use n a e in simp)
qed

lemma bucket_not_found:
  assumes "proto_ok proto" and "bucket_ok proto t es"
    and "find_entry (entry_hit proto lhq) es (nxt_lvlhsh_bucket_entries proto t) 0 = None"
  shows "filter (entry_hit proto lhq) (bucket_used proto t es) = []"
  using bucket_ok_tag [OF assms(1,2)] find_entry_None [OF assms(3)]
  by (auto simp: list_all_iff filter_empty_conv)

lemma bucket_find_first:
  assumes "proto_ok proto"
  shows "chain_ok proto s \<Longrightarrow> nxt_lvlhsh_bucket_find proto lhq s = first_value (hits proto lhq s)"
proof (induction s)
  case (Bucket t es nx)
  show ?case
  proof (cases "find_entry (entry_hit proto lhq) es (nxt_lvlhsh_bucket_entries proto t) 0")
    case None
    with Bucket bucket_not_found [OF assms _ None] show ?thesis by simp
  next
    case (Some i)
    have "bucket_ok proto t es" using Bucket by simp
    from bucket_found [OF assms this Some] obtain a x b n where
      "es = a @ x # b" "i = length a" "entry_hit proto lhq x" "\<forall>y\<in>set a. \<not> entry_hit proto lhq y"
      "bucket_used proto t es = filter valid a @ x # take (n - Suc (length (filter valid a))) (filter valid b)"
      by blast
    then show ?thesis using Some by (simp add: first_value_def filter_no_hit)
  qed
qed (simp_all add: first_value_def)

text \<open>What a deletion does with the entries.\<close>

fun remove_first :: "('a \<Rightarrow> bool) \<Rightarrow> 'a list \<Rightarrow> 'a list" where
  "remove_first P [] = []"
| "remove_first P (x # xs) = (if P x then xs else x # remove_first P xs)"

lemma remove_first_none [simp]: "filter P xs = [] \<Longrightarrow> remove_first P xs = xs"
  by (induction xs) (auto split: if_splits)

lemma remove_first_append [simp]: "filter P a = [] \<Longrightarrow> remove_first P (a @ b) = a @ remove_first P b"
  by (induction a) (auto split: if_splits)

lemma remove_first_append2: "filter P b \<noteq> [] \<Longrightarrow> remove_first P (b @ c) = remove_first P b @ c"
  by (induction b) (auto split: if_splits)

lemma remove_first_middle:
  "filter P a = [] \<Longrightarrow> filter P c = [] \<Longrightarrow> remove_first P (a @ b @ c) = a @ remove_first P b @ c"
  by (cases "filter P b = []") (simp_all add: remove_first_append2)

lemma bucket_okI:
  assumes "proto_ok proto" and "length es = bucket_cap proto" and "0 < n" and "n \<le> length (filter valid es)"
  shows "bucket_ok proto (Suc (2 * n)) es" and "bucket_used proto (Suc (2 * n)) es = take n (filter valid es)"
proof -
  have "n \<le> bucket_cap proto" using assms(2,4) length_filter_le [of valid es] by simp
  then show "bucket_used proto (Suc (2 * n)) es = take n (filter valid es)"
    using bucket_entries_tag [OF assms(1)] by (simp add: bucket_used_def)
  show "bucket_ok proto (Suc (2 * n)) es" using assms by (simp add: bucket_ok_def)
qed

lemma not_valid_freed [simp]: "\<not> valid (e\<lparr>entry_value := None\<rparr>)"
  by (simp add: nxt_lvlhsh_valid_entry_def)

lemma lvl_free_simps [simp]:
  "m_live (lvl_free n mem) = m_live mem - int n" "m_avail (lvl_free n mem) = m_avail mem"
  "m_junk (lvl_free n mem) = m_junk mem"
  by (simp_all add: lvl_free_def)

lemma lvl_alloc_simps [simp]:
  "m_live (lvl_alloc mem) = m_live mem + 1" "m_avail (lvl_alloc mem) = m_avail mem - 1"
  "m_junk (lvl_alloc mem) = m_junk mem"
  by (simp_all add: lvl_alloc_def)

text \<open>The result of a deletion or of taking an element out: the blocks that are gone are freed.\<close>

definition smaller :: "'v slot \<Rightarrow> 'v lvl_mem \<Rightarrow> 'v slot \<Rightarrow> 'v lvl_mem \<Rightarrow> bool" where
  "smaller s mem s' mem' \<longleftrightarrow>
     blocks s' \<le> blocks s \<and> m_live mem' - int (blocks s') = m_live mem - int (blocks s) \<and>
     m_avail mem' = m_avail mem \<and> m_junk mem' = m_junk mem"

lemma bucket_drop:
  assumes "proto_ok proto" and "length es = bucket_cap proto" and "1 < n" and "n \<le> length (filter valid es)"
    and "es = a @ x # b" and "valid x" and "length (filter valid a) < n" and "\<not> valid y"
  shows "bucket_ok proto (nxt_lvlhsh_count_dec (2 * n + 1)) (es[length a := y])"
    and "bucket_used proto (nxt_lvlhsh_count_dec (2 * n + 1)) (es[length a := y]) =
      filter valid a @ take (n - Suc (length (filter valid a))) (filter valid b)"
proof -
  have t: "nxt_lvlhsh_count_dec (2 * n + 1) = Suc (2 * (n - 1))"
    using assms(3) by (simp add: nxt_lvlhsh_count_dec_def algebra_simps)
  have e: "es[length a := y] = a @ y # b" using assms(5) by simp
  have "n - 1 \<le> length (filter valid (a @ y # b))" using assms(4,5,6,8) by simp
  with bucket_okI [OF assms(1), of "a @ y # b" "n - 1"] assms(2,3,5)
  have "bucket_ok proto (Suc (2 * (n - 1))) (a @ y # b)"
    "bucket_used proto (Suc (2 * (n - 1))) (a @ y # b) = take (n - 1) (filter valid (a @ y # b))" by simp_all
  then show "bucket_ok proto (nxt_lvlhsh_count_dec (2 * n + 1)) (es[length a := y])"
    "bucket_used proto (nxt_lvlhsh_count_dec (2 * n + 1)) (es[length a := y]) =
      filter valid a @ take (n - Suc (length (filter valid a))) (filter valid b)"
    unfolding t e using assms(7,8) by simp_all
qed

lemma bucket_delete_first:
  assumes "proto_ok proto"
  shows "chain_ok proto s \<Longrightarrow> nxt_lvlhsh_bucket_delete proto lhq s mem = (v, s', mem') \<Longrightarrow>
    v = first_value (hits proto lhq s) \<and> chain_ok proto s' \<and>
    entries proto s' = remove_first (entry_hit proto lhq) (entries proto s) \<and> smaller s mem s' mem'"
proof (induction s arbitrary: v s' mem')
  case (Bucket t es nx)
  have ok: "bucket_ok proto t es" "chain_ok proto nx" using Bucket.prems by simp_all
  show ?case
  proof (cases "find_entry (entry_hit proto lhq) es (nxt_lvlhsh_bucket_entries proto t) 0")
    case None
    obtain nx' where r: "nxt_lvlhsh_bucket_delete proto lhq nx mem = (v, nx', mem')" "s' = Bucket t es nx'"
      using Bucket.prems(2) None by (auto split: prod.splits)
    show ?thesis
      using Bucket.IH [OF ok(2) r(1)] bucket_not_found [OF assms ok(1) None] ok r(2) by (auto simp: smaller_def)
  next
    case (Some i)
    from bucket_found [OF assms ok(1) Some] obtain n a x b where
      n: "t = 2 * n + 1" "0 < n" "nxt_lvlhsh_bucket_entries proto t = n" "n \<le> length (filter valid es)" and
      a: "es = a @ x # b" "i = length a" "length (filter valid a) < n"
        "entry_hit proto lhq x" "\<forall>y\<in>set a. \<not> entry_hit proto lhq y" and
      u: "bucket_used proto t es = filter valid a @ x # take (n - Suc (length (filter valid a))) (filter valid b)"
      by (elim exE conjE) (rule that)
    have f: "first_value (hits proto lhq (Bucket t es nx)) = entry_value x"
      using a(4,5) by (simp add: u filter_no_hit first_value_def)
    show ?thesis
    proof (cases "n = 1")
      case True
      then show ?thesis
        using Bucket.prems(2) Some n a ok f u by (auto simp: smaller_def)
    next
      case False
      have "length es = bucket_cap proto" using ok(1) by (simp add: bucket_ok_def)
      note d = bucket_drop [OF assms this _ n(4) a(1) entry_hit_valid [OF a(4)] a(3) not_valid_freed]
      have s': "s' = Bucket (nxt_lvlhsh_count_dec t) (es[i := (es ! i)\<lparr>entry_value := None\<rparr>]) nx" "mem' = mem"
        "v = entry_value (es ! i)"
        using Bucket.prems(2) Some n(3) False by simp_all
      show ?thesis
        using d False n(1,2) a ok(2) f s' u by (simp add: smaller_def filter_no_hit)
    qed
  qed
qed (simp_all add: first_value_def smaller_def)

section \<open>Levels\<close>

lemma blocks_eq_0 [simp]: "blocks s = 0 \<longleftrightarrow> s = Null"
  by (cases s) simp_all

lemma slot_ok_chain: "chain_ok proto s \<Longrightarrow> slot_ok proto n s \<longleftrightarrow> blocks s \<le> 1 \<or> level_shift proto n = 0"
  by (cases s) simp_all

lemma slot_ok_Level:
  "slot_ok proto n (Level t lvl) \<longleftrightarrow>
     level_shift proto n \<noteq> 0 \<and> length lvl = 2 ^ level_shift proto n \<and> t = 2 * used_slots lvl \<and> t \<noteq> 0 \<and>
     (\<forall>i<length lvl. slot_ok proto (n + 1) (lvl ! i) \<and>
        (\<forall>e\<in>set (entries proto (lvl ! i)). key_slot proto n (entry_key e) = i))"
  by (auto simp: list_all_length [of _ lvl] list_all_length [of _ "enumerate 0 lvl"] nth_enumerate_eq
      list_all_iff [of _ "entries proto s" for s])

declare slot_ok.simps(3) [simp del]

text \<open>The entries of a level before and after those of a slot.\<close>

definition before_slot :: "('k, 'v) lvlhsh_proto \<Rightarrow> 'v slot list \<Rightarrow> nat \<Rightarrow> 'v entry list" where
  "before_slot proto lvl i = concat (map (entries proto) (take i lvl))"

definition after_slot :: "('k, 'v) lvlhsh_proto \<Rightarrow> 'v slot list \<Rightarrow> nat \<Rightarrow> 'v entry list" where
  "after_slot proto lvl i = concat (map (entries proto) (drop (Suc i) lvl))"

lemma level_entries_split:
  "i < length lvl \<Longrightarrow> entries proto (Level t lvl) = before_slot proto lvl i @ entries proto (lvl ! i) @ after_slot proto lvl i"
  by (simp add: before_slot_def after_slot_def) (metis append.assoc concat.simps(2) concat_append id_take_nth_drop list.simps(9) map_append)

lemma level_entries_update:
  "i < length lvl \<Longrightarrow>
     entries proto (Level t (lvl[i := s])) = before_slot proto lvl i @ entries proto s @ after_slot proto lvl i"
  by (simp add: before_slot_def after_slot_def upd_conv_take_nth_drop)

lemma used_slots_update:
  "i < length lvl \<Longrightarrow>
     used_slots (lvl[i := s]) + (if lvl ! i = Null then 0 else 1) = used_slots lvl + (if s = Null then 0 else 1)"
proof -
  assume i: "i < length lvl"
  have "used_slots lvl = used_slots (take i lvl @ lvl ! i # drop (Suc i) lvl)"
    using i by (simp add: id_take_nth_drop [symmetric])
  then show ?thesis using i by (simp add: used_slots_def upd_conv_take_nth_drop)
qed

lemma blocks_update:
  "i < length lvl \<Longrightarrow> blocks (Level t' (lvl[i := s])) + blocks (lvl ! i) = blocks (Level t lvl) + blocks s"
proof -
  assume i: "i < length lvl"
  have "blocks (Level t lvl) = blocks (Level t (take i lvl @ lvl ! i # drop (Suc i) lvl))"
    using i by (simp add: id_take_nth_drop [symmetric])
  then show ?thesis using i by (simp add: upd_conv_take_nth_drop)
qed

lemma slot_ok_update:
  assumes "slot_ok proto n (Level t lvl)" and "i < length lvl" and "slot_ok proto (n + 1) s"
    and "\<forall>e\<in>set (entries proto s). key_slot proto n (entry_key e) = i"
    and "t' = 2 * used_slots (lvl[i := s])" and "t' \<noteq> 0"
  shows "slot_ok proto n (Level t' (lvl[i := s]))"
  using assms by (auto simp: slot_ok_Level nth_list_update split: if_splits)

text \<open>The hits of a query are in the slot of its hash.\<close>

lemma key_slot_level:
  assumes "proto_ok proto" and "slot_ok proto n (Level t lvl)"
  shows "key_slot proto n key < length lvl"
  using assms key_slot_less [OF assms(1), of n key] by (simp add: slot_ok_Level)

lemma level_hits:
  assumes "proto_ok proto" and "slot_ok proto n (Level t lvl)" and i_def: "i = key_slot proto n (key_hash lhq)"
  shows "filter (entry_hit proto lhq) (before_slot proto lvl i) = []"
    and "filter (entry_hit proto lhq) (after_slot proto lvl i) = []"
    and "hits proto lhq (Level t lvl) = hits proto lhq (lvl ! i)"
proof -
  have i: "i < length lvl" using key_slot_level [OF assms(1,2)] by (simp add: i_def)
  have k: "j = i" if "j < length lvl" "e \<in> set (entries proto (lvl ! j))" "entry_hit proto lhq e" for j e
    using assms(2) that unfolding slot_ok_Level entry_hit_def i_def by metis
  have before: "\<exists>j<i. e \<in> set (entries proto (lvl ! j))" if "e \<in> set (before_slot proto lvl i)" for e
    using that by (auto simp: before_slot_def set_conv_nth [of "take i lvl"])
  have after: "\<exists>j>i. j < length lvl \<and> e \<in> set (entries proto (lvl ! j))" if "e \<in> set (after_slot proto lvl i)" for e
  proof -
    from that obtain m where "m < length lvl - Suc i" "e \<in> set (entries proto (lvl ! (Suc i + m)))"
      by (auto simp: after_slot_def set_conv_nth [of "drop (Suc i) lvl"])
    then show ?thesis by (intro exI [of _ "Suc i + m"]) simp
  qed
  show a: "filter (entry_hit proto lhq) (before_slot proto lvl i) = []"
    unfolding filter_empty_conv using before k i by (metis less_irrefl less_trans)
  show b: "filter (entry_hit proto lhq) (after_slot proto lvl i) = []"
    unfolding filter_empty_conv using after k by (metis less_irrefl)
  show "hits proto lhq (Level t lvl) = hits proto lhq (lvl ! i)"
    using a b by (simp only: level_entries_split [OF i] filter_append) simp
qed

lemma level_find_step:
  "key_slot proto n key < length lvl \<Longrightarrow>
    nxt_lvlhsh_level_find proto lhq lvl (drop_bit (shift_sum proto n) key) n =
      (case lvl ! key_slot proto n key of
         Null \<Rightarrow> None
       | Bucket t es nx \<Rightarrow> nxt_lvlhsh_bucket_find proto lhq (lvl ! key_slot proto n key)
       | Level t lvl' \<Rightarrow> nxt_lvlhsh_level_find proto lhq lvl' (drop_bit (shift_sum proto (Suc n)) key) (Suc n))"
  unfolding nxt_lvlhsh_level_find.simps [of proto lhq lvl] key_slot_def [symmetric] rest_key Let_def Suc_eq_plus1 by simp

declare nxt_lvlhsh_level_find.simps [simp del]

lemma level_find_first:
  assumes "proto_ok proto"
  shows "slot_ok proto n (Level t lvl) \<Longrightarrow>
    nxt_lvlhsh_level_find proto lhq lvl (drop_bit (shift_sum proto n) (key_hash lhq)) n =
      first_value (hits proto lhq (Level t lvl))"
proof (induction "Level t lvl" arbitrary: t lvl n rule: measure_induct_rule [where f = size])
  case less
  let ?i = "key_slot proto n (key_hash lhq)"
  have i: "?i < length lvl" by (rule key_slot_level [OF assms less.prems])
  have ok: "slot_ok proto (n + 1) (lvl ! ?i)" using less.prems i by (simp add: slot_ok_Level)
  have h: "hits proto lhq (Level t lvl) = hits proto lhq (lvl ! ?i)" by (rule level_hits [OF assms less.prems refl])
  show ?case
  proof (cases "lvl ! ?i")
    case Null
    then show ?thesis using i h by (simp add: level_find_step first_value_def)
  next
    case (Bucket t' es nx)
    have "chain_ok proto (lvl ! ?i)" using ok Bucket by simp
    from bucket_find_first [OF assms this] h i Bucket show ?thesis by (simp add: level_find_step)
  next
    case (Level t' lvl')
    have s: "size (Level t' lvl') < size (Level t lvl)" using size_nth [OF i Level] by simp
    have "slot_ok proto (Suc n) (Level t' lvl')" using ok Level by simp
    from less.hyps [OF s this] h i Level show ?thesis by (simp add: level_find_step)
  qed
qed

lemma find_first:
  assumes "proto_ok proto" and "slot_ok proto 0 s"
  shows "nxt_lvlhsh_find proto lhq s = first_value (hits proto lhq s)"
proof (cases s)
  case Null
  then show ?thesis by (simp add: nxt_lvlhsh_find_def first_value_def)
next
  case (Bucket t es nx)
  with assms(2) have "chain_ok proto s" by simp
  from bucket_find_first [OF assms(1) this] Bucket show ?thesis by (simp add: nxt_lvlhsh_find_def)
next
  case (Level t lvl)
  with level_find_first [OF assms(1), of 0 t lvl lhq] assms(2) show ?thesis by (simp add: nxt_lvlhsh_find_def)
qed

text \<open>A slot of a level has become smaller.\<close>

lemma level_entries_tag: "c < 2 ^ s \<Longrightarrow> nxt_lvlhsh_level_entries (2 * c) (2 ^ s - 1) = 2 * c"
proof -
  assume c: "c < (2 :: nat) ^ s"
  have "push_bit 1 c AND push_bit 1 (2 ^ s - 1) = push_bit 1 (c AND (2 ^ s - 1))" by simp
  also have "c AND (2 ^ s - 1) = c mod 2 ^ s"
    by (simp only: mask_eq_exp_minus_1 [symmetric] take_bit_eq_mask [symmetric] take_bit_eq_mod)
  finally show ?thesis using c by (simp add: nxt_lvlhsh_level_entries_def push_bit_eq_mult mult.commute)
qed

lemma used_slots_le: "used_slots lvl \<le> length lvl"
  by (simp add: used_slots_def)

lemma used_slots_none:
  assumes "used_slots lvl = 0"
  shows "entries proto (Level t lvl) = []" and "blocks (Level t lvl) = 1"
proof -
  have n: "s = Null" if "s \<in> set lvl" for s
    using assms that by (auto simp: used_slots_def filter_empty_conv)
  show "entries proto (Level t lvl) = []" "blocks (Level t lvl) = 1" by (auto dest: n)
qed

lemma level_slot_update_ok:
  assumes "proto_ok proto" and "slot_ok proto n (Level t lvl)" and "i < length lvl" and "lvl ! i \<noteq> Null"
    and "slot_ok proto (n + 1) s" and "\<forall>e\<in>set (entries proto s). key_slot proto n (entry_key e) = i"
    and "smaller (lvl ! i) mem s mem'"
    and "level_slot_update (2 ^ level_shift proto n - 1) t lvl i s mem' = (p, mem'')"
  shows "slot_ok proto n p \<and> entries proto p = before_slot proto lvl i @ entries proto s @ after_slot proto lvl i \<and>
    smaller (Level t lvl) mem p mem''"
proof (cases "s = Null")
  case False
  then have r: "p = Level t (lvl[i := s])" "mem'' = mem'" using assms(8) by (simp_all add: level_slot_update_def)
  have u: "used_slots (lvl[i := s]) = used_slots lvl" using used_slots_update [OF assms(3), of s] False assms(4) by simp
  have "slot_ok proto n p"
    unfolding r using assms(2) u by (intro slot_ok_update [OF assms(2,3,5,6)]) (simp_all add: slot_ok_Level)
  moreover have "smaller (Level t lvl) mem p mem''"
    unfolding r using assms(7) blocks_update [OF assms(3), of t s t] by (auto simp: smaller_def simp del: blocks.simps)
  ultimately show ?thesis using r level_entries_update [OF assms(3)] by simp
next
  case True
  let ?l = "lvl[i := Null]"
  have u: "used_slots ?l = used_slots lvl - 1" using used_slots_update [OF assms(3), of Null] assms(4) by simp
  have t: "t = 2 * used_slots lvl" "used_slots lvl \<noteq> 0" "length lvl = 2 ^ level_shift proto n"
    using assms(2) by (auto simp: slot_ok_Level)
  have c: "nxt_lvlhsh_count_dec t = 2 * used_slots ?l" using t u by (simp add: nxt_lvlhsh_count_dec_def)
  have "used_slots ?l < 2 ^ level_shift proto n" using u t used_slots_le [of lvl] by linarith
  note e = level_entries_tag [OF this]
  have b: "blocks (Level (2 * used_slots ?l) ?l) + blocks (lvl ! i) = blocks (Level t lvl)"
    using blocks_update [OF assms(3), of "2 * used_slots ?l" Null t] by simp
  show ?thesis
  proof (cases "used_slots ?l = 0")
    case z: True
    have r: "p = Null" "mem'' = lvl_free 1 mem'" using assms(8) True c e z by (simp_all add: level_slot_update_def)
    have b': "1 + blocks (lvl ! i) = blocks (Level t lvl)" using b used_slots_none(2) [OF z] by metis
    have "before_slot proto lvl i @ after_slot proto lvl i = []"
      using used_slots_none(1) [OF z, of proto t] level_entries_update [OF assms(3), of proto t Null]
      by (metis append_Nil entries.simps(1))
    moreover have "smaller (Level t lvl) mem p mem''"
      unfolding r smaller_def b' [symmetric] using assms(7) True by (simp add: smaller_def)
    ultimately show ?thesis using r True by simp
  next
    case z: False
    have r: "p = Level (2 * used_slots ?l) ?l" "mem'' = mem'"
      using assms(8) True c e z by (simp_all add: level_slot_update_def)
    have "slot_ok proto n p"
      unfolding r using z by (intro slot_ok_update [OF assms(2,3)]) simp_all
    moreover have "smaller (Level t lvl) mem p mem''"
      unfolding r using assms(7) b True by (auto simp: smaller_def simp del: blocks.simps(3))
    ultimately show ?thesis using r True by (simp add: level_entries_update [OF assms(3)] del: entries.simps(3))
  qed
qed

lemma level_delete_step:
  "key_slot proto n key < length lvl \<Longrightarrow>
    nxt_lvlhsh_level_delete proto lhq t lvl (drop_bit (shift_sum proto n) key) n mem =
      (case lvl ! key_slot proto n key of
         Null \<Rightarrow> (None, Level t lvl, mem)
       | Bucket _ _ _ \<Rightarrow>
           (case nxt_lvlhsh_bucket_delete proto lhq (lvl ! key_slot proto n key) mem of
              (v, s, mem) \<Rightarrow> (v, level_slot_update (2 ^ level_shift proto n - 1) t lvl (key_slot proto n key) s mem))
       | Level t' lvl' \<Rightarrow>
           (case nxt_lvlhsh_level_delete proto lhq t' lvl' (drop_bit (shift_sum proto (Suc n)) key) (Suc n) mem of
              (v, s, mem) \<Rightarrow> (v, level_slot_update (2 ^ level_shift proto n - 1) t lvl (key_slot proto n key) s mem)))"
  unfolding nxt_lvlhsh_level_delete.simps [of proto lhq t lvl] key_slot_def [symmetric] rest_key Let_def Suc_eq_plus1 by simp

declare nxt_lvlhsh_level_delete.simps [simp del]

lemma remove_first_subset: "set (remove_first P xs) \<subseteq> set xs"
  by (induction xs) auto

lemma smaller_refl [simp]: "smaller s mem s mem"
  by (simp add: smaller_def)

text \<open>What a deletion from a slot above level \<open>n\<close> does.\<close>

definition delete_spec ::
  "('k, 'v) lvlhsh_proto \<Rightarrow> ('k, 'v) lvlhsh_query \<Rightarrow> nat \<Rightarrow> 'v slot \<Rightarrow> 'v lvl_mem \<Rightarrow> 'v option \<times> 'v slot \<times> 'v lvl_mem \<Rightarrow> bool" where
  "delete_spec proto lhq n s mem r \<longleftrightarrow>
     (case r of (v, s', mem') \<Rightarrow>
        slot_ok proto n s' \<and> v = first_value (hits proto lhq s) \<and>
        entries proto s' = remove_first (entry_hit proto lhq) (entries proto s) \<and> smaller s mem s' mem')"

lemma bucket_delete_spec:
  assumes "proto_ok proto" and "slot_ok proto n s" and "chain_ok proto s"
  shows "delete_spec proto lhq n s mem (nxt_lvlhsh_bucket_delete proto lhq s mem)"
proof -
  obtain v s' mem' where r: "nxt_lvlhsh_bucket_delete proto lhq s mem = (v, s', mem')" by (metis prod_cases3)
  from bucket_delete_first [OF assms(1,3) r] assms show ?thesis
    unfolding r delete_spec_def by (auto simp: slot_ok_chain smaller_def)
qed

lemma level_delete_lift:
  assumes "proto_ok proto" and "slot_ok proto n (Level t lvl)" and "i = key_slot proto n (key_hash lhq)"
    and "lvl ! i \<noteq> Null" and "delete_spec proto lhq (n + 1) (lvl ! i) mem (v, s, mem')"
  shows "delete_spec proto lhq n (Level t lvl) mem (v, level_slot_update (2 ^ level_shift proto n - 1) t lvl i s mem')"
proof -
  have i: "i < length lvl" using key_slot_level [OF assms(1,2)] assms(3) by simp
  obtain p mem'' where u: "level_slot_update (2 ^ level_shift proto n - 1) t lvl i s mem' = (p, mem'')" by fastforce
  note d = assms(5) [unfolded delete_spec_def split_conv]
  have "\<forall>e\<in>set (entries proto s). key_slot proto n (entry_key e) = i"
    using d remove_first_subset assms(2) i unfolding slot_ok_Level by (metis subsetD)
  from level_slot_update_ok [OF assms(1,2) i assms(4) _ this _ u] d
  have "slot_ok proto n p" "entries proto p = before_slot proto lvl i @ entries proto s @ after_slot proto lvl i"
    "smaller (Level t lvl) mem p mem''" by blast+
  moreover have "remove_first (entry_hit proto lhq) (entries proto (Level t lvl)) =
      before_slot proto lvl i @ entries proto s @ after_slot proto lvl i"
    unfolding level_entries_split [OF i] remove_first_middle [OF level_hits(1,2) [OF assms(1-3)]] using d by simp
  ultimately show ?thesis
    unfolding delete_spec_def u split_conv level_hits(3) [OF assms(1-3)] using d by simp
qed

lemma level_delete_spec:
  assumes "proto_ok proto"
  shows "slot_ok proto n (Level t lvl) \<Longrightarrow>
    delete_spec proto lhq n (Level t lvl) mem
      (nxt_lvlhsh_level_delete proto lhq t lvl (drop_bit (shift_sum proto n) (key_hash lhq)) n mem)"
proof (induction "Level t lvl" arbitrary: t lvl n rule: measure_induct_rule [where f = size])
  case less
  let ?i = "key_slot proto n (key_hash lhq)"
  have i: "?i < length lvl" by (rule key_slot_level [OF assms less.prems])
  have ok: "slot_ok proto (n + 1) (lvl ! ?i)" using less.prems i by (simp add: slot_ok_Level)
  note lift = level_delete_lift [OF assms less.prems refl]
  show ?case
  proof (cases "lvl ! ?i")
    case Null
    then show ?thesis
      using less.prems i level_hits(3) [OF assms less.prems refl, of lhq]
      by (simp add: level_delete_step delete_spec_def first_value_def del: entries.simps(3))
  next
    case (Bucket t' es nx)
    have "chain_ok proto (lvl ! ?i)" using ok Bucket by simp
    obtain v s mem' where r: "nxt_lvlhsh_bucket_delete proto lhq (lvl ! ?i) mem = (v, s, mem')" by (metis prod_cases3)
    from lift [OF _ bucket_delete_spec [OF assms ok \<open>chain_ok proto (lvl ! ?i)\<close>, of lhq mem, unfolded r]] i Bucket r
    show ?thesis by (simp add: level_delete_step)
  next
    case (Level t' lvl')
    have s: "size (Level t' lvl') < size (Level t lvl)" using size_nth [OF i Level] by simp
    have "slot_ok proto (Suc n) (Level t' lvl')" using ok Level by simp
    note IH = less.hyps [OF s this]
    obtain v s mem' where r: "nxt_lvlhsh_level_delete proto lhq t' lvl'
        (drop_bit (shift_sum proto (Suc n)) (key_hash lhq)) (Suc n) mem = (v, s, mem')" by (metis prod_cases3)
    from lift [of lhq mem v s mem'] IH r i Level show ?thesis by (simp add: level_delete_step)
  qed
qed

lemma delete_ok:
  assumes "proto_ok proto" and "slot_ok proto 0 s"
  shows "delete_spec proto lhq 0 s mem (nxt_lvlhsh_delete proto lhq s mem)"
proof (cases s)
  case Null
  then show ?thesis by (simp add: nxt_lvlhsh_delete_def delete_spec_def first_value_def)
next
  case (Bucket t es nx)
  with assms(2) have "chain_ok proto s" by simp
  from bucket_delete_spec [OF assms this] Bucket show ?thesis by (simp add: nxt_lvlhsh_delete_def)
next
  case (Level t lvl)
  with level_delete_spec [OF assms(1), of 0 t lvl lhq mem] assms(2) show ?thesis by (simp add: nxt_lvlhsh_delete_def)
qed

section \<open>Taking elements out\<close>

lemma entries_valid: "e \<in> set (entries proto s) \<Longrightarrow> valid e"
  by (induction s arbitrary: e) (auto simp: bucket_used_def dest: in_set_takeD)

lemma first_value_Cons [simp]: "first_value (e # es) = entry_value e"
  by (simp add: first_value_def)

lemma first_value_append: "a \<noteq> [] \<Longrightarrow> first_value (a @ b) = first_value a"
  by (cases a) simp_all

lemma bucket_used_not_empty: "proto_ok proto \<Longrightarrow> bucket_ok proto t es \<Longrightarrow> bucket_used proto t es \<noteq> []"
  using bucket_ok_tag [of proto t es] by auto

definition peek_spec ::
  "('k, 'v) lvlhsh_proto \<Rightarrow> bool \<Rightarrow> nat \<Rightarrow> 'v slot \<Rightarrow> 'v lvl_mem \<Rightarrow> 'v option \<times> 'v slot \<times> 'v lvl_mem \<Rightarrow> bool" where
  "peek_spec proto retrieve n s mem r \<longleftrightarrow>
     (case r of (v, s', mem') \<Rightarrow>
        entries proto s \<noteq> [] \<and> v = first_value (entries proto s) \<and> slot_ok proto n s' \<and>
        (if retrieve then entries proto s' = tl (entries proto s) else s' = s \<and> mem' = mem) \<and> smaller s mem s' mem')"

lemma first_valid:
  assumes "filter valid d \<noteq> []"
  obtains x b where "d = takeWhile (\<lambda>e. \<not> valid e) d @ x # b" and "valid x" and "filter valid d = x # filter valid b"
proof -
  have "dropWhile (\<lambda>e. \<not> valid e) d \<noteq> []" using assms by (auto simp: filter_empty_conv)
  then obtain x b where d: "dropWhile (\<lambda>e. \<not> valid e) d = x # b" by (meson list.exhaust)
  have x: "valid x" using d hd_dropWhile [of "\<lambda>e. \<not> valid e" d] by simp
  have e: "d = takeWhile (\<lambda>e. \<not> valid e) d @ x # b" using d takeWhile_dropWhile_id [of "\<lambda>e. \<not> valid e" d] by metis
  have "filter valid (takeWhile (\<lambda>e. \<not> valid e) d) = []" by (auto simp: filter_empty_conv dest: set_takeWhileD)
  then have "filter valid d = x # filter valid b" using x by (subst e) simp
  with e x show ?thesis by (rule that)
qed

lemma bucket_peek_spec:
  assumes "proto_ok proto" and "slot_ok proto n (Bucket t es nx)"
  shows "peek_spec proto retrieve n (Bucket t es nx) mem (nxt_lvlhsh_bucket_peek proto retrieve t es nx mem)"
proof -
  have ok: "bucket_ok proto t es" "chain_ok proto nx" using assms(2) by simp_all
  obtain k where k: "t = 2 * k + 1" "0 < k" "k \<le> length (filter valid es)" "length es = bucket_cap proto"
    "nxt_lvlhsh_bucket_entries proto t = k" "bucket_used proto t es = take k (filter valid es)"
    using bucket_ok_tag [OF assms(1) ok(1)] by blast
  let ?a = "takeWhile (\<lambda>e. \<not> valid e) es"
  have "filter valid es \<noteq> []" using k by auto
  then obtain x b where es: "es = ?a @ x # b" and x: "valid x" by (rule first_valid)
  have fa: "filter valid ?a = []" by (metis filter_False set_takeWhileD)
  have nth: "es ! length ?a = x" using es by (metis nth_append_length)
  have u: "bucket_used proto t es = x # take (k - 1) (filter valid b)"
    using take_valid_at [OF x, of ?a k b] fa k(2,6) es by simp
  show ?thesis
  proof (cases "retrieve \<and> k \<noteq> 1")
    case True
    note d = bucket_drop [OF assms(1) k(4) _ k(3) es x _ not_valid_freed [of x]]
    have "bucket_ok proto (nxt_lvlhsh_count_dec t) (es[length ?a := x\<lparr>entry_value := None\<rparr>])"
      "bucket_used proto (nxt_lvlhsh_count_dec t) (es[length ?a := x\<lparr>entry_value := None\<rparr>]) = take (k - 1) (filter valid b)"
      using d True k(1,2) fa by simp_all
    then show ?thesis
      using True k(2,5) ok u assms(2) by (simp add: nxt_lvlhsh_bucket_peek_def nth peek_spec_def Let_def smaller_def)
  next
    case False
    then show ?thesis
      using k(5) ok u assms(2) by (auto simp: nxt_lvlhsh_bucket_peek_def nth peek_spec_def Let_def smaller_def slot_ok_chain)
  qed
qed

text \<open>The first slot of a level that is used.\<close>

abbreviation first_slot :: "'v slot list \<Rightarrow> nat" where
  "first_slot lvl \<equiv> length (takeWhile (\<lambda>s. s = Null) lvl)"

lemma first_slot_used:
  assumes "slot_ok proto n (Level t lvl)"
  shows "first_slot lvl < length lvl" and "lvl ! first_slot lvl \<noteq> Null" and "before_slot proto lvl (first_slot lvl) = []"
proof -
  have "filter (\<lambda>s. s \<noteq> Null) lvl \<noteq> []" using assms by (auto simp: slot_ok_Level used_slots_def)
  then have "dropWhile (\<lambda>s. s = Null) lvl \<noteq> []" by (metis dropWhile_eq_Nil_conv filter_False)
  then show l: "first_slot lvl < length lvl"
    by (metis dropWhile_eq_Nil_conv length_takeWhile_le nat_neq_iff not_le takeWhile_eq_all_conv takeWhile_eq_take take_all)
  then show "lvl ! first_slot lvl \<noteq> Null" by (rule nth_length_takeWhile)
  have "entries proto s = []" if "s \<in> set (takeWhile (\<lambda>s. s = Null) lvl)" for s
    using that by (auto dest: set_takeWhileD)
  then show "before_slot proto lvl (first_slot lvl) = []"
    by (simp add: before_slot_def takeWhile_eq_take [symmetric])
qed

lemma level_peek_lift:
  assumes "proto_ok proto" and "slot_ok proto n (Level t lvl)" and "i = first_slot lvl"
    and "peek_spec proto retrieve (n + 1) (lvl ! i) mem (v, s, mem')"
  shows "peek_spec proto retrieve n (Level t lvl) mem (v, level_slot_update (2 ^ level_shift proto n - 1) t lvl i s mem')"
proof -
  note f = first_slot_used [OF assms(2), folded assms(3)]
  obtain p mem'' where u: "level_slot_update (2 ^ level_shift proto n - 1) t lvl i s mem' = (p, mem'')" by fastforce
  note d = assms(4) [unfolded peek_spec_def split_conv]
  have "set (entries proto s) \<subseteq> set (entries proto (lvl ! i))"
    using d by (cases retrieve) (auto dest: list.set_sel(2))
  then have "\<forall>e\<in>set (entries proto s). key_slot proto n (entry_key e) = i"
    using assms(2) f(1) unfolding slot_ok_Level by blast
  from level_slot_update_ok [OF assms(1,2) f(1,2) _ this _ u] d
  have p: "slot_ok proto n p" "entries proto p = entries proto s @ after_slot proto lvl i" "smaller (Level t lvl) mem p mem''"
    by (auto simp: f(3))
  have e: "entries proto (Level t lvl) = entries proto (lvl ! i) @ after_slot proto lvl i"
    unfolding level_entries_split [OF f(1)] f(3) by simp
  have "\<not> retrieve \<longrightarrow> p = Level t lvl \<and> mem'' = mem"
    using d u f(2) by (auto simp: level_slot_update_def)
  then show ?thesis
    unfolding peek_spec_def u split_conv e using d p by (auto simp: first_value_append)
qed

lemma level_peek_spec:
  assumes "proto_ok proto"
  shows "slot_ok proto n (Level t lvl) \<Longrightarrow>
    peek_spec proto retrieve n (Level t lvl) mem (nxt_lvlhsh_level_peek proto retrieve t lvl n mem)"
proof (induction "Level t lvl" arbitrary: t lvl n rule: measure_induct_rule [where f = size])
  case less
  note f = first_slot_used [OF less.prems] and lift = level_peek_lift [OF assms less.prems refl]
  have ok: "slot_ok proto (n + 1) (lvl ! first_slot lvl)" using less.prems f(1) by (simp add: slot_ok_Level)
  show ?case
  proof (cases "lvl ! first_slot lvl")
    case (Bucket t' es nx)
    obtain v s mem' where r: "nxt_lvlhsh_bucket_peek proto retrieve t' es nx mem = (v, s, mem')" by (metis prod_cases3)
    from lift [of retrieve mem v s mem'] bucket_peek_spec [OF assms, of "n + 1" t' es nx retrieve mem] ok Bucket r f(1)
    show ?thesis by (simp add: Let_def)
  next
    case (Level t' lvl')
    have s: "size (Level t' lvl') < size (Level t lvl)" using size_nth [OF f(1) Level] by simp
    obtain v s mem' where r: "nxt_lvlhsh_level_peek proto retrieve t' lvl' (n + 1) mem = (v, s, mem')" by (metis prod_cases3)
    from lift [of retrieve mem v s mem'] less.hyps [OF s, of "n + 1"] ok Level r f(1)
    show ?thesis by (subst nxt_lvlhsh_level_peek.simps) (simp add: Let_def del: nxt_lvlhsh_level_peek.simps)
  qed (use f in simp)
qed

lemma peek_ok:
  assumes "proto_ok proto" and "slot_ok proto 0 s" and "s \<noteq> Null"
  shows "peek_spec proto retrieve 0 s mem (lvlhsh_peek proto retrieve s mem)"
  using assms bucket_peek_spec [OF assms(1), of 0 _ _ _ retrieve mem] level_peek_spec [OF assms(1), of 0 _ _ retrieve mem]
  by (cases s) (simp_all add: lvlhsh_peek_def)

lemma not_null_entries: "proto_ok proto \<Longrightarrow> slot_ok proto 0 s \<Longrightarrow> s \<noteq> Null \<Longrightarrow> entries proto s \<noteq> []"
  using peek_ok [of proto s False undefined] by (auto simp: peek_spec_def split: prod.splits)

end
