(* ===== verification/Nxt_Lvlhsh_Insert.thy ===== *)
theory Nxt_Lvlhsh_Insert
  imports Nxt_Lvlhsh_Store
begin

text \<open>
  Insertion into the level hash: the search for a duplicate and for a vacant entry in a chain of
  buckets, the conversion of a full bucket to a level, and the descent through the levels.
\<close>

section \<open>The search in a chain of buckets\<close>

lemma insert_bucket_duplicate:
  assumes "proto_ok proto"
  shows "chain_ok proto s \<Longrightarrow> insert_bucket_loop proto lhq s d0 vac = Duplicate d i \<Longrightarrow>
    \<exists>a x b. d0 \<le> d \<and> chain_entry s (d - d0) i = x \<and> entry_hit proto lhq x \<and> filter (entry_hit proto lhq) a = [] \<and>
      entries proto s = a @ x # b \<and>
      (\<forall>y. valid y \<longrightarrow> chain_ok proto (chain_update s (d - d0) (\<lambda>t. t) i y) \<and>
         blocks (chain_update s (d - d0) (\<lambda>t. t) i y) = blocks s \<and>
         entries proto (chain_update s (d - d0) (\<lambda>t. t) i y) = a @ y # b)"
proof (induction s arbitrary: d0 vac)
  case (Bucket t es nx)
  have ok: "bucket_ok proto t es" "chain_ok proto nx" using Bucket.prems by simp_all
  show ?case
  proof (cases "find_entry (entry_hit proto lhq) es (nxt_lvlhsh_bucket_entries proto t) 0")
    case (Some j)
    then have d: "d = d0" "i = j" using Bucket.prems(2) by (simp_all add: insert_entry_Inl [THEN iffD2])
    from bucket_found [OF assms ok(1) Some] obtain n a x b where
      n: "t = 2 * n + 1" "0 < n" "n \<le> length (filter valid es)" and
      a: "es = a @ x # b" "j = length a" "length (filter valid a) < n"
        "entry_hit proto lhq x" "\<forall>y\<in>set a. \<not> entry_hit proto lhq y" and
      u: "bucket_used proto t es = filter valid a @ x # take (n - Suc (length (filter valid a))) (filter valid b)"
      by (elim exE conjE) (rule that)
    have y: "bucket_ok proto t (a @ y # b) \<and>
        bucket_used proto t (a @ y # b) = filter valid a @ y # take (n - Suc (length (filter valid a))) (filter valid b)"
      if "valid y" for y
    proof -
      have "length (a @ y # b) = bucket_cap proto" "n \<le> length (filter valid (a @ y # b))"
        using ok(1) n(3) a(1) entry_hit_valid [OF a(4)] that by (auto simp: bucket_ok_def)
      from bucket_okI [OF assms this(1) n(2) this(2)] take_valid_at [OF that a(3)] n(1) show ?thesis by simp
    qed
    let ?b = "take (n - Suc (length (filter valid a))) (filter valid b) @ entries proto nx"
    show ?thesis
      by (rule exI [of _ "filter valid a"], rule exI [of _ x], rule exI [of _ ?b])
        (use d a u y ok(2) in \<open>simp add: filter_no_hit\<close>)
  next
    case None
    then obtain e h where "insert_entry_loop (entry_hit proto lhq) es (nxt_lvlhsh_bucket_entries proto t) 0 None = Inr (e, h)"
      using insert_entry_Inl [of "entry_hit proto lhq" es "nxt_lvlhsh_bucket_entries proto t" 0 None]
      by (cases "insert_entry_loop (entry_hit proto lhq) es (nxt_lvlhsh_bucket_entries proto t) 0 None") auto
    then obtain vac' where "insert_bucket_loop proto lhq nx (d0 + 1) vac' = Duplicate d i"
      using Bucket.prems(2) by (auto simp: Let_def)
    from Bucket.IH [OF ok(2) this] obtain a x b where
      IH: "d0 + 1 \<le> d" "chain_entry nx (d - (d0 + 1)) i = x" "entry_hit proto lhq x" "filter (entry_hit proto lhq) a = []"
        "entries proto nx = a @ x # b"
        "\<forall>y. valid y \<longrightarrow> chain_ok proto (chain_update nx (d - (d0 + 1)) (\<lambda>t. t) i y) \<and>
         blocks (chain_update nx (d - (d0 + 1)) (\<lambda>t. t) i y) = blocks nx \<and>
         entries proto (chain_update nx (d - (d0 + 1)) (\<lambda>t. t) i y) = a @ y # b"
      by (elim exE conjE) (rule that)
    show ?thesis
      by (rule exI [of _ "bucket_used proto t es @ a"], rule exI [of _ x], rule exI [of _ b])
        (use IH ok bucket_not_found [OF assms ok(1) None] in simp)
  qed
qed (auto split: option.splits)

lemma insert_bucket_step:
  assumes "\<And>j. find_entry (entry_hit proto lhq) es (nxt_lvlhsh_bucket_entries proto t) 0 \<noteq> Some j"
  obtains e h where "insert_entry_loop (entry_hit proto lhq) es (nxt_lvlhsh_bucket_entries proto t) 0 None = Inr (e, h)"
    and "insert_bucket_loop proto lhq (Bucket t es nx) d vac =
      insert_bucket_loop proto lhq nx (d + 1)
        (case vac of Some _ \<Rightarrow> vac
         | None \<Rightarrow> (case h of Some i \<Rightarrow> Some (d, i) | None \<Rightarrow> if e < bucket_cap proto then Some (d, e) else None))"
  using assms insert_entry_Inl [of "entry_hit proto lhq" es "nxt_lvlhsh_bucket_entries proto t" 0 None]
  by (cases "insert_entry_loop (entry_hit proto lhq) es (nxt_lvlhsh_bucket_entries proto t) 0 None") auto

lemma insert_bucket_no_duplicate:
  assumes "proto_ok proto"
  shows "chain_ok proto s \<Longrightarrow> (\<And>d i. insert_bucket_loop proto lhq s d0 vac \<noteq> Duplicate d i) \<Longrightarrow> hits proto lhq s = []"
proof (induction s arbitrary: d0 vac)
  case (Bucket t es nx)
  have ok: "bucket_ok proto t es" "chain_ok proto nx" using Bucket.prems by simp_all
  have nf: "find_entry (entry_hit proto lhq) es (nxt_lvlhsh_bucket_entries proto t) 0 \<noteq> Some j" for j
    using Bucket.prems(2) [of d0 j] by (auto simp: insert_entry_Inl [THEN iffD2])
  then have "find_entry (entry_hit proto lhq) es (nxt_lvlhsh_bucket_entries proto t) 0 = None" by (meson option.exhaust)
  then have "filter (entry_hit proto lhq) (bucket_used proto t es) = []" by (rule bucket_not_found [OF assms ok(1)])
  moreover obtain vac' where "insert_bucket_loop proto lhq (Bucket t es nx) d0 vac = insert_bucket_loop proto lhq nx (d0 + 1) vac'"
    using insert_bucket_step [OF nf] by blast
  then have "hits proto lhq nx = []" using Bucket.prems(2) by (intro Bucket.IH [OF ok(2), of "d0 + 1" vac']) metis
  ultimately show ?case by simp
qed simp_all

lemma insert_bucket_Some: "insert_bucket_loop proto lhq s d (Some (a, b)) \<in> insert (Vacant a b) (range (\<lambda>(d, i). Duplicate d i))"
  by (induction s arbitrary: d) (auto simp: Let_def split: sum.splits)

text \<open>The place of a new entry in a bucket: a hole, or the first free entry.\<close>

lemma bucket_vacant:
  assumes "proto_ok proto" and "bucket_ok proto t es"
    and "insert_entry_loop (entry_hit proto lhq) es (nxt_lvlhsh_bucket_entries proto t) 0 None = Inr (e, h)"
    and "(case h of Some j \<Rightarrow> j | None \<Rightarrow> e) = i" and "h = None \<longrightarrow> e < bucket_cap proto" and "valid y"
  shows "bucket_ok proto (nxt_lvlhsh_count_inc t) (es[i := y]) \<and>
    (\<exists>a b. bucket_used proto t es = a @ b \<and> bucket_used proto (nxt_lvlhsh_count_inc t) (es[i := y]) = a @ y # b)"
proof -
  obtain n where n: "t = 2 * n + 1" "0 < n" "n \<le> length (filter valid es)" "nxt_lvlhsh_bucket_entries proto t = n"
    "length es = bucket_cap proto" "bucket_used proto t es = take n (filter valid es)"
    using bucket_ok_tag [OF assms(1,2)] by blast
  obtain a x b where a: "es = a @ x # b" "i = length a" "length (filter valid a) \<le> n" "\<not> valid x \<or> length (filter valid a) = n"
    "n \<le> length (filter valid a) + length (filter valid b)"
  proof (cases h)
    case (Some j)
    with insert_entry_hole [OF assms(3) [unfolded Some n(4)] n(2)] assms(4) n(3) that show ?thesis by fastforce
  next
    case None
    with insert_entry_full [OF assms(3) [unfolded None n(4)] n(2,3)] obtain a b' where
      a: "es = a @ b'" "e = length a" "list_all valid a" "length a = n" by auto
    moreover have "b' \<noteq> []" using a assms(5) None n(5) by auto
    ultimately show ?thesis using that [of a "hd b'" "tl b'"] assms(4) None by (simp add: list_all_iff)
  qed
  have t: "nxt_lvlhsh_count_inc t = Suc (2 * Suc n)" using n(1) by (simp add: nxt_lvlhsh_count_inc_def)
  have e: "es[i := y] = a @ y # b" using a(1,2) by simp
  have "length (a @ y # b) = bucket_cap proto" "Suc n \<le> length (filter valid (a @ y # b))"
    using a n assms(6) by simp_all
  note k = bucket_okI [OF assms(1) this(1) _ this(2)]
  have "bucket_used proto t es = filter valid a @ take (n - length (filter valid a)) (filter valid b)"
    using n(6) take_valid_free [OF a(4,3)] a(1) by simp
  moreover have "bucket_used proto (nxt_lvlhsh_count_inc t) (es[i := y]) =
      filter valid a @ y # take (n - length (filter valid a)) (filter valid b)"
    using take_valid_at [OF assms(6), of a "Suc n" b] a(3) unfolding t e k(2) [OF zero_less_Suc] by simp
  ultimately show ?thesis using k(1) unfolding t e by blast
qed

lemma insert_bucket_vacant:
  assumes "proto_ok proto" and "valid y"
  shows "chain_ok proto s \<Longrightarrow> insert_bucket_loop proto lhq s d0 None = Vacant d i \<Longrightarrow>
    d0 \<le> d \<and> chain_ok proto (chain_update s (d - d0) nxt_lvlhsh_count_inc i y) \<and>
    blocks (chain_update s (d - d0) nxt_lvlhsh_count_inc i y) = blocks s \<and>
    mset (entries proto (chain_update s (d - d0) nxt_lvlhsh_count_inc i y)) = add_mset y (mset (entries proto s))"
proof (induction s arbitrary: d0)
  case (Bucket t es nx)
  have ok: "bucket_ok proto t es" "chain_ok proto nx" using Bucket.prems by simp_all
  have nf: "find_entry (entry_hit proto lhq) es (nxt_lvlhsh_bucket_entries proto t) 0 \<noteq> Some j" for j
    using Bucket.prems(2) by (auto simp: insert_entry_Inl [THEN iffD2])
  obtain e h where l: "insert_entry_loop (entry_hit proto lhq) es (nxt_lvlhsh_bucket_entries proto t) 0 None = Inr (e, h)"
    and r: "insert_bucket_loop proto lhq nx (d0 + 1)
      (case h of Some i \<Rightarrow> Some (d0, i) | None \<Rightarrow> if e < bucket_cap proto then Some (d0, e) else None) = Vacant d i"
    using insert_bucket_step [OF nf, of nx d0 None] Bucket.prems(2) by (metis option.simps(4))
  let ?j = "case h of Some j \<Rightarrow> j | None \<Rightarrow> e"
  show ?case
  proof (cases "h = None \<and> bucket_cap proto \<le> e")
    case True
    with r have "insert_bucket_loop proto lhq nx (d0 + 1) None = Vacant d i" by simp
    from Bucket.IH [OF ok(2) this] ok show ?thesis by auto
  next
    case False
    then have "insert_bucket_loop proto lhq nx (d0 + 1) (Some (d0, ?j)) = Vacant d i" using r by (cases h) auto
    with insert_bucket_Some [of proto lhq nx "d0 + 1" d0 ?j] have d: "d = d0" "i = ?j" by auto
    from bucket_vacant [OF assms(1) ok(1) l refl _ assms(2)] False ok(2) show ?thesis unfolding d by auto
  qed
qed simp_all

lemma insert_bucket_full:
  assumes "proto_ok proto" and "bucket_ok proto t es" and "insert_bucket_loop proto lhq (Bucket t es Null) d None = Full"
  shows "bucket_used proto t es = es \<and> list_all valid es"
proof -
  have nf: "find_entry (entry_hit proto lhq) es (nxt_lvlhsh_bucket_entries proto t) 0 \<noteq> Some j" for j
    using assms(3) by (auto simp: insert_entry_Inl [THEN iffD2])
  obtain e h where l: "insert_entry_loop (entry_hit proto lhq) es (nxt_lvlhsh_bucket_entries proto t) 0 None = Inr (e, h)"
    and r: "insert_bucket_loop proto lhq Null (d + 1)
      (case h of Some i \<Rightarrow> Some (d, i) | None \<Rightarrow> if e < bucket_cap proto then Some (d, e) else None) = Full"
    using insert_bucket_step [OF nf, of Null d None] assms(3) by (metis option.simps(4))
  from r have h: "h = None" "bucket_cap proto \<le> e" by (auto split: option.splits if_splits)
  obtain n where n: "0 < n" "n \<le> length (filter valid es)" "nxt_lvlhsh_bucket_entries proto t = n"
    "length es = bucket_cap proto" "bucket_used proto t es = take n (filter valid es)"
    using bucket_ok_tag [OF assms(1,2)] by blast
  from insert_entry_full [OF l [unfolded h(1) n(3)] n(1,2)] obtain a b where
    a: "es = a @ b" "e = length a" "list_all valid a" "length a = n" by auto
  moreover have "length b = 0" using a(2,4) arg_cong [OF a(1), of length] n(4) h(2) by (simp del: length_0_conv)
  ultimately show ?thesis using n by (simp add: list_all_iff)
qed

section \<open>New buckets\<close>

abbreviation new_entry :: "('k, 'v) lvlhsh_query \<Rightarrow> 'v entry" where
  "new_entry lhq \<equiv> \<lparr>entry_key = key_hash lhq, entry_value = lq_value lhq\<rparr>"

lemma new_entry_valid: "lq_value lhq \<noteq> None \<Longrightarrow> valid (new_entry lhq)"
  by (simp add: nxt_lvlhsh_valid_entry_def)

text \<open>A bucket without holes, as the conversion makes them.\<close>

definition dense :: "('k, 'v) lvlhsh_proto \<Rightarrow> 'v slot \<Rightarrow> nat \<Rightarrow> 'v entry list \<Rightarrow> bool" where
  "dense proto s m es \<longleftrightarrow>
     s = Bucket (Suc (2 * m)) es Null \<and> 0 < m \<and> m \<le> length es \<and> length es = bucket_cap proto \<and> list_all valid (take m es)"

lemma dense_entries:
  assumes "proto_ok proto" and "dense proto s m es"
  shows "chain_ok proto s" and "entries proto s = take m es" and "blocks s = 1"
proof -
  have "filter valid (take m es) = take m es" using assms(2) by (simp add: dense_def list_all_iff)
  then have "filter valid es = take m es @ filter valid (drop m es)"
    using filter_append [of valid "take m es" "drop m es"] by simp
  then have "m \<le> length (filter valid es)" "take m (filter valid es) = take m es" using assms(2) by (simp_all add: dense_def)
  with bucket_okI [OF assms(1), of es m] assms(2)
  show "chain_ok proto s" "entries proto s = take m es" "blocks s = 1" by (auto simp: dense_def)
qed

lemma new_bucket_spec:
  assumes "proto_ok proto" and "lq_value lhq \<noteq> None"
  shows "if m_avail mem = 0 then nxt_lvlhsh_new_bucket proto lhq mem = (NXT_ERROR, Null, mem)
    else \<exists>b es. nxt_lvlhsh_new_bucket proto lhq mem = (NXT_OK, b, lvl_alloc mem) \<and> dense proto b 1 es \<and>
      chain_ok proto b \<and> entries proto b = [new_entry lhq] \<and> blocks b = 1"
proof (cases "m_avail mem = 0")
  case False
  have c: "0 < bucket_cap proto" using assms(1) by (simp add: proto_ok_def)
  let ?es = "(map (m_junk mem (m_avail mem)) [0..<bucket_cap proto])[0 := new_entry lhq]"
  have l: "length ?es = bucket_cap proto" by simp
  have e: "take 1 ?es = [new_entry lhq]" using c by (cases "map (m_junk mem (m_avail mem)) [0..<bucket_cap proto]") auto
  have d: "dense proto (Bucket (Suc (2 * 1)) ?es Null) 1 ?es"
    unfolding dense_def e using c new_entry_valid [OF assms(2)] by simp
  have "nxt_lvlhsh_new_bucket proto lhq mem = (NXT_OK, Bucket (Suc (2 * 1)) ?es Null, lvl_alloc mem)"
    using False by (simp add: nxt_lvlhsh_new_bucket_def)
  with False d dense_entries [OF assms(1) d] e show ?thesis by auto
qed (simp add: nxt_lvlhsh_new_bucket_def)

lemma chain_append_ok:
  "chain_ok proto s \<Longrightarrow> chain_ok proto b \<Longrightarrow>
     chain_ok proto (chain_append s b) \<and> entries proto (chain_append s b) = entries proto s @ entries proto b \<and>
     blocks (chain_append s b) = blocks s + blocks b"
  by (induction s) auto

section \<open>Memory\<close>

text \<open>
  From one state to the next at most \<open>k\<close> allocations are made, and the blocks of the tree account
  for the blocks that are allocated.
\<close>

definition grown :: "nat \<Rightarrow> 'v slot \<Rightarrow> 'v lvl_mem \<Rightarrow> 'v slot \<Rightarrow> 'v lvl_mem \<Rightarrow> bool" where
  "grown k s mem s' mem' \<longleftrightarrow>
     m_live mem' - int (blocks s') = m_live mem - int (blocks s) \<and>
     m_avail mem' \<le> m_avail mem \<and> m_avail mem \<le> m_avail mem' + k"

lemma grown_refl [simp]: "grown k s mem s mem"
  by (simp add: grown_def)

lemma grown_trans: "grown k a mem b mem' \<Longrightarrow> grown l b mem' c mem'' \<Longrightarrow> grown (k + l) a mem c mem''"
  by (simp add: grown_def)

lemma grown_mono: "grown k a mem b mem' \<Longrightarrow> k \<le> l \<Longrightarrow> grown l a mem b mem'"
  by (simp add: grown_def)

lemma grown_alloc: "m_avail mem \<noteq> 0 \<Longrightarrow> blocks s' = Suc (blocks s) \<Longrightarrow> grown 1 s mem s' (lvl_alloc mem)"
  by (simp add: grown_def)

lemma grown_level:
  "i < length lvl \<Longrightarrow> grown k (lvl ! i) mem s mem' \<Longrightarrow> grown k (Level t lvl) mem (Level t' (lvl[i := s])) mem'"
  using blocks_update [of i lvl t' s t] unfolding grown_def by linarith

section \<open>The conversion of a bucket to a level\<close>

definition flat_slot :: "('k, 'v) lvlhsh_proto \<Rightarrow> 'v slot \<Rightarrow> bool" where
  "flat_slot proto s \<longleftrightarrow> s = Null \<or> (\<exists>m es. dense proto s m es)"

definition flat_level :: "('k, 'v) lvlhsh_proto \<Rightarrow> nat \<Rightarrow> nat \<Rightarrow> 'v slot list \<Rightarrow> bool" where
  "flat_level proto n t lvl \<longleftrightarrow>
     length lvl = 2 ^ level_shift proto n \<and> t = 2 * used_slots lvl \<and>
     (\<forall>i<length lvl. flat_slot proto (lvl ! i) \<and> (\<forall>e\<in>set (entries proto (lvl ! i)). key_slot proto n (entry_key e) = i))"

lemma flat_slot_ok:
  assumes "proto_ok proto" and "flat_slot proto s"
  shows "slot_ok proto n s" and "blocks s = (if s = Null then 0 else 1)"
  using assms dense_entries [OF assms(1)] by (auto simp: flat_slot_def slot_ok_chain)

lemma flat_level_blocks:
  assumes "proto_ok proto" and "flat_level proto n t lvl"
  shows "blocks (Level t lvl) = Suc (used_slots lvl)"
proof -
  have "list_all (flat_slot proto) lvl" using assms(2) by (simp add: flat_level_def list_all_length)
  then have "sum_list (map blocks lvl) = used_slots lvl"
    using flat_slot_ok(2) [OF assms(1)] by (induction lvl) (auto simp: used_slots_def)
  then show ?thesis by simp
qed

lemma flat_level_ok:
  "proto_ok proto \<Longrightarrow> flat_level proto n t lvl \<Longrightarrow> level_shift proto n \<noteq> 0 \<Longrightarrow> entries proto (Level t lvl) \<noteq> [] \<Longrightarrow>
     slot_ok proto n (Level t lvl)"
  using used_slots_none(1) [of lvl proto t]
  by (cases "used_slots lvl = 0") (auto simp: flat_level_def slot_ok_Level flat_slot_ok simp del: entries.simps(3))

lemma flat_level_update:
  assumes "flat_level proto n t lvl" and "i < length lvl" and "flat_slot proto s"
    and "\<forall>e\<in>set (entries proto s). key_slot proto n (entry_key e) = i" and "t' = 2 * used_slots (lvl[i := s])"
  shows "flat_level proto n t' (lvl[i := s])"
  using assms by (auto simp: flat_level_def nth_list_update split: if_splits)

lemma dense_add:
  assumes "dense proto s m es" and "m < bucket_cap proto" and "valid y"
  shows "dense proto (chain_update s 0 nxt_lvlhsh_count_inc m y) (Suc m) (es[m := y])"
    and "take (Suc m) (es[m := y]) = take m es @ [y]"
proof -
  have m: "m < length es" using assms by (simp add: dense_def)
  then show t: "take (Suc m) (es[m := y]) = take m es @ [y]" by (simp add: take_Suc_conv_app_nth)
  show "dense proto (chain_update s 0 nxt_lvlhsh_count_inc m y) (Suc m) (es[m := y])"
    unfolding dense_def t using assms m by (simp add: dense_def nxt_lvlhsh_count_inc_def)
qed

lemma level_entries_length: "i < length lvl \<Longrightarrow> length (entries proto (lvl ! i)) \<le> length (entries proto (Level t lvl))"
  by (simp add: level_entries_split del: entries.simps(3))

lemma level_entries_mset:
  "i < length lvl \<Longrightarrow>
     mset (entries proto (Level t' (lvl[i := s]))) + mset (entries proto (lvl ! i)) =
     mset (entries proto (Level t lvl)) + mset (entries proto s)"
  by (simp add: level_entries_split [of i lvl] level_entries_update del: entries.simps(3))

lemma convertion_step:
  assumes "n < 8" and "key_slot proto n key < length lvl"
  shows "nxt_lvlhsh_level_convertion_insert proto lhq (Level t lvl) (drop_bit (shift_sum proto n) key) n mem =
    (if lvl ! key_slot proto n key = Null then
       case nxt_lvlhsh_new_bucket proto lhq mem of
         (rc, b, mem) \<Rightarrow>
           (rc, if rc = NXT_OK then Level (nxt_lvlhsh_count_inc t) (lvl[key_slot proto n key := b]) else Level t lvl,
            lq_value lhq, mem)
     else
       case nxt_lvlhsh_bucket_convertion_insert proto lhq (lvl ! key_slot proto n key)
              (drop_bit (shift_sum proto (Suc n)) key) (Suc n) mem of
         (rc, s, v, mem) \<Rightarrow> (rc, Level t (lvl[key_slot proto n key := s]), v, mem))"
  unfolding nxt_lvlhsh_level_convertion_insert.simps [of proto lhq "Level t lvl"] key_slot_def [symmetric] rest_key Let_def
  using assms by (simp split: prod.split)

lemma bucket_convertion_dense:
  assumes "proto_ok proto" and "dense proto s m es" and "m < bucket_cap proto"
  shows "nxt_lvlhsh_bucket_convertion_insert proto lhq s key n mem =
    (NXT_OK, chain_update s 0 nxt_lvlhsh_count_inc m (new_entry lhq), lq_value lhq, mem)"
proof -
  have "nxt_lvlhsh_bucket_entries proto (Suc (2 * m)) = m"
    using bucket_entries_tag [OF assms(1), of m] assms(3) by simp
  then have "convertion_bucket_loop proto s 0 = Some (0, m)" using assms(2,3) by (simp add: dense_def)
  then show ?thesis by (simp add: nxt_lvlhsh_bucket_convertion_insert.simps)
qed

lemma convertion_insert_spec:
  assumes "proto_ok proto" and "flat_level proto n t lvl" and "n < 8" and "lq_value lhq \<noteq> None"
    and "length (entries proto (Level t lvl)) < bucket_cap proto"
  shows "\<exists>rc t' lvl' v mem'.
    nxt_lvlhsh_level_convertion_insert proto lhq (Level t lvl) (drop_bit (shift_sum proto n) (key_hash lhq)) n mem =
      (rc, Level t' lvl', v, mem') \<and>
    flat_level proto n t' lvl' \<and> grown 1 (Level t lvl) mem (Level t' lvl') mem' \<and>
    (rc = NXT_OK \<and> mset (entries proto (Level t' lvl')) = add_mset (new_entry lhq) (mset (entries proto (Level t lvl))) \<or>
     rc = NXT_ERROR \<and> m_avail mem' = 0)"
proof -
  let ?i = "key_slot proto n (key_hash lhq)"
  have i: "?i < length lvl" using assms(2) key_slot_less [OF assms(1), of n "key_hash lhq"] by (simp add: flat_level_def)
  have f: "flat_slot proto (lvl ! ?i)" "t = 2 * used_slots lvl"
    "\<forall>e\<in>set (entries proto (lvl ! ?i)). key_slot proto n (entry_key e) = ?i" using assms(2) i by (auto simp: flat_level_def)
  note step = convertion_step [OF assms(3) i, of lhq t mem]
  show ?thesis
  proof (cases "lvl ! ?i = Null")
    case True
    show ?thesis
    proof (cases "m_avail mem = 0")
      case m: True
      with new_bucket_spec [OF assms(1,4), of mem] True step assms(2) show ?thesis by auto
    next
      case m: False
      with new_bucket_spec [OF assms(1,4), of mem] obtain b es where
        b: "nxt_lvlhsh_new_bucket proto lhq mem = (NXT_OK, b, lvl_alloc mem)" "dense proto b 1 es"
          "entries proto b = [new_entry lhq]" "blocks b = 1" by auto
      have "b \<noteq> Null" using b(4) by auto
      then have "nxt_lvlhsh_count_inc t = 2 * used_slots (lvl[?i := b])"
        using used_slots_update [OF i, of b] True f(2) by (simp add: nxt_lvlhsh_count_inc_def)
      then have "flat_level proto n (nxt_lvlhsh_count_inc t) (lvl[?i := b])"
        using b by (intro flat_level_update [OF assms(2) i]) (auto simp: flat_slot_def)
      moreover have "grown 1 (Level t lvl) mem (Level (nxt_lvlhsh_count_inc t) (lvl[?i := b])) (lvl_alloc mem)"
        using b(4) True by (intro grown_level [OF i] grown_alloc [OF m]) simp
      moreover have "mset (entries proto (Level (nxt_lvlhsh_count_inc t) (lvl[?i := b]))) =
          add_mset (new_entry lhq) (mset (entries proto (Level t lvl)))"
        using level_entries_mset [OF i, of proto "nxt_lvlhsh_count_inc t" b t] True b(3) by (simp del: entries.simps(3))
      ultimately show ?thesis using step True b(1) by auto
    qed
  next
    case False
    then obtain m es where d: "dense proto (lvl ! ?i) m es" using f(1) by (auto simp: flat_slot_def)
    have "m < bucket_cap proto"
      using d dense_entries(2) [OF assms(1) d] level_entries_length [OF i, of proto t] assms(5) by (simp add: dense_def)
    note a = dense_add [OF d this new_entry_valid [OF assms(4)]] and c = bucket_convertion_dense [OF assms(1) d this]
    let ?s = "chain_update (lvl ! ?i) 0 nxt_lvlhsh_count_inc m (new_entry lhq)"
    note e = dense_entries [OF assms(1) a(1), unfolded a(2)] and e' = dense_entries [OF assms(1) d]
    have "?s \<noteq> Null" using e(3) by auto
    then have "t = 2 * used_slots (lvl[?i := ?s])" using used_slots_update [OF i, of ?s] False f(2) by simp
    then have "flat_level proto n t (lvl[?i := ?s])"
      using a f(3) e(2) e'(2) by (intro flat_level_update [OF assms(2) i]) (auto simp: flat_slot_def)
    moreover have "grown 1 (Level t lvl) mem (Level t (lvl[?i := ?s])) mem"
      using e(3) e'(3) by (intro grown_level [OF i]) (simp add: grown_def)
    moreover have "mset (entries proto (Level t (lvl[?i := ?s]))) = add_mset (new_entry lhq) (mset (entries proto (Level t lvl)))"
      using level_entries_mset [OF i, of proto t ?s t] e(2) e'(2) by (simp del: entries.simps(3))
    ultimately show ?thesis using step False c by auto
  qed
qed

lemma convert_loop_spec:
  assumes "proto_ok proto" and "n < 8"
  shows "flat_level proto n t lvl \<Longrightarrow> list_all valid bs \<Longrightarrow>
    length (entries proto (Level t lvl)) + length bs \<le> bucket_cap proto \<Longrightarrow>
    \<exists>rc t' lvl' mem'.
      convert_loop proto lhq (Level t lvl) (shift_sum proto n) n bs mem = (rc, Level t' lvl', mem') \<and>
      flat_level proto n t' lvl' \<and> grown (length bs) (Level t lvl) mem (Level t' lvl') mem' \<and>
      (rc = NXT_OK \<and> mset (entries proto (Level t' lvl')) = mset (entries proto (Level t lvl)) + mset bs \<or>
       rc = NXT_ERROR \<and> m_avail mem' = 0)"
proof (induction bs arbitrary: t lvl mem)
  case Nil
  then show ?case by (auto simp: convert_loop.simps)
next
  case (Cons e bs)
  let ?q = "lhq\<lparr>key_hash := entry_key e, lq_value := entry_value e\<rparr>"
  have e: "new_entry ?q = e" by simp
  have q: "lq_value ?q \<noteq> None" using Cons.prems(2) by (simp add: nxt_lvlhsh_valid_entry_def)
  have l: "length (entries proto (Level t lvl)) < bucket_cap proto" using Cons.prems(3) by simp
  obtain rc t1 lvl1 v mem1 where
    r: "nxt_lvlhsh_level_convertion_insert proto ?q (Level t lvl) (drop_bit (shift_sum proto n) (entry_key e)) n mem =
      (rc, Level t1 lvl1, v, mem1)" and
    f: "flat_level proto n t1 lvl1" "grown 1 (Level t lvl) mem (Level t1 lvl1) mem1" and
    m: "rc = NXT_OK \<and> mset (entries proto (Level t1 lvl1)) = add_mset (new_entry ?q) (mset (entries proto (Level t lvl))) \<or>
      rc = NXT_ERROR \<and> m_avail mem1 = 0"
    using convertion_insert_spec [OF assms(1) Cons.prems(1) assms(2) q l, of mem] by (elim exE conjE) (rule that, simp_all)
  have step: "convert_loop proto lhq (Level t lvl) (shift_sum proto n) n (e # bs) mem =
      (if rc = NXT_OK then convert_loop proto lhq (Level t1 lvl1) (shift_sum proto n) n bs mem1 else (rc, Level t1 lvl1, mem1))"
    by (subst convert_loop.simps) (simp add: r Let_def)
  show ?case
  proof (cases "rc = NXT_OK")
    case True
    with m e have ms: "mset (entries proto (Level t1 lvl1)) = add_mset e (mset (entries proto (Level t lvl)))" by simp
    then have "length (entries proto (Level t1 lvl1)) = Suc (length (entries proto (Level t lvl)))"
      by (metis size_add_mset size_mset)
    with Cons.prems have "list_all valid bs" "length (entries proto (Level t1 lvl1)) + length bs \<le> bucket_cap proto" by simp_all
    from Cons.IH [OF f(1) this, of mem1] obtain rc' t' lvl' mem' where
      i: "convert_loop proto lhq (Level t1 lvl1) (shift_sum proto n) n bs mem1 = (rc', Level t' lvl', mem')"
        "flat_level proto n t' lvl'" "grown (length bs) (Level t1 lvl1) mem1 (Level t' lvl') mem'"
        "rc' = NXT_OK \<and> mset (entries proto (Level t' lvl')) = mset (entries proto (Level t1 lvl1)) + mset bs \<or>
         rc' = NXT_ERROR \<and> m_avail mem' = 0"
      by (elim exE conjE) (rule that)
    have "grown (length (e # bs)) (Level t lvl) mem (Level t' lvl') mem'" using grown_trans [OF f(2) i(3)] by simp
    with i(1,2,4) ms show ?thesis unfolding step by (intro exI conjI) (use True in auto)
  next
    case False
    with m have "rc = NXT_ERROR" "m_avail mem1 = 0" by auto
    moreover have "grown (length (e # bs)) (Level t lvl) mem (Level t1 lvl1) mem1" by (rule grown_mono [OF f(2)]) simp
    ultimately show ?thesis unfolding step using f(1) False by auto
  qed
qed

lemma convert_spec:
  assumes "proto_ok proto" and "level_shift proto n \<noteq> 0" and "list_all valid es" and "length es = bucket_cap proto"
    and "entries proto (Bucket t es Null) = es"
  shows "\<exists>rc s' mem'. nxt_lvlhsh_convert_bucket_to_level proto lhq (Bucket t es Null) n es mem = (rc, s', mem') \<and>
    grown (Suc (bucket_cap proto)) (Bucket t es Null) mem s' mem' \<and>
    (rc = NXT_OK \<and> slot_ok proto n s' \<and> (\<exists>t lvl. s' = Level t lvl) \<and> mset (entries proto s') = mset es \<or>
     rc = NXT_ERROR \<and> s' = Bucket t es Null \<and> m_avail mem' = 0)"
proof (cases "m_avail mem = 0")
  case True
  then show ?thesis by (simp add: nxt_lvlhsh_convert_bucket_to_level.simps)
next
  case False
  let ?l = "replicate (2 ^ level_shift proto n) Null :: 'b slot list"
  have n: "n < 8" using assms(2) level_shift_high [OF assms(1), of n] by (cases "n < 8") auto
  have f: "flat_level proto n 0 ?l" by (simp add: flat_level_def used_slots_def flat_slot_def)
  have e: "entries proto (Level 0 ?l) = []" by simp
  have l: "length (entries proto (Level 0 ?l)) + length es \<le> bucket_cap proto" using e assms(4) by simp
  obtain rc t' lvl' mem' where
    i: "convert_loop proto lhq (Level 0 ?l) (shift_sum proto n) n es (lvl_alloc mem) = (rc, Level t' lvl', mem')"
      "flat_level proto n t' lvl'" "grown (length es) (Level 0 ?l) (lvl_alloc mem) (Level t' lvl') mem'" and
    m: "rc = NXT_OK \<and> mset (entries proto (Level t' lvl')) = mset (entries proto (Level 0 ?l)) + mset es \<or>
       rc = NXT_ERROR \<and> m_avail mem' = 0"
    using convert_loop_spec [OF assms(1) n f assms(3) l, of lhq "lvl_alloc mem"] by (elim exE conjE) (rule that)
  have b: "blocks (Level t' lvl') = Suc (used_slots lvl')" by (rule flat_level_blocks [OF assms(1) i(2)])
  have g: "m_live mem' - int (Suc (used_slots lvl')) = m_live mem" "m_avail mem' \<le> m_avail mem - 1"
    "m_avail mem - 1 \<le> m_avail mem' + bucket_cap proto"
    using i(3) assms(4) flat_level_blocks [OF assms(1) f] unfolding grown_def b by (simp_all add: used_slots_def)
  have step: "nxt_lvlhsh_convert_bucket_to_level proto lhq (Bucket t es Null) n es mem =
      (if rc = NXT_OK then (NXT_OK, Level t' lvl', lvl_free 1 mem')
       else (NXT_ERROR, Bucket t es Null, lvl_free (used_slots lvl' + 1) mem'))"
    using False i(1) by (simp add: nxt_lvlhsh_convert_bucket_to_level.simps shift_sum_def nxt_lvlhsh_free_level_def used_slots_def Let_def)
  show ?thesis
  proof (cases "rc = NXT_OK")
    case True
    with m e have ms: "mset (entries proto (Level t' lvl')) = mset es" by simp
    have "0 < bucket_cap proto" using assms(1) by (simp add: proto_ok_def)
    with assms(4) ms have "entries proto (Level t' lvl') \<noteq> []" by (metis length_greater_0_conv mset_zero_iff)
    then have "slot_ok proto n (Level t' lvl')" by (rule flat_level_ok [OF assms(1) i(2) assms(2)])
    moreover have "grown (Suc (bucket_cap proto)) (Bucket t es Null) mem (Level t' lvl') (lvl_free 1 mem')"
      unfolding grown_def b using g False by (simp, linarith)
    ultimately show ?thesis unfolding step using ms True by auto
  next
    case rc: False
    with m have "m_avail mem' = 0" by simp
    moreover have "grown (Suc (bucket_cap proto)) (Bucket t es Null) mem (Bucket t es Null) (lvl_free (used_slots lvl' + 1) mem')"
      unfolding grown_def using g False by (simp, linarith)
    ultimately show ?thesis unfolding step using rc by auto
  qed
qed

section \<open>Insertion\<close>

text \<open>
  What an insertion into a slot above level \<open>n\<close> does, with at most \<open>k\<close> allocations.  If an entry
  fits the query, its value is returned, and it is replaced or the insertion is declined.
  Otherwise the entry is added, or there is no memory left and the entries are as before.
\<close>

definition insert_spec ::
  "('k, 'v) lvlhsh_proto \<Rightarrow> ('k, 'v) lvlhsh_query \<Rightarrow> nat \<Rightarrow> nat \<Rightarrow> 'v slot \<Rightarrow> 'v lvl_mem \<Rightarrow>
   nxt_rc \<times> 'v slot \<times> 'v option \<times> 'v lvl_mem \<Rightarrow> bool" where
  "insert_spec proto lhq n k s mem r \<longleftrightarrow>
     (case r of (rc, s', v, mem') \<Rightarrow>
        slot_ok proto n s' \<and> (s \<noteq> Null \<longrightarrow> s' \<noteq> Null) \<and> grown k s mem s' mem' \<and>
        (case hits proto lhq s of
           e # _ \<Rightarrow> v = entry_value e \<and> mem' = mem \<and>
             (if replace lhq
              then rc = NXT_OK \<and>
                mset (entries proto s') + {#e#} = mset (entries proto s) + {#e\<lparr>entry_value := lq_value lhq\<rparr>#}
              else rc = NXT_DECLINED \<and> s' = s)
         | [] \<Rightarrow> v = lq_value lhq \<and>
             (rc = NXT_OK \<and> mset (entries proto s') = add_mset (new_entry lhq) (mset (entries proto s)) \<or>
              rc = NXT_ERROR \<and> m_avail mem' = 0 \<and> mset (entries proto s') = mset (entries proto s))))"

lemma hits_hd: "hits proto lhq s = e # es \<Longrightarrow> e \<in> set (entries proto s) \<and> entry_key e = key_hash lhq"
  by (auto simp: filter_eq_Cons_iff entry_hit_def)

lemma insert_spec_keys:
  assumes "insert_spec proto lhq n k s mem (rc, s', v, mem')" and "x \<in> set (entries proto s')"
  shows "x \<in> set (entries proto s) \<or> entry_key x = key_hash lhq"
proof -
  have x: "x \<in># mset (entries proto s')" using assms(2) by simp
  show ?thesis
  proof (cases "hits proto lhq s")
    case Nil
    with assms(1) have "mset (entries proto s') \<in> {mset (entries proto s), add_mset (new_entry lhq) (mset (entries proto s))}"
      by (auto simp: insert_spec_def)
    with x have "x \<in># add_mset (new_entry lhq) (mset (entries proto s))" by (elim insertE) simp_all
    then show ?thesis by auto
  next
    case (Cons e es)
    have "x \<in># mset (entries proto s) + {#e\<lparr>entry_value := lq_value lhq\<rparr>#}"
    proof (cases "replace lhq")
      case True
      with assms(1) Cons have "mset (entries proto s') + {#e#} = mset (entries proto s) + {#e\<lparr>entry_value := lq_value lhq\<rparr>#}"
        by (simp add: insert_spec_def)
      with x show ?thesis by (metis union_iff)
    next
      case False
      with assms Cons show ?thesis by (simp add: insert_spec_def)
    qed
    with hits_hd [OF Cons] show ?thesis by auto
  qed
qed

lemma insert_spec_mono: "insert_spec proto lhq n k s mem r \<Longrightarrow> k \<le> l \<Longrightarrow> insert_spec proto lhq n l s mem r"
  unfolding insert_spec_def using grown_mono by fastforce

lemma mset_exchange:
  assumes "A + L = B + S" and "add_mset x S = add_mset y L"
  shows "add_mset x A = add_mset y B"
proof -
  have "add_mset x A + L = add_mset y B + L"
    using assms by (metis union_mset_add_mset_left union_mset_add_mset_right)
  then show ?thesis by simp
qed

lemma insert_lift:
  assumes "proto_ok proto" and "slot_ok proto n (Level t lvl)" and "i = key_slot proto n (key_hash lhq)"
    and "lvl ! i \<noteq> Null" and "insert_spec proto lhq (n + 1) k (lvl ! i) mem (rc, s, v, mem')"
  shows "insert_spec proto lhq n k (Level t lvl) mem (rc, Level t (lvl[i := s]), v, mem')"
proof -
  have i: "i < length lvl" using key_slot_level [OF assms(1,2)] assms(3) by simp
  note d = assms(5) [unfolded insert_spec_def split_conv]
  have k: "\<forall>e\<in>set (entries proto s). key_slot proto n (entry_key e) = i"
    using insert_spec_keys [OF assms(5)] assms(2,3) i unfolding slot_ok_Level by metis
  have "used_slots (lvl[i := s]) = used_slots lvl" using used_slots_update [OF i, of s] d assms(4) by simp
  then have "slot_ok proto n (Level t (lvl[i := s]))"
    using d k assms(2) by (intro slot_ok_update [OF assms(2) i]) (auto simp: slot_ok_Level)
  moreover have "grown k (Level t lvl) mem (Level t (lvl[i := s])) mem'" using d by (intro grown_level [OF i]) simp
  moreover note m = level_entries_mset [OF i, of proto t s t]
  ultimately show ?thesis
    unfolding insert_spec_def split_conv level_hits(3) [OF assms(1-3)]
    using d by (auto split: list.splits simp del: entries.simps(3) intro: mset_exchange [OF m])
qed

lemma level_insert_step:
  assumes "n < 8" and "key_slot proto n key < length lvl"
  shows "nxt_lvlhsh_level_insert proto lhq (Level t lvl) (drop_bit (shift_sum proto n) key) n mem =
    (case lvl ! key_slot proto n key of
       Null \<Rightarrow>
         (case nxt_lvlhsh_new_bucket proto lhq mem of
            (rc, b, mem) \<Rightarrow>
              (rc, if rc = NXT_OK then Level (nxt_lvlhsh_count_inc t) (lvl[key_slot proto n key := b]) else Level t lvl,
               lq_value lhq, mem))
     | Bucket _ _ _ \<Rightarrow>
         (case nxt_lvlhsh_bucket_insert proto lhq (lvl ! key_slot proto n key)
                 (drop_bit (shift_sum proto (n + 1)) key) (n + 1) mem of
            (rc, s, v, mem) \<Rightarrow> (rc, Level t (lvl[key_slot proto n key := s]), v, mem))
     | Level _ _ \<Rightarrow>
         (case nxt_lvlhsh_level_insert proto lhq (lvl ! key_slot proto n key)
                 (drop_bit (shift_sum proto (n + 1)) key) (n + 1) mem of
            (rc, s, v, mem) \<Rightarrow> (rc, Level t (lvl[key_slot proto n key := s]), v, mem)))"
  unfolding nxt_lvlhsh_level_insert.simps [of proto lhq "Level t lvl"] key_slot_def [symmetric] rest_key Let_def Suc_eq_plus1
  using assms by (simp only: slot.case if_True simp_thms)

text \<open>A conversion allocates a level and at most a bucket for every entry; there are eight levels.\<close>

definition insert_cost :: "('k, 'v) lvlhsh_proto \<Rightarrow> nat \<Rightarrow> nat" where
  "insert_cost proto n = (8 - n) * Suc (bucket_cap proto) + 1"

lemma insert_cost_Suc: "n < 8 \<Longrightarrow> insert_cost proto n = Suc (bucket_cap proto) + insert_cost proto (n + 1)"
proof -
  assume "n < 8"
  then have "8 - n = Suc (8 - (n + 1))" by simp
  then show ?thesis by (simp add: insert_cost_def del: Suc_diff_Suc)
qed

lemma insert_cost_mono: "m \<le> n \<Longrightarrow> insert_cost proto n \<le> insert_cost proto m"
  unfolding insert_cost_def by (intro add_mono mult_le_mono) simp_all

lemma hits_mset_empty: "mset (entries proto s) = mset (entries proto s') \<Longrightarrow> hits proto lhq s = [] \<Longrightarrow> hits proto lhq s' = []"
  by (metis filter_empty_conv set_mset_mset)

lemma bucket_insert_full:
  assumes "proto_ok proto" and "lq_value lhq \<noteq> None" and "slot_ok proto n s" and "chain_ok proto s" and "s \<noteq> Null"
    and "insert_bucket_loop proto lhq s 0 None = Full" and "hits proto lhq s = []" and "level_shift proto n \<noteq> 0"
    and "\<And>t lvl mem. slot_ok proto n (Level t lvl) \<Longrightarrow>
      insert_spec proto lhq n (insert_cost proto (n + 1)) (Level t lvl) mem
        (nxt_lvlhsh_level_insert proto lhq (Level t lvl) (drop_bit (shift_sum proto n) (key_hash lhq)) n mem)"
  shows "insert_spec proto lhq n (insert_cost proto n) s mem
    (nxt_lvlhsh_bucket_insert proto lhq s (drop_bit (shift_sum proto n) (key_hash lhq)) n mem)"
proof -
  obtain t es where s: "s = Bucket t es Null" using assms(3-5,8) by (cases s) auto
  have f: "bucket_used proto t es = es" "list_all valid es"
    using insert_bucket_full [OF assms(1) _ assms(6) [unfolded s]] assms(4) s by auto
  have l: "length es = bucket_cap proto" using assms(4) s by (simp add: bucket_ok_def)
  have n: "n < 8" using assms(8) level_shift_high [OF assms(1), of n] by (cases "n < 8") auto
  obtain rc s' mem' where r: "nxt_lvlhsh_convert_bucket_to_level proto lhq s n es mem = (rc, s', mem')"
    and g: "grown (Suc (bucket_cap proto)) s mem s' mem'"
    and c: "rc = NXT_OK \<and> slot_ok proto n s' \<and> (\<exists>t lvl. s' = Level t lvl) \<and> mset (entries proto s') = mset es \<or>
      rc = NXT_ERROR \<and> s' = s \<and> m_avail mem' = 0"
    using convert_spec [OF assms(1,8) f(2) l, of t lhq mem] f(1) unfolding s by auto
  have step: "nxt_lvlhsh_bucket_insert proto lhq s key n mem =
      (if rc = NXT_OK then nxt_lvlhsh_level_insert proto lhq s' key n mem' else (rc, s', lq_value lhq, mem'))" for key
    using r assms(6,8) n by (simp add: nxt_lvlhsh_bucket_insert.simps s)
  show ?thesis
  proof (cases "rc = NXT_OK")
    case True
    with c obtain t' lvl' where s': "s' = Level t' lvl'" "slot_ok proto n s'" "mset (entries proto s') = mset (entries proto s)"
      using s f(1) by auto
    obtain rc1 s1 v1 mem1 where i: "nxt_lvlhsh_level_insert proto lhq s' (drop_bit (shift_sum proto n) (key_hash lhq)) n mem' =
        (rc1, s1, v1, mem1)" by (metis prod_cases4)
    have h: "hits proto lhq s' = []" using hits_mset_empty [OF s'(3) [symmetric] assms(7)] .
    note sp = assms(9) [OF s'(2) [unfolded s'(1)], of mem', folded s'(1), unfolded i insert_spec_def split_conv h list.case s'(3)]
    have "grown (insert_cost proto n) s mem s1 mem1"
      unfolding insert_cost_Suc [OF n] using grown_trans [OF g] sp by blast
    with sp s'(1) show ?thesis
      unfolding step using True i assms(7) by (simp add: insert_spec_def)
  next
    case False
    with c have "rc = NXT_ERROR" "s' = s" "m_avail mem' = 0" by auto
    moreover have "grown (insert_cost proto n) s mem s' mem'"
      by (rule grown_mono [OF g]) (simp add: insert_cost_Suc [OF n])
    ultimately show ?thesis unfolding step using assms(3,7) by (simp add: insert_spec_def)
  qed
qed

lemma bucket_insert_duplicate:
  assumes "proto_ok proto" and "lq_value lhq \<noteq> None" and "slot_ok proto n s" and "chain_ok proto s" and "s \<noteq> Null"
    and "insert_bucket_loop proto lhq s 0 None = Duplicate d i"
  shows "insert_spec proto lhq n k s mem (nxt_lvlhsh_bucket_insert proto lhq s key n mem)"
proof -
  obtain a x b where x: "chain_entry s d i = x" "entry_hit proto lhq x" "filter (entry_hit proto lhq) a = []"
    "entries proto s = a @ x # b" and
    u: "\<forall>y. valid y \<longrightarrow> chain_ok proto (chain_update s d (\<lambda>t. t) i y) \<and>
       blocks (chain_update s d (\<lambda>t. t) i y) = blocks s \<and> entries proto (chain_update s d (\<lambda>t. t) i y) = a @ y # b"
    using insert_bucket_duplicate [OF assms(1,4,6)] unfolding diff_zero by (elim exE conjE) (rule that)
  let ?y = "x\<lparr>entry_value := lq_value lhq\<rparr>"
  have y: "valid ?y" using assms(2) by (simp add: nxt_lvlhsh_valid_entry_def)
  have h: "hits proto lhq s = x # filter (entry_hit proto lhq) b" using x by simp
  have "chain_update s d (\<lambda>t. t) i ?y \<noteq> Null" "slot_ok proto n (chain_update s d (\<lambda>t. t) i ?y)"
    using u [rule_format, OF y] assms(3-5) by (metis blocks_eq_0, metis slot_ok_chain)
  then show ?thesis
    using u [rule_format, OF y] assms(3,5,6) x(1,4) unfolding insert_spec_def h
    by (simp add: nxt_lvlhsh_bucket_insert.simps Let_def grown_def)
qed

lemma bucket_insert_vacant:
  assumes "proto_ok proto" and "lq_value lhq \<noteq> None" and "slot_ok proto n s" and "chain_ok proto s" and "s \<noteq> Null"
    and "insert_bucket_loop proto lhq s 0 None = Vacant d i"
  shows "insert_spec proto lhq n k s mem (nxt_lvlhsh_bucket_insert proto lhq s key n mem)"
proof -
  have h: "hits proto lhq s = []" using insert_bucket_no_duplicate [OF assms(1,4), of lhq 0 None] assms(6) by simp
  let ?s = "chain_update s d nxt_lvlhsh_count_inc i (new_entry lhq)"
  have u: "chain_ok proto ?s" "blocks ?s = blocks s" "mset (entries proto ?s) = add_mset (new_entry lhq) (mset (entries proto s))"
    using insert_bucket_vacant [OF assms(1) new_entry_valid [OF assms(2)] assms(4,6)] by simp_all
  have "?s \<noteq> Null" "slot_ok proto n ?s" using u(1,2) assms(3-5) by (metis blocks_eq_0, metis slot_ok_chain)
  with u h assms(6) show ?thesis by (simp add: insert_spec_def nxt_lvlhsh_bucket_insert.simps grown_def)
qed

lemma bucket_insert_chain:
  assumes "proto_ok proto" and "lq_value lhq \<noteq> None" and "slot_ok proto n s" and "chain_ok proto s" and "s \<noteq> Null"
    and "insert_bucket_loop proto lhq s 0 None = Full" and "hits proto lhq s = []" and "level_shift proto n = 0"
  shows "insert_spec proto lhq n (Suc k) s mem (nxt_lvlhsh_bucket_insert proto lhq s key n mem)"
proof -
  obtain rc b mem' where r: "nxt_lvlhsh_new_bucket proto lhq mem = (rc, b, mem')" by (metis prod_cases3)
  have ins: "nxt_lvlhsh_bucket_insert proto lhq s key n mem = (rc, chain_append s b, lq_value lhq, mem')"
    using r assms(6,8) by (simp add: nxt_lvlhsh_bucket_insert.simps)
  have b: "chain_ok proto b \<and> (if m_avail mem = 0 then rc = NXT_ERROR \<and> b = Null \<and> mem' = mem
      else rc = NXT_OK \<and> entries proto b = [new_entry lhq] \<and> blocks b = 1 \<and> mem' = lvl_alloc mem)"
    using new_bucket_spec [OF assms(1,2), of mem] r by (auto split: if_splits)
  note a = chain_append_ok [OF assms(4), of b]
  have "chain_append s b \<noteq> Null" using assms(5) a b by (metis add_is_0 blocks_eq_0)
  moreover have "grown (Suc k) s mem (chain_append s b) mem'" using a b by (auto simp: grown_def split: if_splits)
  ultimately show ?thesis
    unfolding ins insert_spec_def split_conv assms(7) list.case
    using a b assms(8) by (auto simp: slot_ok_chain split: if_splits)
qed

lemma bucket_insert_spec:
  assumes "proto_ok proto" and "lq_value lhq \<noteq> None" and "slot_ok proto n s" and "chain_ok proto s" and "s \<noteq> Null"
    and "\<And>t lvl mem. slot_ok proto n (Level t lvl) \<Longrightarrow>
      insert_spec proto lhq n (insert_cost proto (n + 1)) (Level t lvl) mem
        (nxt_lvlhsh_level_insert proto lhq (Level t lvl) (drop_bit (shift_sum proto n) (key_hash lhq)) n mem)"
  shows "insert_spec proto lhq n (insert_cost proto n) s mem
    (nxt_lvlhsh_bucket_insert proto lhq s (drop_bit (shift_sum proto n) (key_hash lhq)) n mem)"
proof (cases "insert_bucket_loop proto lhq s 0 None")
  case (Duplicate d i)
  then show ?thesis by (rule bucket_insert_duplicate [OF assms(1-5)])
next
  case (Vacant d i)
  then show ?thesis by (rule bucket_insert_vacant [OF assms(1-5)])
next
  case Full
  have h: "hits proto lhq s = []" using insert_bucket_no_duplicate [OF assms(1,4), of lhq 0 None] Full by simp
  show ?thesis
  proof (cases "level_shift proto n = 0")
    case True
    then show ?thesis using bucket_insert_chain [OF assms(1-5) Full h] by (simp add: insert_cost_def)
  next
    case False
    then show ?thesis by (rule bucket_insert_full [OF assms(1-5) Full h _ assms(6)])
  qed
qed

lemma level_insert_null:
  assumes "proto_ok proto" and "lq_value lhq \<noteq> None" and "slot_ok proto n (Level t lvl)"
    and "lvl ! key_slot proto n (key_hash lhq) = Null"
  shows "insert_spec proto lhq n (Suc k) (Level t lvl) mem
    (nxt_lvlhsh_level_insert proto lhq (Level t lvl) (drop_bit (shift_sum proto n) (key_hash lhq)) n mem)"
proof -
  let ?i = "key_slot proto n (key_hash lhq)"
  have i: "?i < length lvl" by (rule key_slot_level [OF assms(1,3)])
  have n: "n < 8" using assms(3) level_shift_high [OF assms(1), of n] by (cases "n < 8") (auto simp: slot_ok_Level)
  have h: "hits proto lhq (Level t lvl) = []" using level_hits(3) [OF assms(1,3) refl] assms(4) by simp
  show ?thesis
  proof (cases "m_avail mem = 0")
    case True
    with new_bucket_spec [OF assms(1,2), of mem] show ?thesis
      unfolding level_insert_step [OF n i] insert_spec_def h using assms(3,4) by simp
  next
    case False
    with new_bucket_spec [OF assms(1,2), of mem] obtain b where
      b: "nxt_lvlhsh_new_bucket proto lhq mem = (NXT_OK, b, lvl_alloc mem)" "chain_ok proto b"
        "entries proto b = [new_entry lhq]" "blocks b = 1" by auto
    have "b \<noteq> Null" using b(4) by auto
    then have "nxt_lvlhsh_count_inc t = 2 * used_slots (lvl[?i := b])"
      using used_slots_update [OF i, of b] assms(3,4) by (simp add: slot_ok_Level nxt_lvlhsh_count_inc_def)
    moreover from this have "slot_ok proto n (Level (nxt_lvlhsh_count_inc t) (lvl[?i := b]))"
      using b by (intro slot_ok_update [OF assms(3) i]) (auto simp: slot_ok_chain nxt_lvlhsh_count_inc_def)
    moreover have "grown (Suc k) (Level t lvl) mem (Level (nxt_lvlhsh_count_inc t) (lvl[?i := b])) (lvl_alloc mem)"
      using b(4) assms(4) by (intro grown_mono [OF grown_level [OF i grown_alloc [OF False]]]) simp_all
    moreover have "mset (entries proto (Level (nxt_lvlhsh_count_inc t) (lvl[?i := b]))) =
        add_mset (new_entry lhq) (mset (entries proto (Level t lvl)))"
      using level_entries_mset [OF i, of proto "nxt_lvlhsh_count_inc t" b t] assms(4) b(3) by (simp del: entries.simps(3))
    ultimately show ?thesis
      unfolding level_insert_step [OF n i] insert_spec_def h using assms(4) b(1) by (simp del: entries.simps(3))
  qed
qed

lemma level_insert_spec:
  assumes "proto_ok proto" and "lq_value lhq \<noteq> None"
  shows "slot_ok proto n (Level t lvl) \<Longrightarrow>
    insert_spec proto lhq n (insert_cost proto (n + 1)) (Level t lvl) mem
      (nxt_lvlhsh_level_insert proto lhq (Level t lvl) (drop_bit (shift_sum proto n) (key_hash lhq)) n mem)"
proof (induction "8 - n" arbitrary: n t lvl mem rule: less_induct)
  case less
  let ?i = "key_slot proto n (key_hash lhq)"
  have i: "?i < length lvl" by (rule key_slot_level [OF assms(1) less.prems])
  have n: "n < 8" using less.prems level_shift_high [OF assms(1), of n] by (cases "n < 8") (auto simp: slot_ok_Level)
  have ok: "slot_ok proto (n + 1) (lvl ! ?i)" using less.prems i by (simp add: slot_ok_Level)
  have IH: "insert_spec proto lhq (n + 1) (insert_cost proto (n + 1 + 1)) (Level t lvl) mem
      (nxt_lvlhsh_level_insert proto lhq (Level t lvl) (drop_bit (shift_sum proto (n + 1)) (key_hash lhq)) (n + 1) mem)"
    if "slot_ok proto (n + 1) (Level t lvl)" for t lvl mem
    using less.hyps [of "n + 1", OF _ that] n by simp
  note step = level_insert_step [OF n i, of lhq t mem] and lift = insert_lift [OF assms(1) less.prems refl]
  show ?case
  proof (cases "lvl ! ?i")
    case Null
    then show ?thesis using level_insert_null [OF assms less.prems] by (simp add: insert_cost_def)
  next
    case (Bucket t' es nx)
    then have "chain_ok proto (lvl ! ?i)" "lvl ! ?i \<noteq> Null" using ok by simp_all
    note b = bucket_insert_spec [OF assms ok this IH, of mem]
    obtain rc s v mem' where r: "nxt_lvlhsh_bucket_insert proto lhq (lvl ! ?i)
        (drop_bit (shift_sum proto (n + 1)) (key_hash lhq)) (n + 1) mem = (rc, s, v, mem')" by (metis prod_cases4)
    show ?thesis using lift [OF _ b [unfolded r]] Bucket r step by simp
  next
    case (Level t' lvl')
    note b = IH [OF ok [unfolded Level], of mem]
    obtain rc s v mem' where r: "nxt_lvlhsh_level_insert proto lhq (Level t' lvl')
        (drop_bit (shift_sum proto (n + 1)) (key_hash lhq)) (n + 1) mem = (rc, s, v, mem')" by (metis prod_cases4)
    have "insert_cost proto (n + 1 + 1) \<le> insert_cost proto (n + 1)" by (rule insert_cost_mono) simp
    from insert_spec_mono [OF b [unfolded r] this] lift [of lhq "insert_cost proto (n + 1)" mem rc s v mem'] Level r step
    show ?thesis by simp
  qed
qed

lemma insert_ok:
  assumes "proto_ok proto" and "lq_value lhq \<noteq> None" and "slot_ok proto 0 s"
  shows "insert_spec proto lhq 0 (insert_cost proto 0) s mem (nxt_lvlhsh_insert proto lhq s mem)"
proof (cases s)
  case Null
  have c: "0 < insert_cost proto 0" by (simp add: insert_cost_def)
  show ?thesis
    using new_bucket_spec [OF assms(1,2), of mem] Null c
    by (auto simp: nxt_lvlhsh_insert_def insert_spec_def grown_def slot_ok_chain split: if_splits)
next
  case (Bucket t es nx)
  then have "chain_ok proto s" "s \<noteq> Null" using assms(3) by simp_all
  from bucket_insert_spec [OF assms this level_insert_spec [OF assms(1,2)], of mem] Bucket show ?thesis
    by (simp add: nxt_lvlhsh_insert_def)
next
  case (Level t lvl)
  with level_insert_spec [OF assms(1,2), of 0 t lvl mem] assms(3)
  have "insert_spec proto lhq 0 (insert_cost proto 1) s mem (nxt_lvlhsh_insert proto lhq s mem)"
    by (simp add: nxt_lvlhsh_insert_def)
  then show ?thesis by (rule insert_spec_mono) (rule insert_cost_mono, simp)
qed

text \<open>With enough memory an insertion does not fail.\<close>

lemma insert_succeeds:
  assumes "insert_spec proto lhq n k s mem (rc, s', v, mem')" and "k < m_avail mem"
  shows "rc \<noteq> NXT_ERROR"
  using assms by (auto simp: insert_spec_def grown_def split: list.splits if_splits)

end
