(* ===== verification/Nxt_Lvlhsh_Each.thy ===== *)
theory Nxt_Lvlhsh_Each
  imports Nxt_Lvlhsh_Insert
begin

text \<open>
  Iteration over the level hash.  The state of the iterator stands for the list of the entries
  that are still to come: the rest of the current chain of buckets, and what lies behind the path
  through the levels that \<open>lhe_current\<close> holds.  Every call returns the first of them and leaves
  the others.
\<close>

section \<open>Chains\<close>

definition chain_rest :: "('k, 'v) lvlhsh_proto \<Rightarrow> 'v lvlhsh_each \<Rightarrow> 'v entry list" where
  "chain_rest proto lhe =
     (case lhe_bucket lhe of
        In_bucket es nx \<Rightarrow> take (lhe_entries lhe) (filter valid (drop (lhe_entry lhe) es)) @ entries proto nx
      | _ \<Rightarrow> [])"

definition each_bucket_ok :: "('k, 'v) lvlhsh_proto \<Rightarrow> 'v lvlhsh_each \<Rightarrow> bool" where
  "each_bucket_ok proto lhe \<longleftrightarrow>
     (case lhe_bucket lhe of
        In_bucket es nx \<Rightarrow> 0 < lhe_entries lhe \<and> lhe_entries lhe \<le> length (filter valid (drop (lhe_entry lhe) es)) \<and> chain_ok proto nx
      | Bucket_done \<Rightarrow> True
      | No_bucket \<Rightarrow> False)"

abbreviation enter :: "('k, 'v) lvlhsh_proto \<Rightarrow> nat \<Rightarrow> 'v entry list \<Rightarrow> 'v slot \<Rightarrow> 'v lvlhsh_each \<Rightarrow> 'v lvlhsh_each" where
  "enter proto t es nx lhe \<equiv>
     lhe\<lparr>lhe_bucket := In_bucket es nx, lhe_entries := nxt_lvlhsh_bucket_entries proto t, lhe_entry := 0\<rparr>"

lemma enter_chain:
  assumes "proto_ok proto" and "chain_ok proto (Bucket t es nx)"
  shows "each_bucket_ok proto (enter proto t es nx lhe)" and "chain_rest proto (enter proto t es nx lhe) = entries proto (Bucket t es nx)"
  using assms bucket_ok_tag [OF assms(1), of t es] by (auto simp: each_bucket_ok_def chain_rest_def)

lemma bucket_each_step:
  assumes "proto_ok proto" and "each_bucket_ok proto lhe" and "lhe_bucket lhe = In_bucket es nx"
  obtains lhe' where "nxt_lvlhsh_bucket_each proto lhe = (first_value (chain_rest proto lhe), lhe')"
    and "chain_rest proto lhe \<noteq> []" and "chain_rest proto lhe' = tl (chain_rest proto lhe)"
    and "each_bucket_ok proto lhe'" and "lhe_current lhe' = lhe_current lhe"
proof -
  let ?d = "drop (lhe_entry lhe) es" and ?n = "lhe_entries lhe"
  have n: "0 < ?n" "?n \<le> length (filter valid ?d)" "chain_ok proto nx" using assms(2,3) by (simp_all add: each_bucket_ok_def)
  let ?a = "takeWhile (\<lambda>e. \<not> valid e) ?d"
  have "filter valid ?d \<noteq> []" using n by auto
  then obtain x b where es: "?d = ?a @ x # b" and f: "filter valid ?d = x # filter valid b" by (rule first_valid)
  let ?i = "lhe_entry lhe + length ?a"
  have "length ?d \<noteq> 0" using es by (metis append_is_Nil_conv length_0_conv list.distinct(1))
  then have "es ! ?i = ?d ! length ?a" by simp
  also have "\<dots> = x" using es by (metis nth_append_length)
  finally have nth: "es ! ?i = x" .
  have "drop (?i + 1) es = drop (Suc (length ?a)) ?d" by (simp add: ac_simps)
  also have "\<dots> = b" using es by (metis append_eq_conv_conj drop_Suc list.sel(3) tl_drop)
  finally have rest: "drop (?i + 1) es = b" .
  have r: "chain_rest proto lhe = x # take (?n - 1) (filter valid b) @ entries proto nx"
    using assms(3) f n(1) by (simp add: chain_rest_def take_Cons')
  define lhe' where "lhe' = snd (nxt_lvlhsh_bucket_each proto lhe)"
  have e: "nxt_lvlhsh_bucket_each proto lhe = (first_value (chain_rest proto lhe), lhe')"
    unfolding lhe'_def r using assms(3) nth by (simp add: nxt_lvlhsh_bucket_each_def Let_def)
  have "chain_rest proto lhe' = tl (chain_rest proto lhe) \<and> each_bucket_ok proto lhe' \<and> lhe_current lhe' = lhe_current lhe"
  proof (cases "?n = 1")
    case True
    show ?thesis
    proof (cases nx)
      case (Bucket t' es' nx')
      have "lhe' = enter proto t' es' nx' lhe"
        using True Bucket assms(3) by (simp add: lhe'_def nxt_lvlhsh_bucket_each_def Let_def)
      with enter_chain [OF assms(1) n(3) [unfolded Bucket], of lhe] show ?thesis using r True Bucket by simp
    qed (use True r assms(3) n(3) in \<open>simp_all add: lhe'_def nxt_lvlhsh_bucket_each_def Let_def chain_rest_def each_bucket_ok_def\<close>)
  next
    case False
    then have "lhe' = lhe\<lparr>lhe_entry := ?i + 1, lhe_entries := ?n - 1\<rparr>"
      using assms(3) n(1) by (simp add: lhe'_def nxt_lvlhsh_bucket_each_def Let_def)
    with False r rest f n assms(3) show ?thesis by (auto simp: chain_rest_def each_bucket_ok_def)
  qed
  with e r show ?thesis using that by simp
qed

section \<open>Paths\<close>

text \<open>The condition that the bits of all levels fit into \<open>lhe_current\<close>.\<close>

definition each_proto_ok :: "('k, 'v) lvlhsh_proto \<Rightarrow> bool" where
  "each_proto_ok proto \<longleftrightarrow> proto_ok proto \<and> shift_sum proto 8 \<le> 32"

lemma shift_sum_mono: "m \<le> n \<Longrightarrow> shift_sum proto m \<le> shift_sum proto n"
  by (induction n) (auto simp: le_Suc_eq shift_sum_Suc)

lemma shift_sum_le:
  assumes "each_proto_ok proto" and "level_shift proto n \<noteq> 0"
  shows "shift_sum proto n + level_shift proto n \<le> 32" and "shift_sum proto n < 32" and "level_shift proto n < 32"
proof -
  have p: "proto_ok proto" using assms(1) by (simp add: each_proto_ok_def)
  have "n < 8" using assms(2) level_shift_high [OF p, of n] by (cases "n < 8") auto
  then have "shift_sum proto (Suc n) \<le> 32"
    using shift_sum_mono [of "Suc n" 8 proto] assms(1) by (simp add: each_proto_ok_def)
  then show "shift_sum proto n + level_shift proto n \<le> 32" by (simp add: shift_sum_Suc)
  then show "shift_sum proto n < 32" "level_shift proto n < 32" using assms(2) level_shift_less [OF p] by simp_all
qed

lemma each_index_key_slot: "each_index proto lhe n (shift_sum proto n) = key_slot proto n (lhe_current lhe)"
  by (simp add: each_index_def key_slot_def level_index_def)

lemma key_slot_bits:
  "proto_ok proto \<Longrightarrow> key_slot proto n key = unat (take_bit (level_shift proto n) (drop_bit (shift_sum proto n) key))"
  by (simp add: key_slot_def level_index_def mask_eq_exp_minus_1 [symmetric] take_bit_eq_mask [symmetric])

lemma key_slot_low:
  assumes "proto_ok proto" and "take_bit (shift_sum proto (Suc n)) a = take_bit (shift_sum proto (Suc n)) b"
  shows "key_slot proto n a = key_slot proto n b"
proof -
  have "take_bit (level_shift proto n) (drop_bit (shift_sum proto n) k) =
      drop_bit (shift_sum proto n) (take_bit (shift_sum proto (Suc n)) k)" for k :: uint32
    by (simp add: shift_sum_Suc drop_bit_take_bit)
  then show ?thesis using assms(2) by (simp add: key_slot_bits [OF assms(1)])
qed

lemma zero_bits: "drop_bit n (c :: uint32) = 0 \<Longrightarrow> n \<le> k \<Longrightarrow> \<not> bit c k"
proof -
  assume "drop_bit n c = 0" "n \<le> k"
  then have "\<not> bit (drop_bit n c) (k - n)" by simp
  then show ?thesis using \<open>n \<le> k\<close> by (simp add: bit_drop_bit_eq)
qed

text \<open>One step of the index.\<close>

lemma step_bits:
  fixes c w :: uint32
  assumes "sh + bits \<le> 32" and "sh < 32" and "bits < 32" and "drop_bit (sh + bits) c = 0" and "take_bit bits w = w"
  defines "c' \<equiv> (c AND NOT (push_bit sh (2 ^ bits - 1))) OR push_bit sh w"
  shows "take_bit sh c' = take_bit sh c" and "drop_bit sh c' = w" and "drop_bit (sh + bits) c' = 0"
    and "push_bit sh w = 0 \<longleftrightarrow> w = 0"
proof -
  have m: "(2 ^ bits - 1 :: uint32) = mask bits" by (simp add: mask_eq_exp_minus_1)
  have z: "k < sh + bits" if "bit c k" for k using zero_bits [OF assms(4), of k] that by fastforce
  have wz: "k < bits" if "bit w k" for k using that assms(5) by (metis bit_take_bit_iff)
  have clear: "c AND NOT (push_bit sh (mask bits)) = take_bit sh c"
    by (rule bit_word_eqI) (auto simp: bit_simps dest: z)
  have pw: "drop_bit sh (push_bit sh w) = w"
    by (rule bit_word_eqI) (use assms(1) in \<open>auto simp: bit_simps dest: wz\<close>)
  show "push_bit sh w = 0 \<longleftrightarrow> w = 0" using pw by (metis drop_bit_of_0 push_bit_of_0)
  show "take_bit sh c' = take_bit sh c"
    unfolding c'_def m clear by (rule bit_word_eqI) (auto simp: bit_simps)
  show d: "drop_bit sh c' = w"
    unfolding c'_def m clear using pw by (simp add: drop_bit_or drop_bit_take_bit)
  have "drop_bit (sh + bits) c' = drop_bit bits (drop_bit sh c')" by (simp add: ac_simps)
  also have "\<dots> = drop_bit bits (take_bit bits w)" using d assms(5) by simp
  finally show "drop_bit (sh + bits) c' = 0" by (simp add: drop_bit_take_bit)
qed

lemma each_next_step:
  assumes "each_proto_ok proto" and "level_shift proto n \<noteq> 0"
    and "drop_bit (shift_sum proto (Suc n)) (lhe_current lhe) = 0" and "i = key_slot proto n (lhe_current lhe)"
  obtains f c where "each_next proto lhe i n (shift_sum proto n) = (f, lhe\<lparr>lhe_current := c\<rparr>)"
    and "f = 0 \<longleftrightarrow> Suc i = 2 ^ level_shift proto n"
    and "take_bit (shift_sum proto n) c = take_bit (shift_sum proto n) (lhe_current lhe)"
    and "Suc i = 2 ^ level_shift proto n \<Longrightarrow> c = take_bit (shift_sum proto n) (lhe_current lhe)"
    and "Suc i \<noteq> 2 ^ level_shift proto n \<Longrightarrow> key_slot proto n c = Suc i \<and> drop_bit (shift_sum proto (Suc n)) c = 0"
proof -
  let ?sh = "shift_sum proto n" and ?b = "level_shift proto n"
  have p: "proto_ok proto" using assms(1) by (simp add: each_proto_ok_def)
  note le = shift_sum_le [OF assms(1,2)]
  define w :: uint32 where "w = (of_nat i + 1) AND (2 ^ ?b - 1)"
  have wb: "w = take_bit ?b (of_nat (Suc i))"
    unfolding w_def by (simp add: mask_eq_exp_minus_1 [symmetric] take_bit_eq_mask [symmetric] add.commute)
  have i: "i < 2 ^ ?b" using key_slot_less [OF p, of n "lhe_current lhe"] assms(4) by simp
  have "(2 :: nat) ^ ?b < 2 ^ 32" using le(3) by (intro power_strict_increasing) simp_all
  then have "unat (of_nat (Suc i) :: uint32) = Suc i" using i by (simp add: unat_of_nat take_bit_eq_mod del: of_nat_Suc)
  then have "take_bit ?b (unat (of_nat (Suc i) :: uint32)) = Suc i mod 2 ^ ?b" by (simp only: take_bit_eq_mod)
  then have w: "unat w = Suc i mod 2 ^ ?b" by (simp only: wb unsigned_take_bit_eq)
  let ?c = "(lhe_current lhe AND NOT (push_bit ?sh (2 ^ ?b - 1))) OR push_bit ?sh w"
  have d: "drop_bit (?sh + ?b) (lhe_current lhe) = 0" using assms(3) by (simp add: shift_sum_Suc)
  have "take_bit ?b w = w" by (simp add: wb)
  note s = step_bits [OF le(1) le(2) le(3) d this]
  have z: "w = 0 \<longleftrightarrow> Suc i = 2 ^ ?b"
    using w i by (metis Suc_lessI mod_less mod_self nat.distinct(1) unat_eq_zero)
  show ?thesis
  proof (rule that)
    show "each_next proto lhe i n ?sh = (push_bit ?sh w, lhe\<lparr>lhe_current := ?c\<rparr>)"
      by (simp add: each_next_def w_def Let_def)
    show "push_bit ?sh w = 0 \<longleftrightarrow> Suc i = 2 ^ ?b" using s(4) z by simp
    show "take_bit ?sh ?c = take_bit ?sh (lhe_current lhe)" by (rule s(1))
    show "?c = take_bit ?sh (lhe_current lhe)" if "Suc i = 2 ^ ?b"
      using s(1,2) that z by (metis take_bit_eq_self_iff_drop_bit_eq_0)
    show "key_slot proto n ?c = Suc i \<and> drop_bit (shift_sum proto (Suc n)) ?c = 0" if "Suc i \<noteq> 2 ^ ?b"
      using s(2,3) \<open>take_bit ?b w = w\<close> w i that by (simp add: key_slot_bits [OF p] shift_sum_Suc)
  qed
qed

lemma size_slot_less [termination_simp]: "i < length lvl \<Longrightarrow> size (lvl ! i) < Suc (size_list size lvl)"
  using size_list_estimation' [of "lvl ! i" lvl "size (lvl ! i)" size] by (simp add: less_Suc_eq_le)

text \<open>The path leads to a chain of buckets, and no bit is set behind it.\<close>

fun path_ok :: "('k, 'v) lvlhsh_proto \<Rightarrow> nat \<Rightarrow> uint32 \<Rightarrow> 'v slot \<Rightarrow> bool" where
  "path_ok proto n c Null \<longleftrightarrow> False"
| "path_ok proto n c (Bucket t es nx) \<longleftrightarrow> drop_bit (shift_sum proto n) c = 0"
| "path_ok proto n c (Level t lvl) \<longleftrightarrow>
     (if key_slot proto n c < length lvl then path_ok proto (n + 1) c (lvl ! key_slot proto n c) else False)"

text \<open>The entries of the slots behind the path.\<close>

fun path_after :: "('k, 'v) lvlhsh_proto \<Rightarrow> nat \<Rightarrow> uint32 \<Rightarrow> 'v slot \<Rightarrow> 'v entry list" where
  "path_after proto n c (Level t lvl) =
     (if key_slot proto n c < length lvl
      then path_after proto (n + 1) c (lvl ! key_slot proto n c) @ after_slot proto lvl (key_slot proto n c) else [])"
| "path_after proto n c _ = []"

section \<open>The loop over a level\<close>

text \<open>The entries that are still to come in a slot, and the state in which it is entered.\<close>

definition slot_rest :: "('k, 'v) lvlhsh_proto \<Rightarrow> nat \<Rightarrow> 'v slot \<Rightarrow> 'v lvlhsh_each \<Rightarrow> 'v entry list" where
  "slot_rest proto n s lhe =
     (if lhe_bucket lhe = Bucket_done then path_after proto n (lhe_current lhe) s else entries proto s)"

definition slot_enter :: "('k, 'v) lvlhsh_proto \<Rightarrow> nat \<Rightarrow> 'v slot \<Rightarrow> 'v lvlhsh_each \<Rightarrow> bool" where
  "slot_enter proto n s lhe \<longleftrightarrow>
     (case lhe_bucket lhe of
        Bucket_done \<Rightarrow> path_ok proto n (lhe_current lhe) s
      | No_bucket \<Rightarrow> drop_bit (shift_sum proto n) (lhe_current lhe) = 0
      | In_bucket es nx \<Rightarrow> False)"

text \<open>The result for a slot of which the entries \<open>es\<close> are still to come, when \<open>c\<close> was the path.\<close>

definition slot_result ::
  "('k, 'v) lvlhsh_proto \<Rightarrow> nat \<Rightarrow> 'v slot \<Rightarrow> uint32 \<Rightarrow> 'v entry list \<Rightarrow> 'v option \<times> 'v lvlhsh_each \<Rightarrow> bool" where
  "slot_result proto n s c es r \<longleftrightarrow>
     (case r of (v, lhe) \<Rightarrow>
        v = first_value es \<and> take_bit (shift_sum proto n) (lhe_current lhe) = take_bit (shift_sum proto n) c \<and>
        (if es = [] then lhe_bucket lhe = No_bucket \<and> lhe_current lhe = take_bit (shift_sum proto n) c
         else each_bucket_ok proto lhe \<and> path_ok proto n (lhe_current lhe) s \<and>
           chain_rest proto lhe @ path_after proto n (lhe_current lhe) s = tl es))"

text \<open>What the loop does with one slot.\<close>

definition each_slot ::
  "('k, 'v) lvlhsh_proto \<Rightarrow> nat \<Rightarrow> 'v slot \<Rightarrow> 'v lvlhsh_each \<Rightarrow> ('v option \<times> 'v lvlhsh_each) option" where
  "each_slot proto n s lhe =
     (case s of
        Null \<Rightarrow> Some (None, lhe)
      | Bucket t es nx \<Rightarrow>
          Some (if lhe_bucket lhe \<noteq> Bucket_done then nxt_lvlhsh_bucket_each proto (enter proto t es nx lhe)
                else (None, lhe\<lparr>lhe_bucket := No_bucket\<rparr>))
      | Level t lvl \<Rightarrow> nxt_lvlhsh_level_each proto lhe lvl n (shift_sum proto n))"

lemma level_each_step:
  assumes "key_slot proto n (lhe_current lhe) < length lvl"
  shows "nxt_lvlhsh_level_each proto lhe lvl n (shift_sum proto n) =
    Option.bind (each_slot proto (n + 1) (lvl ! key_slot proto n (lhe_current lhe)) lhe)
      (\<lambda>r. case r of
         (Some v, lhe) \<Rightarrow> Some (Some v, lhe)
       | (None, lhe') \<Rightarrow>
           (case each_next proto lhe' (key_slot proto n (lhe_current lhe)) n (shift_sum proto n) of
              (f, lhe) \<Rightarrow> if f = 0 then Some (None, lhe) else nxt_lvlhsh_level_each proto lhe lvl n (shift_sum proto n)))"
  by (subst nxt_lvlhsh_level_each.simps)
    (simp add: assms each_index_key_slot each_slot_def Let_def shift_sum_Suc split: slot.split)

lemma each_slot_Bucket:
  assumes "proto_ok proto" and "slot_ok proto n (Bucket t es nx)" and "slot_enter proto n (Bucket t es nx) lhe"
  shows "\<exists>r. each_slot proto n (Bucket t es nx) lhe = Some r \<and>
    slot_result proto n (Bucket t es nx) (lhe_current lhe) (slot_rest proto n (Bucket t es nx) lhe) r"
proof (cases "lhe_bucket lhe")
  case No_bucket
  have c: "chain_ok proto (Bucket t es nx)" using assms(2) by simp
  obtain lhe' where "nxt_lvlhsh_bucket_each proto (enter proto t es nx lhe) = (first_value (entries proto (Bucket t es nx)), lhe')"
    "entries proto (Bucket t es nx) \<noteq> []" "chain_rest proto lhe' = tl (entries proto (Bucket t es nx))"
    "each_bucket_ok proto lhe'" "lhe_current lhe' = lhe_current (enter proto t es nx lhe)"
  proof (rule bucket_each_step [OF assms(1) enter_chain(1) [OF assms(1) c, of lhe]])
    show "lhe_bucket (enter proto t es nx lhe) = In_bucket es nx" by simp
  qed (unfold enter_chain(2) [OF assms(1) c], rule that)
  with No_bucket assms(3) show ?thesis
    by (simp add: each_slot_def slot_result_def slot_rest_def slot_enter_def del: entries.simps)
qed (use assms(3) in \<open>auto simp: each_slot_def slot_result_def slot_rest_def slot_enter_def first_value_def
    take_bit_eq_self_iff_drop_bit_eq_0 [symmetric]\<close>)

lemma path_after_valid: "e \<in> set (path_after proto n c s) \<Longrightarrow> valid e"
  by (induction proto n c s rule: path_after.induct)
    (auto simp: after_slot_def split: if_splits dest: entries_valid)

lemma slot_rest_value: "slot_rest proto n s lhe \<noteq> [] \<Longrightarrow> first_value (slot_rest proto n s lhe @ es) \<noteq> None"
proof -
  assume "slot_rest proto n s lhe \<noteq> []"
  then obtain e es' where e: "slot_rest proto n s lhe = e # es'" by (meson list.exhaust)
  then have "e \<in> set (slot_rest proto n s lhe)" by simp
  then have "valid e" unfolding slot_rest_def by (auto split: if_splits dest: entries_valid path_after_valid)
  then show ?thesis by (simp add: e nxt_lvlhsh_valid_entry_def)
qed

lemma slot_result_cong:
  "take_bit (shift_sum proto n) c = take_bit (shift_sum proto n) c' \<Longrightarrow> slot_result proto n s c es r \<longleftrightarrow> slot_result proto n s c' es r"
  by (simp add: slot_result_def)

lemma take_bit_low: "take_bit (shift_sum proto n) (take_bit (shift_sum proto (Suc n)) c) = take_bit (shift_sum proto n) (c :: uint32)"
  by (simp add: shift_sum_Suc)

lemma slot_result_lift:
  assumes "proto_ok proto" and "i < length lvl" and "i = key_slot proto n c"
    and "slot_result proto (n + 1) (lvl ! i) c es r" and "es \<noteq> []"
  shows "slot_result proto n (Level t lvl) c (es @ after_slot proto lvl i) r"
proof -
  obtain v lhe where r: "r = (v, lhe)" by (cases r)
  have low: "take_bit (shift_sum proto (Suc n)) (lhe_current lhe) = take_bit (shift_sum proto (Suc n)) c"
    using assms(4) r by (simp add: slot_result_def)
  then have k: "key_slot proto n (lhe_current lhe) = i" using key_slot_low [OF assms(1)] assms(3) by metis
  have "take_bit (shift_sum proto n) (lhe_current lhe) = take_bit (shift_sum proto n) c"
    using low by (metis take_bit_low)
  then show ?thesis
    using assms(2,4,5) r k by (auto simp: slot_result_def first_value_append simp flip: append.assoc)
qed

text \<open>What a slot of a level gives, when the levels below are as stated.\<close>

abbreviation each_slot_ok :: "('k, 'v) lvlhsh_proto \<Rightarrow> nat \<Rightarrow> 'v slot \<Rightarrow> 'v lvlhsh_each \<Rightarrow> bool" where
  "each_slot_ok proto n s lhe \<equiv>
     (\<exists>r. each_slot proto n s lhe = Some r \<and> slot_result proto n s (lhe_current lhe) (slot_rest proto n s lhe) r)"

lemma each_slot_any:
  assumes "proto_ok proto" and "slot_ok proto n s" and "slot_enter proto n s lhe"
    and "\<And>t lvl. s = Level t lvl \<Longrightarrow> each_slot_ok proto n s lhe"
  shows "each_slot_ok proto n s lhe"
proof (cases s)
  case Null
  with assms(3) show ?thesis
    by (auto simp: slot_enter_def each_slot_def slot_result_def slot_rest_def first_value_def
        take_bit_eq_self_iff_drop_bit_eq_0 [symmetric] split: each_bucket.splits)
next
  case (Bucket t es nx)
  with each_slot_Bucket [OF assms(1)] assms(2,3) show ?thesis by metis
next
  case (Level t lvl)
  then show ?thesis by (rule assms(4))
qed

text \<open>The loop goes on to the next slot, or ends.\<close>

lemma level_each_next:
  assumes "each_proto_ok proto" and "slot_ok proto n (Level t lvl)" and "i = key_slot proto n (lhe_current lhe)" and "i < length lvl"
    and "each_slot proto (n + 1) (lvl ! i) lhe = Some (None, lhe1)" and "lhe_bucket lhe1 = No_bucket"
    and "lhe_current lhe1 = take_bit (shift_sum proto (Suc n)) (lhe_current lhe)"
  obtains c where "take_bit (shift_sum proto n) c = take_bit (shift_sum proto n) (lhe_current lhe)"
    and "Suc i = length lvl \<Longrightarrow> c = take_bit (shift_sum proto n) (lhe_current lhe) \<and>
      nxt_lvlhsh_level_each proto lhe lvl n (shift_sum proto n) = Some (None, lhe1\<lparr>lhe_current := c\<rparr>)"
    and "Suc i \<noteq> length lvl \<Longrightarrow> key_slot proto n c = Suc i \<and> drop_bit (shift_sum proto (Suc n)) c = 0 \<and>
      nxt_lvlhsh_level_each proto lhe lvl n (shift_sum proto n) =
        nxt_lvlhsh_level_each proto (lhe1\<lparr>lhe_current := c\<rparr>) lvl n (shift_sum proto n)"
proof -
  have p: "proto_ok proto" using assms(1) by (simp add: each_proto_ok_def)
  have l: "level_shift proto n \<noteq> 0" "length lvl = 2 ^ level_shift proto n" using assms(2) by (auto simp: slot_ok_Level)
  have k: "i = key_slot proto n (lhe_current lhe1)"
    using assms(3,7) key_slot_low [OF p, of n "lhe_current lhe1" "lhe_current lhe"] by simp
  have d: "drop_bit (shift_sum proto (Suc n)) (lhe_current lhe1) = 0" using assms(7) by (simp add: drop_bit_take_bit)
  note step = level_each_step [OF assms(4) [unfolded assms(3)], folded assms(3), unfolded assms(5)]
  show ?thesis
  proof (rule each_next_step [OF assms(1) l(1) d k], rule that)
    fix f c
    assume nx: "each_next proto lhe1 i n (shift_sum proto n) = (f, lhe1\<lparr>lhe_current := c\<rparr>)"
      and c: "f = 0 \<longleftrightarrow> Suc i = 2 ^ level_shift proto n"
        "take_bit (shift_sum proto n) c = take_bit (shift_sum proto n) (lhe_current lhe1)"
        "Suc i = 2 ^ level_shift proto n \<Longrightarrow> c = take_bit (shift_sum proto n) (lhe_current lhe1)"
        "Suc i \<noteq> 2 ^ level_shift proto n \<Longrightarrow> key_slot proto n c = Suc i \<and> drop_bit (shift_sum proto (Suc n)) c = 0"
    show "take_bit (shift_sum proto n) c = take_bit (shift_sum proto n) (lhe_current lhe)"
      unfolding c(2) assms(7) by (rule take_bit_low)
    show "c = take_bit (shift_sum proto n) (lhe_current lhe) \<and>
        nxt_lvlhsh_level_each proto lhe lvl n (shift_sum proto n) = Some (None, lhe1\<lparr>lhe_current := c\<rparr>)" if "Suc i = length lvl"
      using that step nx c(1,3) l(2) assms(7) take_bit_low by simp
    show "key_slot proto n c = Suc i \<and> drop_bit (shift_sum proto (Suc n)) c = 0 \<and>
        nxt_lvlhsh_level_each proto lhe lvl n (shift_sum proto n) =
          nxt_lvlhsh_level_each proto (lhe1\<lparr>lhe_current := c\<rparr>) lvl n (shift_sum proto n)" if "Suc i \<noteq> length lvl"
      using that step nx c(1,4) l(2) by simp
  qed
qed

lemma level_loop:
  assumes "each_proto_ok proto" and "slot_ok proto n (Level t lvl)"
    and "\<And>t' lvl' lhe. Level t' lvl' \<in> set lvl \<Longrightarrow> slot_enter proto (n + 1) (Level t' lvl') lhe \<Longrightarrow>
      each_slot_ok proto (n + 1) (Level t' lvl') lhe"
  shows "i = key_slot proto n (lhe_current lhe) \<Longrightarrow> slot_enter proto (n + 1) (lvl ! i) lhe \<Longrightarrow>
    \<exists>r. nxt_lvlhsh_level_each proto lhe lvl n (shift_sum proto n) = Some r \<and>
      slot_result proto n (Level t lvl) (lhe_current lhe) (slot_rest proto (n + 1) (lvl ! i) lhe @ after_slot proto lvl i) r"
proof (induction "length lvl - i" arbitrary: i lhe rule: less_induct)
  case less
  have p: "proto_ok proto" using assms(1) by (simp add: each_proto_ok_def)
  have i: "i < length lvl" unfolding less.prems(1) by (rule key_slot_level [OF p assms(2)])
  let ?es = "slot_rest proto (n + 1) (lvl ! i) lhe"
  have "slot_ok proto (n + 1) (lvl ! i)" using assms(2) i by (simp add: slot_ok_Level)
  then have "each_slot_ok proto (n + 1) (lvl ! i) lhe"
  proof (rule each_slot_any [OF p _ less.prems(2)])
    show "each_slot_ok proto (n + 1) (lvl ! i) lhe" if "lvl ! i = Level t' lvl'" for t' lvl'
      using assms(3) less.prems(2) nth_mem [OF i] unfolding that by blast
  qed
  then obtain v lhe1 where s: "each_slot proto (n + 1) (lvl ! i) lhe = Some (v, lhe1)"
    and r: "slot_result proto (n + 1) (lvl ! i) (lhe_current lhe) ?es (v, lhe1)" by auto
  show ?case
  proof (cases "?es = []")
    case False
    then obtain x where "v = Some x" using r slot_rest_value [OF False, of "[]"] by (auto simp: slot_result_def)
    with slot_result_lift [OF p i less.prems(1) r False] show ?thesis
      using level_each_step [OF i [unfolded less.prems(1)], folded less.prems(1), unfolded s] by auto
  next
    case True
    have r1: "v = None" "lhe_bucket lhe1 = No_bucket" "lhe_current lhe1 = take_bit (shift_sum proto (Suc n)) (lhe_current lhe)"
      using r True by (simp_all add: slot_result_def first_value_def)
    obtain c where low: "take_bit (shift_sum proto n) c = take_bit (shift_sum proto n) (lhe_current lhe)"
      and last: "Suc i = length lvl \<Longrightarrow> c = take_bit (shift_sum proto n) (lhe_current lhe) \<and>
        nxt_lvlhsh_level_each proto lhe lvl n (shift_sum proto n) = Some (None, lhe1\<lparr>lhe_current := c\<rparr>)"
      and nx: "Suc i \<noteq> length lvl \<Longrightarrow> key_slot proto n c = Suc i \<and> drop_bit (shift_sum proto (Suc n)) c = 0 \<and>
        nxt_lvlhsh_level_each proto lhe lvl n (shift_sum proto n) =
          nxt_lvlhsh_level_each proto (lhe1\<lparr>lhe_current := c\<rparr>) lvl n (shift_sum proto n)"
      by (rule level_each_next [OF assms(1,2) less.prems(1) i s [unfolded r1(1)] r1(2,3)]) (rule that)
    let ?lhe = "lhe1\<lparr>lhe_current := c\<rparr>"
    show ?thesis
    proof (cases "Suc i = length lvl")
      case l: True
      then have "after_slot proto lvl i = []" by (simp add: after_slot_def)
      then show ?thesis using last [OF l] True r1(2) by (simp add: slot_result_def first_value_def)
    next
      case l: False
      have j: "Suc i < length lvl" using i l by simp
      have m: "length lvl - Suc i < length lvl - i" "Suc i = key_slot proto n (lhe_current ?lhe)"
        "slot_enter proto (n + 1) (lvl ! Suc i) ?lhe" using i nx [OF l] r1(2) by (simp_all add: slot_enter_def)
      have "slot_rest proto (n + 1) (lvl ! Suc i) ?lhe @ after_slot proto lvl (Suc i) = after_slot proto lvl i"
        using r1(2) Cons_nth_drop_Suc [OF j, symmetric] by (simp add: slot_rest_def after_slot_def)
      with less.hyps [OF m] nx [OF l] show ?thesis using True slot_result_cong [OF low] by simp
    qed
  qed
qed

section \<open>The whole hash\<close>

lemma key_slot_zero: "drop_bit (shift_sum proto n) c = 0 \<Longrightarrow> key_slot proto n c = 0"
  by (simp add: key_slot_def level_index_def)

lemma level_each_spec:
  assumes "each_proto_ok proto"
  shows "slot_ok proto n (Level t lvl) \<Longrightarrow> slot_enter proto n (Level t lvl) lhe \<Longrightarrow> each_slot_ok proto n (Level t lvl) lhe"
proof (induction "Level t lvl" arbitrary: t lvl n lhe rule: measure_induct_rule [where f = size])
  case less
  have p: "proto_ok proto" using assms by (simp add: each_proto_ok_def)
  let ?i = "key_slot proto n (lhe_current lhe)"
  have i: "?i < length lvl" by (rule key_slot_level [OF p less.prems(1)])
  have sub: "each_slot_ok proto (n + 1) (Level t' lvl') lhe"
    if m: "Level t' lvl' \<in> set lvl" and e: "slot_enter proto (n + 1) (Level t' lvl') lhe" for t' lvl' lhe
  proof (rule less.hyps [OF _ _ e])
    obtain k where k: "k < length lvl" "lvl ! k = Level t' lvl'" using m by (auto simp: in_set_conv_nth)
    show "size (Level t' lvl') < size (Level t lvl)" using size_nth [OF k] by simp
    show "slot_ok proto (n + 1) (Level t' lvl')" using less.prems(1) k by (metis slot_ok_Level)
  qed
  have e: "slot_enter proto (n + 1) (lvl ! ?i) lhe"
    using less.prems(2) i
    by (auto simp: slot_enter_def shift_sum_Suc add.commute simp flip: drop_bit_drop_bit split: each_bucket.splits)
  have "slot_rest proto n (Level t lvl) lhe = slot_rest proto (n + 1) (lvl ! ?i) lhe @ after_slot proto lvl ?i"
  proof (cases "lhe_bucket lhe = Bucket_done")
    case True
    then show ?thesis using i by (simp add: slot_rest_def)
  next
    case False
    then have "?i = 0" using less.prems(2) by (auto simp: slot_enter_def key_slot_zero split: each_bucket.splits)
    then show ?thesis
      using False level_entries_split [OF i, of proto t] by (simp add: slot_rest_def before_slot_def)
  qed
  with level_loop [OF assms less.prems(1) sub refl e] show ?case by (simp add: each_slot_def)
qed

text \<open>The entries that an iterator over a hash will still return.\<close>

definition each_rest :: "('k, 'v) lvlhsh_proto \<Rightarrow> 'v slot \<Rightarrow> 'v lvlhsh_each \<Rightarrow> 'v entry list" where
  "each_rest proto s lhe =
     (if lhe_bucket lhe = No_bucket then entries proto s
      else chain_rest proto lhe @ path_after proto 0 (lhe_current lhe) s)"

definition each_ok :: "('k, 'v) lvlhsh_proto \<Rightarrow> 'v slot \<Rightarrow> 'v lvlhsh_each \<Rightarrow> bool" where
  "each_ok proto s lhe \<longleftrightarrow>
     lhe_bucket lhe = No_bucket \<or>
     each_bucket_ok proto lhe \<and>
     (case s of Null \<Rightarrow> False | Bucket t es nx \<Rightarrow> True | Level t lvl \<Rightarrow> path_ok proto 0 (lhe_current lhe) s)"

definition each_stepped :: "('k, 'v) lvlhsh_proto \<Rightarrow> 'v slot \<Rightarrow> 'v entry list \<Rightarrow> ('v option \<times> 'v lvlhsh_each) option \<Rightarrow> bool" where
  "each_stepped proto s es r \<longleftrightarrow>
     (\<exists>lhe. r = Some (first_value es, lhe) \<and> (es \<noteq> [] \<longrightarrow> each_ok proto s lhe \<and> each_rest proto s lhe = tl es))"

lemma bucket_ok_entered: "each_bucket_ok proto lhe \<Longrightarrow> lhe_bucket lhe \<noteq> No_bucket"
  by (auto simp: each_bucket_ok_def)

lemma each_stepped_level:
  assumes "each_proto_ok proto" and "slot_ok proto 0 (Level t lvl)" and "slot_enter proto 0 (Level t lvl) lhe"
  shows "each_stepped proto (Level t lvl) (slot_rest proto 0 (Level t lvl) lhe) (nxt_lvlhsh_level_each proto lhe lvl 0 0)"
proof -
  obtain v lhe' where r: "nxt_lvlhsh_level_each proto lhe lvl 0 0 = Some (v, lhe')"
    "slot_result proto 0 (Level t lvl) (lhe_current lhe) (slot_rest proto 0 (Level t lvl) lhe) (v, lhe')"
    using level_each_spec [OF assms] by (auto simp: each_slot_def)
  with bucket_ok_entered [of proto lhe'] show ?thesis
    by (simp add: slot_result_def each_stepped_def each_ok_def each_rest_def del: path_ok.simps path_after.simps split: if_splits)
qed

lemma each_stepped_bucket:
  assumes "proto_ok proto" and "each_bucket_ok proto lhe" and "lhe_bucket lhe = In_bucket es nx"
    and "case s of Null \<Rightarrow> False | Bucket t es nx \<Rightarrow> True | Level t lvl \<Rightarrow> path_ok proto 0 (lhe_current lhe) s"
  shows "each_stepped proto s (chain_rest proto lhe @ path_after proto 0 (lhe_current lhe) s) (Some (nxt_lvlhsh_bucket_each proto lhe))"
proof (rule bucket_each_step [OF assms(1-3)])
  fix lhe'
  assume "nxt_lvlhsh_bucket_each proto lhe = (first_value (chain_rest proto lhe), lhe')"
    "chain_rest proto lhe \<noteq> []" "chain_rest proto lhe' = tl (chain_rest proto lhe)"
    "each_bucket_ok proto lhe'" "lhe_current lhe' = lhe_current lhe"
  with assms(4) bucket_ok_entered [of proto lhe'] show ?thesis
    by (cases s) (simp_all add: each_stepped_def each_ok_def each_rest_def first_value_append del: path_ok.simps(3) path_after.simps(1))
qed

lemma each_step:
  assumes "each_proto_ok proto" and "slot_ok proto 0 s" and "each_ok proto s lhe"
  shows "each_stepped proto s (each_rest proto s lhe) (nxt_lvlhsh_each proto s lhe)"
proof -
  have p: "proto_ok proto" using assms(1) by (simp add: each_proto_ok_def)
  show ?thesis
  proof (cases "lhe_bucket lhe")
    case No_bucket
    show ?thesis
    proof (cases s)
      case Null
      then show ?thesis using No_bucket by (simp add: nxt_lvlhsh_each_def each_stepped_def each_rest_def first_value_def)
    next
      case (Bucket t es nx)
      have c: "chain_ok proto (Bucket t es nx)" using assms(2) Bucket by simp
      from each_stepped_bucket [OF p enter_chain(1) [OF p c, of lhe], of es nx s] enter_chain(2) [OF p c, of lhe] Bucket No_bucket
      show ?thesis by (simp add: nxt_lvlhsh_each_def each_rest_def)
    next
      case (Level t lvl)
      from each_stepped_level [OF assms(1) assms(2) [unfolded Level], of "lhe\<lparr>lhe_current := 0\<rparr>"] Level No_bucket
      show ?thesis by (simp add: nxt_lvlhsh_each_def each_rest_def slot_enter_def slot_rest_def del: entries.simps)
    qed
  next
    case Bucket_done
    show ?thesis
    proof (cases s)
      case (Level t lvl)
      from each_stepped_level [OF assms(1) assms(2) [unfolded Level], of lhe] assms(3) Level Bucket_done
      show ?thesis
        by (simp add: nxt_lvlhsh_each_def each_rest_def slot_enter_def slot_rest_def each_ok_def chain_rest_def
            del: path_after.simps path_ok.simps)
    qed (use assms(3) Bucket_done in \<open>auto simp: nxt_lvlhsh_each_def each_stepped_def each_rest_def each_ok_def
        chain_rest_def first_value_def\<close>)
  next
    case (In_bucket es nx)
    with assms(3) each_stepped_bucket [OF p _ In_bucket, of s] show ?thesis
      by (simp add: nxt_lvlhsh_each_def each_rest_def each_ok_def)
  qed
qed

lemma each_rest_valid: "e \<in> set (each_rest proto s lhe) \<Longrightarrow> valid e"
  by (auto simp: each_rest_def chain_rest_def split: if_splits each_bucket.splits
      dest: entries_valid path_after_valid in_set_takeD)

text \<open>The loop with which the code visits all elements.\<close>

partial_function (option) each_loop ::
    "('k, 'v) lvlhsh_proto \<Rightarrow> 'v slot \<Rightarrow> 'v lvlhsh_each \<Rightarrow> 'v list option" where
  "each_loop proto s lhe =
     Option.bind (nxt_lvlhsh_each proto s lhe)
       (\<lambda>r. case r of
          (None, lhe) \<Rightarrow> Some []
        | (Some v, lhe) \<Rightarrow> Option.bind (each_loop proto s lhe) (\<lambda>vs. Some (v # vs)))"

lemma each_loop_rest:
  assumes "each_proto_ok proto" and "slot_ok proto 0 s"
  shows "each_ok proto s lhe \<Longrightarrow> each_loop proto s lhe = Some (map (\<lambda>e. the (entry_value e)) (each_rest proto s lhe))"
proof (induction "length (each_rest proto s lhe)" arbitrary: lhe)
  case 0
  with each_step [OF assms 0(2)] show ?case by (subst each_loop.simps) (auto simp: each_stepped_def first_value_def)
next
  case (Suc k)
  then obtain e es where e: "each_rest proto s lhe = e # es" by (metis length_Suc_conv)
  from each_step [OF assms Suc.prems] e obtain lhe' where
    l: "nxt_lvlhsh_each proto s lhe = Some (entry_value e, lhe')" "each_ok proto s lhe'" "each_rest proto s lhe' = es"
    by (auto simp: each_stepped_def)
  have "valid e" using e by (intro each_rest_valid [of e proto s lhe]) simp
  then obtain v where v: "entry_value e = Some v" by (auto simp: nxt_lvlhsh_valid_entry_def)
  have "k = length (each_rest proto s lhe')" using Suc.hyps(2) e l(3) by simp
  from Suc.hyps(1) [OF this l(2)] show ?case
    by (subst each_loop.simps) (simp add: l(1,3) v e)
qed

end
