(* ===== verification/Nxt_Lvlhsh_Map.thy ===== *)
theory Nxt_Lvlhsh_Map
  imports Nxt_Lvlhsh_Each
begin

text \<open>
  What the clients of the level hash rely on: a finite map from keys to values.  The interface is
  the locale \<open>keyed_store\<close>; the level hash is an instance of it for every prototype, hash
  function and function that gives the key of a value.  The properties of the level hash follow.
\<close>

section \<open>The interface\<close>

text \<open>
  The operations take a configuration \<open>c\<close> and a state.  An addition may fail for want of memory
  and leaves the map as it was then.
\<close>

datatype ('k, 'v) store_op = Add 'k 'v | Del 'k

text \<open>The result of one operation: the code of an addition, or the value that a deletion has removed.\<close>

definition store_step ::
  "('k \<Rightarrow> 'v \<Rightarrow> 's \<Rightarrow> nxt_rc \<times> 's) \<Rightarrow> ('k \<Rightarrow> 's \<Rightarrow> 'v option \<times> 's) \<Rightarrow> ('k, 'v) store_op \<Rightarrow> 's \<Rightarrow> (nxt_rc + 'v option) \<times> 's" where
  "store_step add del oper s = (case oper of
      Add k v \<Rightarrow> map_prod Inl id (add k v s)
    | Del k \<Rightarrow> map_prod Inr id (del k s))"

primrec store_run ::
  "('k \<Rightarrow> 'v \<Rightarrow> 's \<Rightarrow> nxt_rc \<times> 's) \<Rightarrow> ('k \<Rightarrow> 's \<Rightarrow> 'v option \<times> 's) \<Rightarrow> ('k, 'v) store_op list \<Rightarrow> 's \<Rightarrow>
   (nxt_rc + 'v option) list \<times> 's" where
  "store_run add del [] s = ([], s)"
| "store_run add del (oper # opers) s =
     (case store_step add del oper s of (r, s) \<Rightarrow> map_prod ((#) r) id (store_run add del opers s))"

text \<open>An element is added under its own key.\<close>

definition own_key :: "('v \<Rightarrow> 'k) \<Rightarrow> ('k, 'v) store_op \<Rightarrow> bool" where
  "own_key key oper \<longleftrightarrow> (case oper of Add k v \<Rightarrow> k = key v | Del k \<Rightarrow> True)"

text \<open>What a map does with the same operations, where an addition may fail.\<close>

definition map_step :: "('k, 'v) store_op \<Rightarrow> ('k \<rightharpoonup> 'v) \<Rightarrow> (nxt_rc + 'v option) \<Rightarrow> ('k \<rightharpoonup> 'v) \<Rightarrow> bool" where
  "map_step oper m r m' \<longleftrightarrow> (case oper of
      Add k v \<Rightarrow>
        (case m k of
           Some _ \<Rightarrow> r = Inl NXT_DECLINED \<and> m' = m
         | None \<Rightarrow> r = Inl NXT_OK \<and> m' = m(k \<mapsto> v) \<or> r = Inl NXT_ERROR \<and> m' = m)
    | Del k \<Rightarrow> r = Inr (m k) \<and> m' = m(k := None))"

primrec map_run :: "('k, 'v) store_op list \<Rightarrow> ('k \<rightharpoonup> 'v) \<Rightarrow> (nxt_rc + 'v option) list \<Rightarrow> ('k \<rightharpoonup> 'v) \<Rightarrow> bool" where
  "map_run [] m rs m' \<longleftrightarrow> rs = [] \<and> m' = m"
| "map_run (oper # opers) m rs m' \<longleftrightarrow>
     (\<exists>r rs' m1. rs = r # rs' \<and> map_step oper m r m1 \<and> map_run opers m1 rs' m')"

locale keyed_store =
  fixes wf :: "'c \<Rightarrow> 's \<Rightarrow> bool"
    and get :: "'c \<Rightarrow> 's \<Rightarrow> 'k \<Rightarrow> 'v option"
    and add :: "'c \<Rightarrow> 'k \<Rightarrow> 'v \<Rightarrow> 's \<Rightarrow> nxt_rc \<times> 's"
    and del :: "'c \<Rightarrow> 'k \<Rightarrow> 's \<Rightarrow> 'v option \<times> 's"
    and key :: "'c \<Rightarrow> 'v \<Rightarrow> 'k"
  assumes add_wf: "wf c s \<Longrightarrow> add c (key c v) v s = (rc, s') \<Longrightarrow> wf c s'"
    and add_old: "wf c s \<Longrightarrow> get c s (key c v) = Some w \<Longrightarrow> add c (key c v) v s = (NXT_DECLINED, s)"
    and add_new: "wf c s \<Longrightarrow> get c s (key c v) = None \<Longrightarrow> add c (key c v) v s = (rc, s') \<Longrightarrow>
      rc = NXT_OK \<and> get c s' = (get c s)(key c v \<mapsto> v) \<or> rc = NXT_ERROR \<and> get c s' = get c s"
    and del_wf: "wf c s \<Longrightarrow> del c k s = (r, s') \<Longrightarrow> wf c s'"
    and del_get: "wf c s \<Longrightarrow> del c k s = (r, s') \<Longrightarrow> r = get c s k \<and> get c s' = (get c s)(k := None)"
begin

lemma step_map:
  assumes "wf c s" and "own_key (key c) oper" and "store_step (add c) (del c) oper s = (r, s')"
  shows "wf c s' \<and> map_step oper (get c s) r (get c s')"
proof (cases oper)
  case (Add k v)
  obtain rc s1 where a: "add c k v s = (rc, s1)" by fastforce
  then have k: "k = key c v" "r = Inl rc" "s' = s1" using assms Add by (auto simp: own_key_def store_step_def)
  show ?thesis
    using add_wf [OF assms(1) a [unfolded k(1)]] add_new [OF assms(1) _ a [unfolded k(1)]] add_old [OF assms(1), of v] a k
    by (auto simp: map_step_def Add split: option.split)
next
  case (Del k)
  obtain v s1 where d: "del c k s = (v, s1)" by fastforce
  then show ?thesis
    using del_wf [OF assms(1) d] del_get [OF assms(1) d] assms(3) by (auto simp: map_step_def store_step_def Del)
qed

lemma run_map:
  "wf c s \<Longrightarrow> list_all (own_key (key c)) opers \<Longrightarrow> store_run (add c) (del c) opers s = (rs, s') \<Longrightarrow>
     wf c s' \<and> map_run opers (get c s) rs (get c s')"
proof (induction opers arbitrary: s rs)
  case (Cons oper opers)
  obtain r s1 where o: "store_step (add c) (del c) oper s = (r, s1)" by fastforce
  obtain rs1 s2 where r: "store_run (add c) (del c) opers s1 = (rs1, s2)" by fastforce
  have rs: "rs = r # rs1" "s' = s2" using Cons.prems(3) o r by auto
  have k: "own_key (key c) oper" "list_all (own_key (key c)) opers" using Cons.prems(2) by simp_all
  from step_map [OF Cons.prems(1) k(1) o] Cons.IH [OF _ k(2) r [folded rs(2)]] rs show ?case by auto
qed simp

end

section \<open>The level hash as a map\<close>

text \<open>
  The configuration of a hash: the prototype, the function that hashes keys, and the key of a
  value.  Among values with the hash of a key the test finds those with the key.
\<close>

record ('k, 'v) lvlhsh_conf =
  conf_proto :: "('k, 'v) lvlhsh_proto"
  conf_hash :: "'k \<Rightarrow> uint32"
  conf_key :: "'v \<Rightarrow> 'k"

definition conf_ok :: "('k, 'v) lvlhsh_conf \<Rightarrow> bool" where
  "conf_ok c \<longleftrightarrow> proto_ok (conf_proto c) \<and>
     (\<forall>k v. conf_hash c (conf_key c v) = conf_hash c k \<and> test (conf_proto c) k v \<longleftrightarrow> conf_key c v = k)"

abbreviation conf_query :: "('k, 'v) lvlhsh_conf \<Rightarrow> 'k \<Rightarrow> 'v option \<Rightarrow> ('k, 'v) lvlhsh_query" where
  "conf_query c k v \<equiv> \<lparr>key_hash = conf_hash c k, replace = False, lq_key = k, lq_value = v\<rparr>"

definition entry_of :: "('k, 'v) lvlhsh_conf \<Rightarrow> 'v entry \<Rightarrow> 'k" where
  "entry_of c e = conf_key c (the (entry_value e))"

definition hash_wf :: "('k, 'v) lvlhsh_conf \<Rightarrow> 'v slot \<times> 'v lvl_mem \<Rightarrow> bool" where
  "hash_wf c st \<longleftrightarrow> conf_ok c \<and> slot_ok (conf_proto c) 0 (fst st) \<and>
     (\<forall>e\<in>set (entries (conf_proto c) (fst st)). entry_key e = conf_hash c (entry_of c e)) \<and>
     distinct (map (entry_of c) (entries (conf_proto c) (fst st)))"

definition hash_get :: "('k, 'v) lvlhsh_conf \<Rightarrow> 'v slot \<times> 'v lvl_mem \<Rightarrow> 'k \<Rightarrow> 'v option" where
  "hash_get c st k = nxt_lvlhsh_find (conf_proto c) (conf_query c k None) (fst st)"

definition hash_add :: "('k, 'v) lvlhsh_conf \<Rightarrow> 'k \<Rightarrow> 'v \<Rightarrow> 'v slot \<times> 'v lvl_mem \<Rightarrow> nxt_rc \<times> 'v slot \<times> 'v lvl_mem" where
  "hash_add c k v st =
     (case nxt_lvlhsh_insert (conf_proto c) (conf_query c k (Some v)) (fst st) (snd st) of
        (rc, s, _, mem) \<Rightarrow> (rc, s, mem))"

definition hash_del :: "('k, 'v) lvlhsh_conf \<Rightarrow> 'k \<Rightarrow> 'v slot \<times> 'v lvl_mem \<Rightarrow> 'v option \<times> 'v slot \<times> 'v lvl_mem" where
  "hash_del c k st = nxt_lvlhsh_delete (conf_proto c) (conf_query c k None) (fst st) (snd st)"

text \<open>The entries that fit a query are those with its key; there is at most one.\<close>

lemma hash_wf_hit:
  assumes "hash_wf c (s, mem)" and "e \<in> set (entries (conf_proto c) s)"
  shows "entry_hit (conf_proto c) (conf_query c k v) e \<longleftrightarrow> entry_of c e = k"
proof -
  have "valid e" "entry_key e = conf_hash c (entry_of c e)"
    using assms entries_valid by (auto simp: hash_wf_def)
  moreover have "conf_hash c (entry_of c e) = conf_hash c k \<and> test (conf_proto c) k (the (entry_value e)) \<longleftrightarrow> entry_of c e = k"
    using assms(1) by (simp add: hash_wf_def conf_ok_def entry_of_def)
  ultimately show ?thesis by (simp add: entry_hit_def)
qed

lemma hash_wf_hits:
  "hash_wf c (s, mem) \<Longrightarrow>
     hits (conf_proto c) (conf_query c k v) s = filter (\<lambda>e. entry_of c e = k) (entries (conf_proto c) s)"
  by (intro filter_cong refl hash_wf_hit)

lemma distinct_filter_key:
  "distinct (map f es) \<Longrightarrow> e \<in> set es \<Longrightarrow> f e = k \<Longrightarrow> filter (\<lambda>e. f e = k) es = [e]"
  by (induction es) (auto simp: filter_empty_conv, metis image_eqI)

lemma hash_get_iff:
  assumes "hash_wf c (s, mem)"
  shows "hash_get c (s, mem) k = Some v \<longleftrightarrow> (\<exists>e\<in>set (entries (conf_proto c) s). entry_of c e = k \<and> entry_value e = Some v)"
proof -
  let ?es = "entries (conf_proto c) s"
  have p: "proto_ok (conf_proto c)" "slot_ok (conf_proto c) 0 s" and d: "distinct (map (entry_of c) ?es)"
    using assms by (auto simp: hash_wf_def conf_ok_def)
  have g: "hash_get c (s, mem) k = first_value (filter (\<lambda>e. entry_of c e = k) ?es)"
    using find_first [OF p] hash_wf_hits [OF assms] by (simp add: hash_get_def)
  show ?thesis
  proof (cases "\<exists>e\<in>set ?es. entry_of c e = k")
    case True
    then obtain e where e: "e \<in> set ?es" "entry_of c e = k" by blast
    have u: "e' = e" if "e' \<in> set ?es" "entry_of c e' = k" for e'
      using distinct_filter_key [OF d that] distinct_filter_key [OF d e] by (metis list.inject)
    show ?thesis unfolding g distinct_filter_key [OF d e] first_value_Cons using e u by metis
  next
    case False
    then have "filter (\<lambda>e. entry_of c e = k) ?es = []" by (auto simp: filter_empty_conv)
    with False show ?thesis unfolding g by (auto simp: first_value_def)
  qed
qed

lemma hash_get_None:
  assumes "hash_wf c (s, mem)"
  shows "hash_get c (s, mem) k = None \<longleftrightarrow> (\<forall>e\<in>set (entries (conf_proto c) s). entry_of c e \<noteq> k)"
proof -
  have "\<exists>v. entry_value e = Some v" if "e \<in> set (entries (conf_proto c) s)" for e
    using entries_valid [OF that] by (simp add: nxt_lvlhsh_valid_entry_def)
  with hash_get_iff [OF assms, of k] show ?thesis by (metis not_None_eq)
qed

lemma hash_get_eqI:
  assumes "hash_wf c (s, mem)"
    and "\<And>k v. m k = Some v \<longleftrightarrow> (\<exists>e\<in>set (entries (conf_proto c) s). entry_of c e = k \<and> entry_value e = Some v)"
  shows "hash_get c (s, mem) = m"
proof
  fix k
  have "hash_get c (s, mem) k = Some v \<longleftrightarrow> m k = Some v" for v unfolding assms(2) by (rule hash_get_iff [OF assms(1)])
  then show "hash_get c (s, mem) k = m k" by (metis not_None_eq)
qed

lemma hash_add_old:
  assumes "hash_wf c (s, mem)" and "hash_get c (s, mem) k = Some w"
  shows "hash_add c k v (s, mem) = (NXT_DECLINED, s, mem)"
proof -
  have p: "proto_ok (conf_proto c)" "slot_ok (conf_proto c) 0 s" using assms(1) by (auto simp: hash_wf_def conf_ok_def)
  obtain e where "e \<in> set (entries (conf_proto c) s)" "entry_of c e = k" using assms hash_get_iff by metis
  then obtain e' es where h: "hits (conf_proto c) (conf_query c k (Some v)) s = e' # es"
    unfolding hash_wf_hits [OF assms(1)] by (metis (mono_tags) filter_empty_conv list.exhaust)
  obtain rc s' u mem' where r: "nxt_lvlhsh_insert (conf_proto c) (conf_query c k (Some v)) s mem = (rc, s', u, mem')"
    by (metis prod_cases4)
  from insert_ok [OF p(1) _ p(2), of "conf_query c k (Some v)" mem, unfolded r] h show ?thesis
    by (simp add: insert_spec_def hash_add_def r)
qed

lemma hash_add_new:
  assumes "hash_wf c (s, mem)" and "hash_get c (s, mem) (conf_key c v) = None"
    and "hash_add c (conf_key c v) v (s, mem) = (rc, s', mem')"
  shows "hash_wf c (s', mem') \<and>
    (rc = NXT_OK \<and> hash_get c (s', mem') = (hash_get c (s, mem))(conf_key c v \<mapsto> v) \<or>
     rc = NXT_ERROR \<and> hash_get c (s', mem') = hash_get c (s, mem))"
proof -
  let ?p = "conf_proto c" and ?k = "conf_key c v" and ?q = "conf_query c (conf_key c v) (Some v)"
  have p: "proto_ok ?p" "slot_ok ?p 0 s" using assms(1) by (auto simp: hash_wf_def conf_ok_def)
  have k: "\<forall>e\<in>set (entries ?p s). entry_of c e \<noteq> ?k" using assms(1,2) hash_get_None by metis
  then have h: "hits ?p ?q s = []" unfolding hash_wf_hits [OF assms(1)] by (simp add: filter_empty_conv)
  obtain u where r: "nxt_lvlhsh_insert ?p ?q s mem = (rc, s', u, mem')"
    using assms(3) by (auto simp: hash_add_def split: prod.splits)
  have i: "slot_ok ?p 0 s'" "rc = NXT_OK \<and> mset (entries ?p s') = add_mset (new_entry ?q) (mset (entries ?p s)) \<or>
      rc = NXT_ERROR \<and> mset (entries ?p s') = mset (entries ?p s)"
    using insert_ok [OF p(1) _ p(2), of ?q mem, unfolded r] h by (auto simp: insert_spec_def)
  have n: "entry_of c (new_entry ?q) = ?k" by (simp add: entry_of_def)
  from i(2) show ?thesis
  proof
    assume m: "rc = NXT_OK \<and> mset (entries ?p s') = add_mset (new_entry ?q) (mset (entries ?p s))"
    have set: "set (entries ?p s') = insert (new_entry ?q) (set (entries ?p s))" using m by (metis set_mset_mset set_mset_add_mset_insert)
    have "mset (map (entry_of c) (entries ?p s')) = mset (map (entry_of c) (new_entry ?q # entries ?p s))" using m by simp
    from mset_eq_imp_distinct_iff [OF this] have "hash_wf c (s', mem')"
      using assms(1) i(1) set k n by (auto simp: hash_wf_def)
    moreover from this have "hash_get c (s', mem') = (hash_get c (s, mem))(?k \<mapsto> v)"
      by (rule hash_get_eqI) (use set k n hash_get_iff [OF assms(1)] in auto)
    ultimately show ?thesis using m by simp
  next
    assume m: "rc = NXT_ERROR \<and> mset (entries ?p s') = mset (entries ?p s)"
    have set: "set (entries ?p s') = set (entries ?p s)" using m by (metis set_mset_mset)
    have "mset (map (entry_of c) (entries ?p s')) = mset (map (entry_of c) (entries ?p s))" using m by simp
    from mset_eq_imp_distinct_iff [OF this] have w: "hash_wf c (s', mem')"
      using assms(1) i(1) set by (auto simp: hash_wf_def)
    moreover from this have "hash_get c (s', mem') = hash_get c (s, mem)"
      by (rule hash_get_eqI) (use set hash_get_iff [OF assms(1)] in auto)
    ultimately show ?thesis using m by simp
  qed
qed

lemma remove_first_filter:
  "distinct (map f es) \<Longrightarrow> (\<And>e. e \<in> set es \<Longrightarrow> P e \<longleftrightarrow> f e = k) \<Longrightarrow> remove_first P es = filter (\<lambda>e. f e \<noteq> k) es"
proof (induction es)
  case (Cons e es)
  have "filter (\<lambda>e'. f e' \<noteq> f e) es = es" using Cons.prems(1) by (simp add: filter_id_conv) (metis image_eqI)
  with Cons show ?case by auto
qed simp

lemma hash_del_spec:
  assumes "hash_wf c (s, mem)" and "hash_del c k (s, mem) = (v, s', mem')"
  shows "hash_wf c (s', mem') \<and> v = hash_get c (s, mem) k \<and> hash_get c (s', mem') = (hash_get c (s, mem))(k := None)"
proof -
  let ?p = "conf_proto c"
  have p: "proto_ok ?p" "slot_ok ?p 0 s" and d: "distinct (map (entry_of c) (entries ?p s))"
    using assms(1) by (auto simp: hash_wf_def conf_ok_def)
  have r: "nxt_lvlhsh_delete ?p (conf_query c k None) s mem = (v, s', mem')" using assms(2) by (simp add: hash_del_def)
  have s': "slot_ok ?p 0 s'" "v = hash_get c (s, mem) k"
    "entries ?p s' = remove_first (entry_hit ?p (conf_query c k None)) (entries ?p s)"
    using delete_ok [OF p, of "conf_query c k None" mem, unfolded r] find_first [OF p] by (simp_all add: delete_spec_def hash_get_def)
  have e: "entries ?p s' = filter (\<lambda>e. entry_of c e \<noteq> k) (entries ?p s)"
    unfolding s'(3) by (rule remove_first_filter [OF d hash_wf_hit [OF assms(1)]])
  have w: "hash_wf c (s', mem')" using assms(1) s'(1) e by (auto simp: hash_wf_def distinct_map_filter)
  moreover have "hash_get c (s', mem') = (hash_get c (s, mem))(k := None)"
    by (rule hash_get_eqI [OF w]) (use e hash_get_iff [OF assms(1)] in auto)
  ultimately show ?thesis using s'(2) by simp
qed

interpretation lvlhsh: keyed_store hash_wf hash_get hash_add hash_del conf_key
proof unfold_locales
  fix c :: "('a, 'b) lvlhsh_conf" and st st' :: "'b slot \<times> 'b lvl_mem" and v w rc k r
  obtain s mem where st: "st = (s, mem)" by fastforce
  obtain s' mem' where st': "st' = (s', mem')" by fastforce
  assume wf: "hash_wf c st"
  note wf' = wf [unfolded st]
  show "hash_add c (conf_key c v) v st = (NXT_DECLINED, st)" if "hash_get c st (conf_key c v) = Some w"
    using hash_add_old [OF wf'] that st by simp
  show "rc = NXT_OK \<and> hash_get c st' = (hash_get c st)(conf_key c v \<mapsto> v) \<or> rc = NXT_ERROR \<and> hash_get c st' = hash_get c st"
    if "hash_get c st (conf_key c v) = None" "hash_add c (conf_key c v) v st = (rc, st')"
    using hash_add_new [OF wf'] that st st' by simp
  show "hash_wf c st'" if "hash_add c (conf_key c v) v st = (rc, st')"
    using hash_add_new [OF wf'] hash_add_old [OF wf'] that st st' wf by (cases "hash_get c st (conf_key c v)") auto
  show "hash_wf c st'" "r = hash_get c st k \<and> hash_get c st' = (hash_get c st)(k := None)" if "hash_del c k st = (r, st')"
    using hash_del_spec [OF wf'] that st st' by simp_all
qed

lemma hash_wf_empty: "conf_ok c \<Longrightarrow> hash_wf c (Null, mem)"
  by (simp add: hash_wf_def)

lemma hash_get_empty: "hash_get c (Null, mem) = Map.empty"
  by (rule ext) (simp add: hash_get_def nxt_lvlhsh_find_def)

text \<open>The blocks that are allocated are those of the tree.\<close>

lemma hash_add_blocks:
  assumes "hash_wf c (s, mem)" and "hash_add c k v (s, mem) = (rc, s', mem')"
  shows "m_live mem' - int (blocks s') = m_live mem - int (blocks s)"
proof -
  have p: "proto_ok (conf_proto c)" "slot_ok (conf_proto c) 0 s" using assms(1) by (auto simp: hash_wf_def conf_ok_def)
  obtain u where r: "nxt_lvlhsh_insert (conf_proto c) (conf_query c k (Some v)) s mem = (rc, s', u, mem')"
    using assms(2) by (auto simp: hash_add_def split: prod.splits)
  show ?thesis
    using insert_ok [OF p(1) _ p(2), of "conf_query c k (Some v)" mem, unfolded r] by (simp add: insert_spec_def grown_def)
qed

lemma hash_del_blocks:
  assumes "hash_wf c (s, mem)" and "hash_del c k (s, mem) = (v, s', mem')"
  shows "m_live mem' - int (blocks s') = m_live mem - int (blocks s)"
proof -
  have p: "proto_ok (conf_proto c)" "slot_ok (conf_proto c) 0 s" using assms(1) by (auto simp: hash_wf_def conf_ok_def)
  show ?thesis
    using delete_ok [OF p, of "conf_query c k None" mem] assms(2) by (simp add: hash_del_def delete_spec_def smaller_def)
qed

lemma run_blocks:
  "hash_wf c (s, mem) \<Longrightarrow> list_all (own_key (conf_key c)) opers \<Longrightarrow>
     store_run (hash_add c) (hash_del c) opers (s, mem) = (rs, s', mem') \<Longrightarrow>
     m_live mem' - int (blocks s') = m_live mem - int (blocks s)"
proof (induction opers arbitrary: s mem rs)
  case (Cons oper opers)
  obtain r s1 mem1 where o: "store_step (hash_add c) (hash_del c) oper (s, mem) = (r, s1, mem1)" by (metis prod_cases3)
  obtain rs1 where r: "store_run (hash_add c) (hash_del c) opers (s1, mem1) = (rs1, s', mem')"
    using Cons.prems(3) o by (cases "store_run (hash_add c) (hash_del c) opers (s1, mem1)") auto
  have k: "own_key (conf_key c) oper" "list_all (own_key (conf_key c)) opers" using Cons.prems(2) by simp_all
  have "hash_wf c (s1, mem1)" using lvlhsh.step_map [OF Cons.prems(1) k(1) o] by simp
  from Cons.IH [OF this k(2) r]
  have "m_live mem' - int (blocks s') = m_live mem1 - int (blocks s1)" .
  moreover have "m_live mem1 - int (blocks s1) = m_live mem - int (blocks s)"
    using o hash_add_blocks [OF Cons.prems(1)] hash_del_blocks [OF Cons.prems(1)]
    by (cases oper) (auto simp: store_step_def map_prod_def split: prod.splits)
  ultimately show ?case by simp
qed simp

section \<open>Properties\<close>

text \<open>An example: numbers under themselves, with the default prototype and little memory.\<close>

definition number_conf :: "(nat, nat) lvlhsh_conf" where
  "number_conf = \<lparr>conf_proto = NXT_LVLHSH_DEFAULT (\<lambda>k v. v = k), conf_hash = of_nat, conf_key = (\<lambda>v. v)\<rparr>"

definition number_mem :: "nat lvl_mem" where
  "number_mem = \<lparr>m_avail = 20, m_live = 0, m_junk = (\<lambda>_ _. \<lparr>entry_key = 7, entry_value = Some 9\<rparr>)\<rparr>"

definition number_ops :: "(nat, nat) store_op list" where
  "number_ops = map (\<lambda>n. Add n n) [5, 21, 37, 4, 6, 1, 2, 3, 0, 9, 53, 5] @ [Del 21, Del 22]"

definition number_slot :: "nat slot" where
  "number_slot = fst (snd (store_run (hash_add number_conf) (hash_del number_conf) number_ops (Null, number_mem)))"

text \<open>The prototypes of the headers.\<close>

lemmas proto_simps = NXT_LVLHSH_BUCKET_SIZE_def NXT_LVLHSH_BUCKET_END_def NXT_LVLHSH_ENTRY_SIZE_def bucket_cap_def
  level_shift_def shift_sum_def upt_rec

lemma bucket_size_power:
  "\<exists>k<32. bucket_size (NXT_LVLHSH_BUCKET_SIZE 64 sh tst) = 2 ^ k" "\<exists>k<32. bucket_size (NXT_LVLHSH_BUCKET_SIZE 128 sh tst) = 2 ^ k"
  by (rule exI [of _ 6], simp add: proto_simps, rule exI [of _ 7], simp add: proto_simps)

lemma default_proto_ok: "proto_ok (NXT_LVLHSH_DEFAULT tst)"
  using bucket_size_power(2) by (simp add: proto_ok_def NXT_LVLHSH_DEFAULT_def proto_simps)

lemma large_slab_ok: "proto_ok (NXT_LVLHSH_LARGE_SLAB tst)"
  using bucket_size_power(2) by (simp add: proto_ok_def NXT_LVLHSH_LARGE_SLAB_def proto_simps)

lemma large_memalign_ok: "0 < m \<Longrightarrow> m \<le> 10 \<Longrightarrow> proto_ok (NXT_LVLHSH_LARGE_MEMALIGN m tst)"
  using bucket_size_power(2) by (simp add: proto_ok_def NXT_LVLHSH_LARGE_MEMALIGN_def proto_simps)

lemma number_conf_ok: "conf_ok number_conf"
  by (auto simp: conf_ok_def number_conf_def default_proto_ok) (simp_all add: NXT_LVLHSH_DEFAULT_def NXT_LVLHSH_BUCKET_SIZE_def)

lemma number_ops_keys: "list_all (own_key (conf_key number_conf)) number_ops"
  by (simp add: number_ops_def number_conf_def own_key_def)

lemma number_slot_ok: "slot_ok (conf_proto number_conf) 0 number_slot" and number_proto_ok: "proto_ok (conf_proto number_conf)"
proof -
  obtain rs st where r: "store_run (hash_add number_conf) (hash_del number_conf) number_ops (Null, number_mem) = (rs, st)"
    by (metis surj_pair)
  from lvlhsh.run_map [OF hash_wf_empty [OF number_conf_ok] number_ops_keys r]
  show "slot_ok (conf_proto number_conf) 0 number_slot" by (simp add: number_slot_def r hash_wf_def)
  show "proto_ok (conf_proto number_conf)" using number_conf_ok by (simp add: conf_ok_def)
qed

text \<open>C13: a level hash is a finite map.  Any sequence of insertions and deletions, started on the empty
  hash, returns what a map returns for the same operations, where an insertion that finds its key is
  declined and one that runs out of memory changes nothing, and in the end a search finds what the
  map holds.\<close>

theorem lvlhsh_refines_map:
  assumes "conf_ok c" and "list_all (own_key (conf_key c)) opers"
    and "store_run (hash_add c) (hash_del c) opers (Null, mem) = (rs, s', mem')"
  shows "map_run opers Map.empty rs (hash_get c (s', mem'))"
  using lvlhsh.run_map [OF hash_wf_empty [OF assms(1)] assms(2,3)] by (simp add: hash_get_empty)

theorem lvlhsh_refines_map_witness:
  "\<exists>s' mem'. store_run (hash_add number_conf) (hash_del number_conf) number_ops (Null, number_mem) =
      (replicate 11 (Inl NXT_OK) @ [Inl NXT_DECLINED, Inr (Some 21), Inr None], s', mem') \<and>
    map_run number_ops Map.empty (replicate 11 (Inl NXT_OK) @ [Inl NXT_DECLINED, Inr (Some 21), Inr None])
      (hash_get number_conf (s', mem'))"
proof -
  have "fst (store_run (hash_add number_conf) (hash_del number_conf) number_ops (Null, number_mem)) =
      replicate 11 (Inl NXT_OK) @ [Inl NXT_DECLINED, Inr (Some 21), Inr None]"
    by code_simp
  then obtain s' mem' where r: "store_run (hash_add number_conf) (hash_del number_conf) number_ops (Null, number_mem) =
      (replicate 11 (Inl NXT_OK) @ [Inl NXT_DECLINED, Inr (Some 21), Inr None], s', mem')"
    by (metis prod.collapse)
  from lvlhsh_refines_map [OF number_conf_ok number_ops_keys r] r show ?thesis by blast
qed



text \<open>C15: what an insertion does.  It keeps the invariant of the hash and accounts for the memory, with at
  most one level and one bucket for every entry of a converted bucket on each of the eight levels.
  If there is an entry that fits, its value is returned, and the value is replaced or the insertion
  declined; otherwise the entry is added, or no memory is left and the entries are as before.  With
  enough memory it does not fail.\<close>

theorem nxt_lvlhsh_insert_spec:
  assumes "proto_ok proto" and "slot_ok proto 0 s" and "lq_value lhq \<noteq> None"
  shows "insert_spec proto lhq 0 (8 * Suc (bucket_cap proto) + 1) s mem (nxt_lvlhsh_insert proto lhq s mem) \<and>
    (fst (nxt_lvlhsh_insert proto lhq s mem) = NXT_ERROR \<longrightarrow> m_avail mem \<le> 8 * Suc (bucket_cap proto) + 1)"
proof -
  have c: "insert_cost proto 0 = 8 * Suc (bucket_cap proto) + 1" by (simp add: insert_cost_def)
  obtain rc s' v mem' where r: "nxt_lvlhsh_insert proto lhq s mem = (rc, s', v, mem')" by (metis prod_cases4)
  note i = insert_ok [OF assms(1,3,2), of mem, unfolded r c]
  show ?thesis unfolding r fst_conv using i insert_succeeds [OF i] by (metis not_le_imp_less)
qed

theorem nxt_lvlhsh_insert_spec_witness:
  "insert_spec (conf_proto number_conf) (conf_query number_conf 69 (Some 69)) 0 89 number_slot number_mem
     (nxt_lvlhsh_insert (conf_proto number_conf) (conf_query number_conf 69 (Some 69)) number_slot number_mem) \<and>
   fst (nxt_lvlhsh_insert (conf_proto number_conf) (conf_query number_conf 69 (Some 69)) number_slot number_mem) = NXT_OK"
proof
  have c: "8 * Suc (bucket_cap (conf_proto number_conf)) + 1 = 89" by code_simp
  show "insert_spec (conf_proto number_conf) (conf_query number_conf 69 (Some 69)) 0 89 number_slot number_mem
     (nxt_lvlhsh_insert (conf_proto number_conf) (conf_query number_conf 69 (Some 69)) number_slot number_mem)"
    using nxt_lvlhsh_insert_spec [OF number_proto_ok number_slot_ok, of "conf_query number_conf 69 (Some 69)" number_mem]
    unfolding c by simp
qed code_simp

text \<open>C16: a search returns the value of the first entry that fits the query, and none exactly when there is
  none.  A deletion returns the same, removes that entry alone, frees the blocks that are empty
  then, and keeps the invariant.\<close>

theorem nxt_lvlhsh_delete_spec:
  assumes "proto_ok proto" and "slot_ok proto 0 s"
  shows "nxt_lvlhsh_find proto lhq s = first_value (filter (entry_hit proto lhq) (entries proto s)) \<and>
    (nxt_lvlhsh_find proto lhq s = None \<longleftrightarrow> list_all (\<lambda>e. \<not> entry_hit proto lhq e) (entries proto s)) \<and>
    (case nxt_lvlhsh_delete proto lhq s mem of (v, s', mem') \<Rightarrow>
       v = nxt_lvlhsh_find proto lhq s \<and> slot_ok proto 0 s' \<and>
       entries proto s' = remove_first (entry_hit proto lhq) (entries proto s) \<and> smaller s mem s' mem')"
proof -
  have "first_value (filter (entry_hit proto lhq) (entries proto s)) = None \<longleftrightarrow>
      list_all (\<lambda>e. \<not> entry_hit proto lhq e) (entries proto s)"
  proof (cases "filter (entry_hit proto lhq) (entries proto s)")
    case (Cons e es)
    then have "entry_hit proto lhq e" "e \<in> set (entries proto s)" by (auto simp: filter_eq_Cons_iff)
    with Cons show ?thesis by (auto simp: list_all_iff entry_hit_def nxt_lvlhsh_valid_entry_def)
  qed (auto simp: first_value_def filter_empty_conv list_all_iff)
  with find_first [OF assms] delete_ok [OF assms, of lhq mem] show ?thesis by (auto simp: delete_spec_def)
qed

theorem nxt_lvlhsh_delete_spec_witness:
  "nxt_lvlhsh_find (conf_proto number_conf) (conf_query number_conf 37 None) number_slot = Some 37 \<and>
   (case nxt_lvlhsh_delete (conf_proto number_conf) (conf_query number_conf 37 None) number_slot number_mem of (v, s', mem') \<Rightarrow>
      v = Some 37 \<and> slot_ok (conf_proto number_conf) 0 s')"
proof -
  have f: "nxt_lvlhsh_find (conf_proto number_conf) (conf_query number_conf 37 None) number_slot = Some 37" by code_simp
  from nxt_lvlhsh_delete_spec [OF number_proto_ok number_slot_ok, of "conf_query number_conf 37 None" number_mem] f
  show ?thesis by (auto split: prod.splits)
qed





end
