(* ===== verification/Nxt_Http_Fields.thy ===== *)
theory Nxt_Http_Fields
  imports Nxt_Http_Line Nxt_Lvlhsh_Map
begin

text \<open>
  The table of field handlers at the end of \<^verbatim>\<open>src/nxt_http_parse.c\<close> and \<^verbatim>\<open>nxt_http_field_process\<close> of
  \<^verbatim>\<open>src/nxt_http_parse.h\<close>: a level hash from field names to handlers, in which the hash that the
  request parser has computed for a field finds the handler of its name.
\<close>

section \<open>Operations\<close>

text \<open>
  A function pointer is a value of the type \<open>'h\<close>.  What the functions do is the parameter \<open>call\<close>:
  a call takes a context, a field and the \<^verbatim>\<open>data\<close> of the table, may change the context and the
  field, and returns one of the \<^verbatim>\<open>NXT_*\<close> codes or an HTTP status.
\<close>

type_synonym field_rc = "nxt_rc + nat"

type_synonym ('h, 'c) field_call = "'h \<Rightarrow> 'c \<Rightarrow> http_field \<Rightarrow> uint64 \<Rightarrow> field_rc \<times> 'c \<times> http_field"

record 'h field_proc =
  fp_name :: nxt_str
  fp_handler :: 'h
  fp_data :: uint64

type_synonym 'h field_table = "'h field_proc slot \<times> 'h field_proc lvl_mem"

definition nxt_strcasestr_eq :: "nxt_str \<Rightarrow> nxt_str \<Rightarrow> bool" where
  "nxt_strcasestr_eq s1 s2 \<longleftrightarrow> length s1 = length s2 \<and> nxt_memcasecmp s1 s2 = 0"

definition NXT_HTTP_FIELD_LVLHSH_SHIFT :: nat where
  "NXT_HTTP_FIELD_LVLHSH_SHIFT = 5"

definition nxt_http_field_hash_test :: "nxt_str \<Rightarrow> 'h field_proc \<Rightarrow> bool" where
  "nxt_http_field_hash_test key field \<longleftrightarrow> nxt_strcasestr_eq key (fp_name field)"

definition nxt_http_fields_hash_proto :: "(nxt_str, 'h field_proc) lvlhsh_proto" where
  "nxt_http_fields_hash_proto =
     NXT_LVLHSH_BUCKET_SIZE 64 [NXT_HTTP_FIELD_LVLHSH_SHIFT, 0, 0, 0, 0, 0, 0, 0] nxt_http_field_hash_test"

definition nxt_http_field_hash_collision :: "nxt_str \<Rightarrow> 'h field_proc \<Rightarrow> bool" where
  "nxt_http_field_hash_collision key field = True"

text \<open>The inner loop, which hashes the name of an item in lower case.\<close>

fun fields_hash_key :: "uint32 \<Rightarrow> nxt_str \<Rightarrow> uint32" where
  "fields_hash_key key [] = key"
| "fields_hash_key key (c # name) = fields_hash_key (nxt_http_field_hash_char key (nxt_lowcase c)) name"

fun nxt_http_fields_hash :: "'h field_proc list \<Rightarrow> 'h field_table \<Rightarrow> nxt_rc \<times> 'h field_table" where
  "nxt_http_fields_hash [] st = (NXT_OK, st)"
| "nxt_http_fields_hash (item # items) (hash, mem) =
     (let key = fields_hash_key NXT_HTTP_FIELD_HASH_INIT (fp_name item);
          lhq = \<lparr>key_hash = nxt_http_field_hash_end key AND 0xFFFF, replace = False, lq_key = fp_name item, lq_value = Some item\<rparr>
      in case nxt_lvlhsh_insert nxt_http_fields_hash_proto lhq hash mem of (ret, hash, _, mem) \<Rightarrow>
           if ret \<noteq> NXT_OK then (NXT_ERROR, hash, mem) else nxt_http_fields_hash items (hash, mem))"

text \<open>The query of the code has no key here, which its test does not read.\<close>

fun fields_collisions_loop :: "uint32 \<Rightarrow> 'h field_proc list \<Rightarrow> 'h field_table \<Rightarrow> uint32 \<Rightarrow> uint32 \<times> 'h field_table" where
  "fields_collisions_loop m [] st colls = (colls, st)"
| "fields_collisions_loop m (item # items) (hash, mem) colls =
     (let key = fields_hash_key NXT_HTTP_FIELD_HASH_INIT (fp_name item);
          proto = nxt_http_fields_hash_proto\<lparr>test := nxt_http_field_hash_collision\<rparr>;
          lhq = \<lparr>key_hash = nxt_http_field_hash_end key AND m, replace = False, lq_key = [], lq_value = Some item\<rparr>
      in case nxt_lvlhsh_insert proto lhq hash mem of (ret, hash, _, mem) \<Rightarrow>
           fields_collisions_loop m items (hash, mem) (if ret = NXT_DECLINED then colls + 1 else colls))"

definition nxt_http_fields_hash_collisions :: "'h field_proc list \<Rightarrow> bool \<Rightarrow> 'h field_table \<Rightarrow> uint32 \<times> 'h field_table" where
  "nxt_http_fields_hash_collisions items level st =
     (let m = if level then push_bit NXT_HTTP_FIELD_LVLHSH_SHIFT 1 - 1 else 0xFFFF
      in fields_collisions_loop m items st 0)"

definition nxt_http_field_process ::
  "('h, 'c) field_call \<Rightarrow> 'h field_proc slot \<Rightarrow> http_field \<Rightarrow> 'c \<Rightarrow> field_rc \<times> 'c \<times> http_field" where
  "nxt_http_field_process call hash field ctx =
     (let lhq = \<lparr>key_hash = ucast (hf_hash field), replace = False,
                 lq_key = take (unat (hf_name_length field)) (hf_name field), lq_value = None\<rparr>
      in case nxt_lvlhsh_find nxt_http_fields_hash_proto lhq hash of
           None \<Rightarrow> (Inl NXT_OK, ctx, field)
         | Some p \<Rightarrow> call (fp_handler p) ctx field (fp_data p))"

text \<open>The loop over the fields, with what it does to one field as a parameter; the fields are returned as they are in the end.\<close>

fun fields_process_loop ::
  "(http_field \<Rightarrow> 'c \<Rightarrow> field_rc \<times> 'c \<times> http_field) \<Rightarrow> http_field list \<Rightarrow> 'c \<Rightarrow> field_rc \<times> 'c \<times> http_field list" where
  "fields_process_loop process [] ctx = (Inl NXT_OK, ctx, [])"
| "fields_process_loop process (field # fs) ctx =
     (case process field ctx of (ret, ctx, field) \<Rightarrow>
        if ret \<noteq> Inl NXT_OK then (ret, ctx, field # fs)
        else case fields_process_loop process fs ctx of (ret, ctx, fs) \<Rightarrow> (ret, ctx, field # fs))"

definition nxt_http_fields_process ::
  "('h, 'c) field_call \<Rightarrow> http_field list \<Rightarrow> nat \<Rightarrow> http_field nxt_list option \<Rightarrow> 'h field_proc slot \<Rightarrow> 'c \<Rightarrow>
   field_rc \<times> 'c \<times> http_field list" where
  "nxt_http_fields_process call inline num spill hash ctx =
     fields_process_loop (nxt_http_field_process call hash) (nxt_http_fields_each inline num spill) ctx"

section \<open>The hash of a name\<close>

lemma fields_hash_key_fold: "fields_hash_key key name = foldl nxt_http_field_hash_char key (fold_case name)"
  by (induction key name rule: fields_hash_key.induct) simp_all

text \<open>The table of the parser maps the characters of a name to lower case as \<^verbatim>\<open>nxt_lowcase\<close> does.\<close>

lemma normal_lowcase: "(if normal ! unat ch \<le> 1 then ch else normal ! unat ch) = nxt_lowcase ch"
proof -
  have "\<forall>ch. (if normal ! unat ch \<le> 1 then ch else normal ! unat ch) = nxt_lowcase ch"
    unfolding byte_table normal_eq by code_simp
  then show ?thesis by blast
qed

lemma name_hash_key: "name_hash name = fields_hash_key NXT_HTTP_FIELD_HASH_INIT name"
proof -
  have "foldl hash_char key name = fields_hash_key key name" for key
    by (induction key name rule: fields_hash_key.induct) (simp_all add: hash_char_def normal_lowcase)
  then show ?thesis by (simp add: name_hash_def)
qed

definition field_hash :: "nxt_str \<Rightarrow> uint32" where
  "field_hash name = nxt_http_field_hash_end (fields_hash_key NXT_HTTP_FIELD_HASH_INIT name)"

lemma field_hash_fold: "fold_case a = fold_case b \<Longrightarrow> field_hash a = field_hash b"
  by (simp add: field_hash_def fields_hash_key_fold)

text \<open>The 16 bits that a field keeps are those that the table uses.\<close>

lemma uint16_hash: "ucast (ucast h :: uint16) = (h :: uint32) AND 0xFFFF"
proof -
  have "ucast (ucast h :: uint16) = take_bit 16 h" by (intro bit_word_eqI) (auto simp: bit_simps)
  then show ?thesis by (simp add: take_bit_eq_mask mask_eq_exp_minus_1)
qed

lemma strcasestr_eq_iff: "nxt_strcasestr_eq a b \<longleftrightarrow> fold_case a = fold_case b"
proof (cases "length a = length b")
  case True
  then show ?thesis by (simp add: nxt_strcasestr_eq_def nxt_memcasecmp_zero)
next
  case False
  then have "fold_case a \<noteq> fold_case b" by (metis fold_case_def length_map)
  with False show ?thesis by (simp add: nxt_strcasestr_eq_def)
qed

section \<open>What the table holds\<close>

lemma fields_proto_ok:
  "proto_ok (nxt_http_fields_hash_proto :: (nxt_str, 'h field_proc) lvlhsh_proto)"
  "proto_ok ((nxt_http_fields_hash_proto :: (nxt_str, 'h field_proc) lvlhsh_proto)\<lparr>test := tst\<rparr>)"
  using bucket_size_power(1)
  by (simp_all add: proto_ok_def nxt_http_fields_hash_proto_def NXT_HTTP_FIELD_LVLHSH_SHIFT_def proto_simps)

definition field_query :: "nxt_str \<Rightarrow> 'h field_proc option \<Rightarrow> (nxt_str, 'h field_proc) lvlhsh_query" where
  "field_query name p = \<lparr>key_hash = field_hash name AND 0xFFFF, replace = False, lq_key = name, lq_value = p\<rparr>"

definition proc_entry :: "'h field_proc \<Rightarrow> 'h field_proc entry" where
  "proc_entry p = \<lparr>entry_key = field_hash (fp_name p) AND 0xFFFF, entry_value = Some p\<rparr>"

lemma proc_entry_hit:
  "entry_hit nxt_http_fields_hash_proto (field_query name v) (proc_entry p) \<longleftrightarrow> fold_case (fp_name p) = fold_case name"
  using field_hash_fold [of name "fp_name p"]
  by (auto simp: entry_hit_def field_query_def proc_entry_def nxt_lvlhsh_valid_entry_def nxt_http_fields_hash_proto_def
      NXT_LVLHSH_BUCKET_SIZE_def nxt_http_field_hash_test_def strcasestr_eq_iff)

text \<open>The names of the items in lower case, and the item of a name.\<close>

definition proc_names :: "'h field_proc list \<Rightarrow> nxt_str list" where
  "proc_names items = map (\<lambda>p. fold_case (fp_name p)) items"

definition proc_of :: "'h field_proc list \<Rightarrow> nxt_str \<Rightarrow> 'h field_proc option" where
  "proc_of items name = find (\<lambda>p. fold_case (fp_name p) = fold_case name) items"

lemma proc_filter:
  "distinct (proc_names items) \<Longrightarrow>
     filter (\<lambda>p. fold_case (fp_name p) = fold_case name) items = (case proc_of items name of None \<Rightarrow> [] | Some p \<Rightarrow> [p])"
proof (induction items)
  case (Cons p items)
  show ?case
  proof (cases "fold_case (fp_name p) = fold_case name")
    case True
    then have "fold_case (fp_name x) \<noteq> fold_case name" if "x \<in> set items" for x
      using Cons.prems that by (auto simp: proc_names_def dest: sym)
    then have "filter (\<lambda>p. fold_case (fp_name p) = fold_case name) items = []" by (simp add: filter_empty_conv)
    with True show ?thesis by (simp add: proc_of_def)
  next
    case False
    then show ?thesis using Cons by (simp add: proc_names_def proc_of_def)
  qed
qed (simp add: proc_of_def)

definition table_holds :: "'h field_proc list \<Rightarrow> 'h field_proc slot \<Rightarrow> bool" where
  "table_holds items s \<longleftrightarrow> slot_ok nxt_http_fields_hash_proto 0 s \<and> distinct (proc_names items) \<and>
     mset (entries nxt_http_fields_hash_proto s) = mset (map proc_entry items)"

lemma singleton_mset_eq: "mset xs = mset ys \<Longrightarrow> length ys \<le> 1 \<Longrightarrow> xs = ys"
  by (cases ys) auto

lemma table_hits:
  assumes "table_holds items s"
  shows "hits nxt_http_fields_hash_proto (field_query name v) s =
    (case proc_of items name of None \<Rightarrow> [] | Some p \<Rightarrow> [proc_entry p])"
proof -
  let ?f = "entry_hit nxt_http_fields_hash_proto (field_query name v)"
  have "filter ?f (map proc_entry items) = map proc_entry (filter (\<lambda>p. fold_case (fp_name p) = fold_case name) items)"
    by (induction items) (simp_all add: proc_entry_hit)
  then have "filter ?f (map proc_entry items) = (case proc_of items name of None \<Rightarrow> [] | Some p \<Rightarrow> [proc_entry p])"
    using assms by (simp add: proc_filter table_holds_def split: option.split)
  moreover have "mset (hits nxt_http_fields_hash_proto (field_query name v) s) = mset (filter ?f (map proc_entry items))"
    using assms by (simp only: table_holds_def mset_filter)
  ultimately show ?thesis by (intro singleton_mset_eq) (simp_all split: option.split)
qed

lemma table_find:
  assumes "table_holds items s"
  shows "nxt_lvlhsh_find nxt_http_fields_hash_proto (field_query name v) s = proc_of items name"
  using find_first [OF fields_proto_ok(1), of s "field_query name v"] assms
  by (simp add: table_hits [OF assms]) (simp add: table_holds_def first_value_def proc_entry_def split: option.split)

lemma table_insert:
  assumes "table_holds items s"
    and "nxt_lvlhsh_insert nxt_http_fields_hash_proto (field_query (fp_name p) (Some p)) s mem = (rc, s', v, mem')"
  shows "if fold_case (fp_name p) \<in> set (proc_names items) then rc = NXT_DECLINED \<and> s' = s \<and> mem' = mem
    else grown 41 s mem s' mem' \<and>
      (rc = NXT_OK \<and> table_holds (items @ [p]) s' \<or> rc = NXT_ERROR \<and> m_avail mem' = 0 \<and> table_holds items s')"
proof -
  have s: "slot_ok nxt_http_fields_hash_proto 0 s" using assms(1) by (simp add: table_holds_def)
  have q: "lq_value (field_query (fp_name p) (Some p)) \<noteq> None" by (simp add: field_query_def)
  have c: "insert_cost (nxt_http_fields_hash_proto :: (nxt_str, 'a field_proc) lvlhsh_proto) 0 = 41"
    by (simp add: insert_cost_def nxt_http_fields_hash_proto_def proto_simps)
  have n: "new_entry (field_query (fp_name p) (Some p)) = proc_entry p" by (simp add: field_query_def proc_entry_def)
  note i = insert_ok [OF fields_proto_ok(1) q s, of mem, unfolded assms(2) c insert_spec_def prod.case table_hits [OF assms(1)] n]
  show ?thesis
  proof (cases "proc_of items (fp_name p)")
    case None
    then have "fold_case (fp_name p) \<notin> set (proc_names items)"
      by (auto simp: proc_of_def proc_names_def find_None_iff)
    with i None assms(1) show ?thesis by (auto simp: table_holds_def proc_names_def)
  next
    case (Some p')
    then have "fold_case (fp_name p) \<in> set (proc_names items)"
      by (auto simp: proc_of_def proc_names_def find_Some_iff image_iff) (metis nth_mem)
    with i Some show ?thesis by (simp add: field_query_def)
  qed
qed

lemma fields_hash_Cons:
  "nxt_http_fields_hash (p # items) (s, mem) =
     (case nxt_lvlhsh_insert nxt_http_fields_hash_proto (field_query (fp_name p) (Some p)) s mem of (ret, s', _, mem') \<Rightarrow>
        if ret \<noteq> NXT_OK then (NXT_ERROR, s', mem') else nxt_http_fields_hash items (s', mem'))"
  by (simp add: field_query_def field_hash_def Let_def)

text \<open>The items of the table after the items of a list are added to it.\<close>

lemma fields_hash_run:
  assumes "table_holds done s" and "nxt_http_fields_hash items (s, mem) = (rc, s', mem')"
  shows "grown (41 * length items) s mem s' mem' \<and>
    (if rc = NXT_OK then table_holds (done @ items) s'
     else rc = NXT_ERROR \<and> slot_ok nxt_http_fields_hash_proto 0 s' \<and>
       (distinct (proc_names (done @ items)) \<longrightarrow> m_avail mem' = 0))"
  using assms
proof (induction items arbitrary: "done" s mem)
  case (Cons p items)
  obtain r s1 v mem1 where i: "nxt_lvlhsh_insert nxt_http_fields_hash_proto (field_query (fp_name p) (Some p)) s mem = (r, s1, v, mem1)"
    by (metis prod_cases4)
  note t = table_insert [OF Cons.prems(1) i]
  note run = Cons.prems(2) [unfolded fields_hash_Cons i prod.case]
  show ?case
  proof (cases "r = NXT_OK")
    case True
    then have g: "grown 41 s mem s1 mem1" and h: "table_holds (done @ [p]) s1" using t by (auto split: if_splits)
    have r: "nxt_http_fields_hash items (s1, mem1) = (rc, s', mem')" using run True by simp
    show ?thesis using Cons.IH [OF h r] grown_trans [OF g] by (simp split: if_splits)
  next
    case False
    then have e: "rc = NXT_ERROR" "s' = s1" "mem' = mem1" using run by simp_all
    from t False have "grown 41 s mem s1 mem1" "slot_ok nxt_http_fields_hash_proto 0 s1"
      using Cons.prems(1) by (auto simp: table_holds_def split: if_splits)
    moreover from this(1) have "grown (41 * length (p # items)) s mem s1 mem1" by (rule grown_mono) simp
    moreover have "m_avail mem1 = 0" if "distinct (proc_names (done @ p # items))"
      using t False that by (auto simp: proc_names_def split: if_splits)
    ultimately show ?thesis using e by simp
  qed
qed simp

lemma table_empty: "table_holds [] Null"
  by (simp add: table_holds_def proc_names_def)

section \<open>Processing\<close>

text \<open>The specification: a field is given to the item that has its name in either case.\<close>

definition dispatch :: "('h, 'c) field_call \<Rightarrow> 'h field_proc list \<Rightarrow> http_field \<Rightarrow> 'c \<Rightarrow> field_rc \<times> 'c \<times> http_field" where
  "dispatch call items field ctx =
     (case proc_of items (hf_name field) of None \<Rightarrow> (Inl NXT_OK, ctx, field) | Some p \<Rightarrow> call (fp_handler p) ctx field (fp_data p))"

lemma field_process_dispatch:
  assumes "table_holds items s" and "good_field f"
  shows "nxt_http_field_process call s f = dispatch call items f"
proof
  fix ctx
  have n: "take (unat (hf_name_length f)) (hf_name f) = hf_name f" using assms(2) by (simp add: good_field_def)
  have "ucast (hf_hash f) = field_hash (hf_name f) AND 0xFFFF"
    using assms(2) uint16_hash by (simp add: good_field_def field_hash_def name_hash_key)
  then show "nxt_http_field_process call s f ctx = dispatch call items f ctx"
    using table_find [OF assms(1), of "hf_name f" None]
    by (simp add: nxt_http_field_process_def dispatch_def n field_query_def Let_def)
qed

lemma process_loop_cong:
  "list_all (\<lambda>f. step f = step' f) fs \<Longrightarrow> fields_process_loop step fs ctx = fields_process_loop step' fs ctx"
  by (induction fs arbitrary: ctx) (simp_all split: prod.split)

section \<open>Collisions\<close>

abbreviation collision_proto :: "(nxt_str, 'h field_proc) lvlhsh_proto" where
  "collision_proto \<equiv> nxt_http_fields_hash_proto\<lparr>test := nxt_http_field_hash_collision\<rparr>"

definition collision_keys :: "'h field_proc slot \<Rightarrow> uint32 set" where
  "collision_keys s = entry_key ` set (entries collision_proto s)"

lemma collision_keys_Null [simp]: "collision_keys Null = {}"
  by (simp add: collision_keys_def)

abbreviation collision_query :: "uint32 \<Rightarrow> 'h field_proc \<Rightarrow> (nxt_str, 'h field_proc) lvlhsh_query" where
  "collision_query k p \<equiv> \<lparr>key_hash = k, replace = False, lq_key = [], lq_value = Some p\<rparr>"

lemma collision_insert:
  assumes "slot_ok collision_proto 0 s" and "nxt_lvlhsh_insert collision_proto (collision_query k p) s mem = (rc, s', v, mem')"
    and "41 < m_avail mem"
  shows "slot_ok collision_proto 0 s' \<and> (rc = NXT_DECLINED \<longleftrightarrow> k \<in> collision_keys s) \<and>
    collision_keys s' = insert k (collision_keys s) \<and> m_avail mem \<le> m_avail mem' + 41"
proof -
  have c: "insert_cost (collision_proto :: (nxt_str, 'a field_proc) lvlhsh_proto) 0 = 41"
    by (simp add: insert_cost_def nxt_http_fields_hash_proto_def proto_simps)
  have h: "entry_hit collision_proto (collision_query k p) e \<longleftrightarrow> entry_key e = k" if "e \<in> set (entries collision_proto s)" for e
    using entries_valid [OF that] by (simp add: entry_hit_def nxt_http_field_hash_collision_def)
  have i: "insert_spec collision_proto (collision_query k p) 0 41 s mem (rc, s', v, mem')"
    using insert_ok [OF fields_proto_ok(2) _ assms(1), of "collision_query k p" mem] unfolding assms(2) c by simp
  note ne = insert_succeeds [OF i assms(3)]
  have g: "m_avail mem \<le> m_avail mem' + 41" "slot_ok collision_proto 0 s'" using i by (auto simp: insert_spec_def grown_def)
  show ?thesis
  proof (cases "hits collision_proto (collision_query k p) s")
    case Nil
    then have k: "k \<notin> collision_keys s" using h by (auto simp: collision_keys_def filter_empty_conv)
    have m: "rc = NXT_OK" "mset (entries collision_proto s') = add_mset (new_entry (collision_query k p)) (mset (entries collision_proto s))"
      using i ne Nil by (auto simp: insert_spec_def)
    have "set (entries collision_proto s') = insert (new_entry (collision_query k p)) (set (entries collision_proto s))"
      using m(2) by (metis set_mset_add_mset_insert set_mset_mset)
    then have "collision_keys s' = insert k (collision_keys s)" by (simp add: collision_keys_def)
    with k m(1) g show ?thesis by simp
  next
    case (Cons e es)
    then have "k \<in> collision_keys s" using hits_hd [OF Cons] by (auto simp: collision_keys_def)
    moreover have "rc = NXT_DECLINED" "s' = s" using i Cons by (auto simp: insert_spec_def)
    ultimately show ?thesis using g by auto
  qed
qed

definition masked_hash :: "uint32 \<Rightarrow> 'h field_proc \<Rightarrow> uint32" where
  "masked_hash m p = field_hash (fp_name p) AND m"

lemma card_Diff_map: "card (f ` set xs - A) \<le> length xs"
proof -
  have "card (f ` set xs - A) \<le> card (f ` set xs)" by (intro card_mono) auto
  also have "\<dots> \<le> card (set xs)" by (rule card_image_le) simp
  also have "\<dots> \<le> length xs" by (rule card_length)
  finally show ?thesis .
qed

lemma collisions_count:
  assumes "slot_ok collision_proto 0 s" and "41 * length items < m_avail mem"
  shows "fst (fields_collisions_loop m items (s, mem) n) =
    n + of_nat (length items - card (masked_hash m ` set items - collision_keys s))"
  using assms
proof (induction items arbitrary: s mem n)
  case (Cons p items)
  let ?k = "masked_hash m p" and ?hs = "masked_hash m ` set items"
  obtain rc s1 v mem1 where i: "nxt_lvlhsh_insert collision_proto (collision_query ?k p) s mem = (rc, s1, v, mem1)"
    by (metis prod_cases4)
  have t: "slot_ok collision_proto 0 s1" "rc = NXT_DECLINED \<longleftrightarrow> ?k \<in> collision_keys s"
    "collision_keys s1 = insert ?k (collision_keys s)" "41 * length items < m_avail mem1"
    using collision_insert [OF Cons.prems(1) i] Cons.prems(2) by auto
  have "fst (fields_collisions_loop m (p # items) (s, mem) n) =
      fst (fields_collisions_loop m items (s1, mem1) (if rc = NXT_DECLINED then n + 1 else n))"
    using i by (simp add: masked_hash_def field_hash_def Let_def)
  also have "\<dots> = (if rc = NXT_DECLINED then n + 1 else n) + of_nat (length items - card (?hs - insert ?k (collision_keys s)))"
    using Cons.IH [OF t(1,4)] t(3) by simp
  also have "\<dots> = n + of_nat (length (p # items) - card (insert ?k ?hs - collision_keys s))"
  proof (cases "?k \<in> collision_keys s")
    case True
    then have "insert ?k ?hs - collision_keys s = ?hs - collision_keys s" "?hs - insert ?k (collision_keys s) = ?hs - collision_keys s"
      by blast+
    then show ?thesis using True t(2) card_Diff_map [of "masked_hash m" items "collision_keys s"] by (simp add: Suc_diff_le)
  next
    case False
    then have "insert ?k ?hs - collision_keys s = insert ?k (?hs - insert ?k (collision_keys s))" by blast
    then have "card (insert ?k ?hs - collision_keys s) = Suc (card (?hs - insert ?k (collision_keys s)))" by simp
    then show ?thesis using False t(2) by simp
  qed
  finally show ?case by simp
qed simp

section \<open>Properties\<close>

text \<open>An example: three handlers, named by numbers, that append to the context and mark the field.\<close>

definition example_items :: "nat field_proc list" where
  "example_items =
     [\<lparr>fp_name = bytes ''Host'', fp_handler = 1, fp_data = 0\<rparr>, \<lparr>fp_name = bytes ''Cookie'', fp_handler = 2, fp_data = 0\<rparr>,
      \<lparr>fp_name = bytes ''Referer'', fp_handler = 2, fp_data = 8\<rparr>]"

definition example_call :: "(nat, (nat \<times> uint64 \<times> nxt_str) list) field_call" where
  "example_call h ctx field d = (Inl NXT_OK, ctx @ [(h, d, hf_value field)], field\<lparr>hf_skip := True\<rparr>)"

definition example_mem :: "nat field_proc lvl_mem" where
  "example_mem = \<lparr>m_avail = 200, m_live = 0, m_junk = (\<lambda>_ _. \<lparr>entry_key = 0, entry_value = None\<rparr>)\<rparr>"

definition example_table :: "nat field_table" where
  "example_table = snd (nxt_http_fields_hash example_items (Null, example_mem))"

lemma example_table_ok: "nxt_http_fields_hash example_items (Null, example_mem) = (NXT_OK, example_table)"
proof -
  have "fst (nxt_http_fields_hash example_items (Null, example_mem)) = NXT_OK" by code_simp
  then show ?thesis by (simp add: example_table_def prod_eq_iff)
qed

text \<open>
  C20: The table of field handlers.  If \<^verbatim>\<open>nxt_http_fields_hash\<close> succeeds on an empty hash, no two items
  have the same name in either case, and a search with any name finds exactly the item with that
  name in either case.  It fails only if two items have the same name or memory runs out, for which
  41 allocations for each item are enough, and then the hash is still well formed.  No block leaks.
\<close>

theorem nxt_http_fields_hash_table:
  assumes "nxt_http_fields_hash items (Null, mem) = (rc, s, mem')"
  shows "slot_ok nxt_http_fields_hash_proto 0 s \<and> m_live mem' - int (blocks s) = m_live mem \<and>
    (if rc = NXT_OK
     then distinct (proc_names items) \<and>
       (\<forall>name. nxt_lvlhsh_find nxt_http_fields_hash_proto (field_query name None) s = proc_of items name)
     else rc = NXT_ERROR \<and> (distinct (proc_names items) \<longrightarrow> m_avail mem \<le> 41 * length items))"
proof -
  have r: "grown (41 * length items) Null mem s mem' \<and>
    (if rc = NXT_OK then table_holds items s
     else rc = NXT_ERROR \<and> slot_ok nxt_http_fields_hash_proto 0 s \<and> (distinct (proc_names items) \<longrightarrow> m_avail mem' = 0))"
    using fields_hash_run [OF table_empty assms] unfolding append_Nil .
  show ?thesis
  proof (cases "rc = NXT_OK")
    case True
    with r table_find [of items s _ None] show ?thesis by (simp add: table_holds_def grown_def)
  next
    case False
    with r show ?thesis by (auto simp: grown_def)
  qed
qed

theorem nxt_http_fields_hash_table_witness:
  "nxt_lvlhsh_find nxt_http_fields_hash_proto (field_query (bytes ''COOKIE'') None) (fst example_table) = Some (example_items ! 1) \<and>
   (\<exists>s mem'. nxt_http_fields_hash (example_items @ [hd example_items]) (Null, example_mem) = (NXT_ERROR, s, mem') \<and>
      slot_ok nxt_http_fields_hash_proto 0 s)"
proof
  obtain s m where t: "example_table = (s, m)" by (metis surj_pair)
  have "proc_of example_items (bytes ''COOKIE'') = Some (example_items ! 1)" by code_simp
  with nxt_http_fields_hash_table [OF example_table_ok [unfolded t]]
  show "nxt_lvlhsh_find nxt_http_fields_hash_proto (field_query (bytes ''COOKIE'') None) (fst example_table) = Some (example_items ! 1)"
    by (simp add: t del: bytes_Cons)
next
  obtain rc s mem' where r: "nxt_http_fields_hash (example_items @ [hd example_items]) (Null, example_mem) = (rc, s, mem')"
    by (metis prod_cases3)
  have "fst (nxt_http_fields_hash (example_items @ [hd example_items]) (Null, example_mem)) = NXT_ERROR" by code_simp
  then have "rc = NXT_ERROR" by (simp add: r)
  with nxt_http_fields_hash_table [OF r] r
  show "\<exists>s mem'. nxt_http_fields_hash (example_items @ [hd example_items]) (Null, example_mem) = (NXT_ERROR, s, mem') \<and>
      slot_ok nxt_http_fields_hash_proto 0 s" by blast
qed

text \<open>
  C21: \<^verbatim>\<open>nxt_http_fields_hash_collisions\<close> counts the items whose hash, of 16 bits or of the bits that
  choose a slot of the first level, an earlier item has: on an empty hash with enough memory, the
  number of items less the number of different hashes.
\<close>

theorem nxt_http_fields_hash_collisions_count:
  assumes "41 * length items < m_avail mem"
  shows "fst (nxt_http_fields_hash_collisions items level (Null, mem)) =
    of_nat (length items - card (masked_hash (if level then 0x1F else 0xFFFF) ` set items))"
  using collisions_count [OF _ assms, of Null _ 0]
  by (simp add: nxt_http_fields_hash_collisions_def NXT_HTTP_FIELD_LVLHSH_SHIFT_def)

theorem nxt_http_fields_hash_collisions_count_witness:
  "fst (nxt_http_fields_hash_collisions (example_items @ [hd example_items]) True (Null, example_mem)) = 1"
proof -
  have "41 * length (example_items @ [hd example_items]) < m_avail example_mem" by code_simp
  moreover have "card (masked_hash 0x1F ` set (example_items @ [hd example_items])) = 3" by code_simp
  moreover have "length (example_items @ [hd example_items]) = 4" by code_simp
  ultimately show ?thesis
    using nxt_http_fields_hash_collisions_count [of "example_items @ [hd example_items]" example_mem True] by simp
qed

end
