(* ===== verification/Nxt_Hash.thy ===== *)
theory Nxt_Hash
  imports Nxt_String
begin

text \<open>
  The hash functions \<^verbatim>\<open>src/nxt_murmur_hash.c\<close> and \<^verbatim>\<open>src/nxt_djb_hash.c\<close>.  MurmurHash2 loses nothing
  on four bytes, which the table of file descriptor events relies on.
\<close>

section \<open>MurmurHash2\<close>

definition murmur_m :: uint32 where
  "murmur_m = 0x5BD1E995"

text \<open>The four bytes at a pointer, the lowest first.\<close>

definition murmur_word :: "u_char \<Rightarrow> u_char \<Rightarrow> u_char \<Rightarrow> u_char \<Rightarrow> uint32" where
  "murmur_word p0 p1 p2 p3 = ucast p0 OR push_bit 8 (ucast p1) OR push_bit 16 (ucast p2) OR push_bit 24 (ucast p3)"

definition murmur_mix :: "uint32 \<Rightarrow> uint32" where
  "murmur_mix k =
     (let k = k * murmur_m;
          k = k XOR drop_bit 24 k
      in k * murmur_m)"

fun murmur_loop :: "uint32 \<Rightarrow> nxt_str \<Rightarrow> uint32 \<times> nxt_str" where
  "murmur_loop h (p0 # p1 # p2 # p3 # p) = murmur_loop (h * murmur_m XOR murmur_mix (murmur_word p0 p1 p2 p3)) p"
| "murmur_loop h p = (h, p)"

text \<open>The switch over the last bytes, whose cases fall through.\<close>

fun murmur_tail :: "uint32 \<Rightarrow> nxt_str \<Rightarrow> uint32" where
  "murmur_tail h [p0, p1, p2] = (h XOR push_bit 16 (ucast p2) XOR push_bit 8 (ucast p1) XOR ucast p0) * murmur_m"
| "murmur_tail h [p0, p1] = (h XOR push_bit 8 (ucast p1) XOR ucast p0) * murmur_m"
| "murmur_tail h [p0] = (h XOR ucast p0) * murmur_m"
| "murmur_tail h _ = h"

definition murmur_final :: "uint32 \<Rightarrow> uint32" where
  "murmur_final h =
     (let h = h XOR drop_bit 13 h;
          h = h * murmur_m
      in h XOR drop_bit 15 h)"

definition nxt_murmur_hash2 :: "nxt_str \<Rightarrow> uint32" where
  "nxt_murmur_hash2 data =
     (case murmur_loop (0 XOR of_nat (length data)) data of
        (h, p) \<Rightarrow> murmur_final (murmur_tail h p))"

text \<open>\<^verbatim>\<open>nxt_murmur_hash2_uint32\<close> reads four bytes.\<close>

definition nxt_murmur_hash2_uint32 :: "nxt_str \<Rightarrow> uint32" where
  "nxt_murmur_hash2_uint32 data =
     (let k = murmur_mix (murmur_word (data ! 0) (data ! 1) (data ! 2) (data ! 3));
          h = (0 XOR 4) * murmur_m
      in murmur_final (h XOR k))"

section \<open>The hash of Daniel Bernstein\<close>

definition NXT_DJB_HASH_INIT :: uint32 where
  "NXT_DJB_HASH_INIT = 5381"

definition nxt_djb_hash_add :: "uint32 \<Rightarrow> uint32 \<Rightarrow> uint32" where
  "nxt_djb_hash_add hash v = (push_bit 5 hash + hash) XOR v"

fun djb_loop :: "uint32 \<Rightarrow> nxt_str \<Rightarrow> uint32" where
  "djb_loop hash [] = hash"
| "djb_loop hash (c # p) = djb_loop (nxt_djb_hash_add hash (ucast c)) p"

definition nxt_djb_hash :: "nxt_str \<Rightarrow> uint32" where
  "nxt_djb_hash data = djb_loop NXT_DJB_HASH_INIT data"

fun djb_lowcase_loop :: "uint32 \<Rightarrow> nxt_str \<Rightarrow> uint32" where
  "djb_lowcase_loop hash [] = hash"
| "djb_lowcase_loop hash (c # p) = djb_lowcase_loop (nxt_djb_hash_add hash (ucast (nxt_lowcase c))) p"

definition nxt_djb_hash_lowcase :: "nxt_str \<Rightarrow> uint32" where
  "nxt_djb_hash_lowcase data = djb_lowcase_loop NXT_DJB_HASH_INIT data"

section \<open>Invertible steps\<close>

lemma murmur_mult_inj: "a * murmur_m = b * murmur_m \<Longrightarrow> a = b"
proof -
  assume e: "a * murmur_m = b * murmur_m"
  have i: "murmur_m * 0xE59B19BD = 1" by (simp add: murmur_m_def)
  have "a = a * murmur_m * 0xE59B19BD" using i by (simp add: mult.assoc)
  also have "\<dots> = b * murmur_m * 0xE59B19BD" using e by simp
  finally show ?thesis using i by (simp add: mult.assoc)
qed

text \<open>A shift by \<open>s\<close> bits at most three times is undone by two more.\<close>

lemma xorshift_inj:
  fixes a b :: uint32
  assumes "a XOR drop_bit s a = b XOR drop_bit s b" and "32 \<le> 3 * s"
  shows "a = b"
proof -
  have z: "drop_bit (s + (s + s)) x = 0" for x :: uint32
  proof -
    have "drop_bit k x = 0" if "32 \<le> k" for k by (rule bit_word_eqI) (use that in \<open>simp add: bit_drop_bit_eq\<close>)
    then show ?thesis using assms(2) by simp
  qed
  have u: "x = (let y = x XOR drop_bit s x in y XOR drop_bit s y XOR drop_bit (s + s) y)" for x :: uint32
    by (simp add: Let_def drop_bit_xor z ac_simps bit.xor_left_self)
  show ?thesis using u [of a] u [of b] assms(1) by simp
qed

lemma murmur_mix_inj: "murmur_mix a = murmur_mix b \<Longrightarrow> a = b"
  unfolding murmur_mix_def Let_def by (rule murmur_mult_inj) (rule xorshift_inj [of _ 24], erule murmur_mult_inj, simp)

lemma murmur_final_inj: "murmur_final a = murmur_final b \<Longrightarrow> a = b"
  unfolding murmur_final_def Let_def
  by (rule xorshift_inj [of _ 13], rule murmur_mult_inj, erule xorshift_inj) simp_all

lemma murmur_hash2_four:
  "nxt_murmur_hash2 [p0, p1, p2, p3] = murmur_final ((4 * murmur_m) XOR murmur_mix (murmur_word p0 p1 p2 p3))"
  by (simp add: nxt_murmur_hash2_def)

lemma murmur_word_bytes:
  "ucast (murmur_word p0 p1 p2 p3) = p0" "ucast (drop_bit 8 (murmur_word p0 p1 p2 p3)) = p1"
  "ucast (drop_bit 16 (murmur_word p0 p1 p2 p3)) = p2" "ucast (drop_bit 24 (murmur_word p0 p1 p2 p3)) = p3"
  by (rule bit_word_eqI, auto simp: murmur_word_def bit_simps dest: bit_imp_le_length)+

lemma murmur_word_inj: "murmur_word a b c d = murmur_word a' b' c' d' \<Longrightarrow> a = a' \<and> b = b' \<and> c = c' \<and> d = d'"
  using murmur_word_bytes by metis

lemma length_four: "length p = 4 \<Longrightarrow> \<exists>p0 p1 p2 p3. p = [p0, p1, p2, p3]"
  by (auto simp: numeral_eq_Suc length_Suc_conv)

text \<open>The bytes of a 32-bit number in memory.\<close>

definition le_bytes :: "uint32 \<Rightarrow> nxt_str" where
  "le_bytes w = [ucast w, ucast (drop_bit 8 w), ucast (drop_bit 16 w), ucast (drop_bit 24 w)]"

lemma murmur_word_le_bytes: "murmur_word (ucast w) (ucast (drop_bit 8 w)) (ucast (drop_bit 16 w)) (ucast (drop_bit 24 w)) = w"
proof (rule bit_word_eqI)
  fix n
  assume "n < LENGTH(32)"
  then consider "n < 8" | "8 \<le> n \<and> n < 16" | "16 \<le> n \<and> n < 24" | "24 \<le> n \<and> n < 32" by fastforce
  then show "bit (murmur_word (ucast w) (ucast (drop_bit 8 w)) (ucast (drop_bit 16 w)) (ucast (drop_bit 24 w))) n \<longleftrightarrow> bit w n"
    by cases (auto simp: murmur_word_def bit_simps)
qed

lemma le_bytes_inj: "le_bytes a = le_bytes b \<Longrightarrow> a = b"
  unfolding le_bytes_def using murmur_word_le_bytes by (metis list.inject)

lemma murmur_hash2_inj:
  assumes "length a = 4" and "length b = 4" and "nxt_murmur_hash2 a = nxt_murmur_hash2 b"
  shows "a = b"
proof -
  obtain a0 a1 a2 a3 b0 b1 b2 b3 where ab: "a = [a0, a1, a2, a3]" "b = [b0, b1, b2, b3]"
    using length_four [OF assms(1)] length_four [OF assms(2)] by blast
  have "4 * murmur_m XOR murmur_mix (murmur_word a0 a1 a2 a3) = 4 * murmur_m XOR murmur_mix (murmur_word b0 b1 b2 b3)"
    using assms(3) unfolding ab murmur_hash2_four by (rule murmur_final_inj)
  then have "murmur_mix (murmur_word a0 a1 a2 a3) = murmur_mix (murmur_word b0 b1 b2 b3)" by (metis bit.xor_left_self)
  from murmur_word_inj [OF murmur_mix_inj [OF this]] ab show ?thesis by simp
qed

text \<open>C22: MurmurHash2 is one to one on strings of four bytes, as \<^verbatim>\<open>nxt_fd_event.c\<close> says, and
  \<open>nxt_murmur_hash2_uint32\<close> computes it there.\<close>

theorem nxt_murmur_hash2_unique:
  assumes "length a = 4" and "length b = 4"
  shows "(nxt_murmur_hash2 a = nxt_murmur_hash2 b \<longleftrightarrow> a = b) \<and> nxt_murmur_hash2_uint32 a = nxt_murmur_hash2 a"
proof -
  obtain a0 a1 a2 a3 where "a = [a0, a1, a2, a3]" using length_four [OF assms(1)] by blast
  then have "nxt_murmur_hash2_uint32 a = nxt_murmur_hash2 a"
    by (simp add: murmur_hash2_four nxt_murmur_hash2_uint32_def)
  then show ?thesis using murmur_hash2_inj [OF assms] by blast
qed

theorem nxt_murmur_hash2_unique_witness:
  "nxt_murmur_hash2 (le_bytes 7) \<noteq> nxt_murmur_hash2 (le_bytes 8) \<and>
   nxt_murmur_hash2_uint32 (le_bytes 7) = nxt_murmur_hash2 (le_bytes 7)"
proof -
  have "length (le_bytes 7) = 4" "length (le_bytes 8) = 4" "le_bytes 7 \<noteq> le_bytes 8" by (simp_all add: le_bytes_def)
  with nxt_murmur_hash2_unique [of "le_bytes 7" "le_bytes 8"] show ?thesis by blast
qed

lemma djb_lowcase_loop: "djb_lowcase_loop hash p = djb_loop hash (map nxt_lowcase p)"
  by (induction p arbitrary: hash) simp_all

end
