(* ===== verification/Nxt_Fd_Event.thy ===== *)
theory Nxt_Fd_Event
  imports Nxt_Hash Nxt_Lvlhsh_Map
begin

text \<open>
  The table of file descriptor events, \<^verbatim>\<open>src/nxt_fd_event.c\<close>: a level hash without a test function,
  which is right because MurmurHash2 is one to one on the four bytes of a descriptor.
\<close>

section \<open>Operations\<close>

type_synonym nxt_fd = uint32

text \<open>An event is a pointer, \<open>ev_addr\<close>, to a structure that holds its descriptor.\<close>

record fd_event =
  ev_addr :: nat
  ev_fd :: nxt_fd

type_synonym fd_table = "fd_event slot \<times> fd_event lvl_mem"

text \<open>The messages that are logged.\<close>

datatype fd_alert = Already_in_hash nxt_fd | Not_found_in_hash nxt_fd

definition nxt_fd_event_hash_test :: "nxt_fd \<Rightarrow> fd_event \<Rightarrow> bool" where
  "nxt_fd_event_hash_test key ev = True"

text \<open>\<open>m\<close> is \<^verbatim>\<open>NXT_LVLHSH_MAX_MEMALIGN_SHIFT\<close>.\<close>

definition nxt_event_set_fd_hash_proto :: "nat \<Rightarrow> (nxt_fd, fd_event) lvlhsh_proto" where
  "nxt_event_set_fd_hash_proto m = NXT_LVLHSH_LARGE_MEMALIGN m nxt_fd_event_hash_test"

text \<open>The query.  The code leaves its key unset, which the test does not read.\<close>

definition fd_query :: "nxt_fd \<Rightarrow> fd_event option \<Rightarrow> (nxt_fd, fd_event) lvlhsh_query" where
  "fd_query fd ev = \<lparr>key_hash = nxt_murmur_hash2 (le_bytes fd), replace = False, lq_key = fd, lq_value = ev\<rparr>"

definition nxt_fd_event_hash_add :: "nat \<Rightarrow> fd_table \<Rightarrow> nxt_fd \<Rightarrow> fd_event \<Rightarrow> nxt_rc \<times> fd_table \<times> fd_alert list" where
  "nxt_fd_event_hash_add m st fd ev =
     (case nxt_lvlhsh_insert (nxt_event_set_fd_hash_proto m) (fd_query fd (Some ev)) (fst st) (snd st) of
        (ret, s, _, mem) \<Rightarrow>
          if ret = NXT_OK then (NXT_OK, (s, mem), []) else (NXT_ERROR, (s, mem), [Already_in_hash (ev_fd ev)]))"

definition nxt_fd_event_hash_get :: "nat \<Rightarrow> fd_table \<Rightarrow> nxt_fd \<Rightarrow> fd_event option \<times> fd_alert list" where
  "nxt_fd_event_hash_get m st fd =
     (case nxt_lvlhsh_find (nxt_event_set_fd_hash_proto m) (fd_query fd None) (fst st) of
        Some ev \<Rightarrow> (Some ev, [])
      | None \<Rightarrow> (None, [Not_found_in_hash fd]))"

definition nxt_fd_event_hash_delete :: "nat \<Rightarrow> fd_table \<Rightarrow> nxt_fd \<Rightarrow> bool \<Rightarrow> fd_table \<times> fd_alert list" where
  "nxt_fd_event_hash_delete m st fd ignore =
     (case nxt_lvlhsh_delete (nxt_event_set_fd_hash_proto m) (fd_query fd None) (fst st) (snd st) of
        (v, s, mem) \<Rightarrow> ((s, mem), if v = None \<and> \<not> ignore then [Not_found_in_hash fd] else []))"

partial_function (option) nxt_fd_event_hash_destroy :: "nat \<Rightarrow> fd_table \<Rightarrow> fd_table option" where
  "nxt_fd_event_hash_destroy m st =
     (case nxt_lvlhsh_retrieve (nxt_event_set_fd_hash_proto m) (fst st) (snd st) of
        (ev, st) \<Rightarrow> if ev \<noteq> None then nxt_fd_event_hash_destroy m st else Some st)"

section \<open>The table is a map\<close>

definition fd_conf :: "nat \<Rightarrow> (nxt_fd, fd_event) lvlhsh_conf" where
  "fd_conf m = \<lparr>conf_proto = nxt_event_set_fd_hash_proto m, conf_hash = (\<lambda>fd. nxt_murmur_hash2 (le_bytes fd)), conf_key = ev_fd\<rparr>"

lemma fd_query_conf: "fd_query fd ev = conf_query (fd_conf m) fd ev"
  by (simp add: fd_query_def fd_conf_def)

lemma fd_conf_simps [simp]: "conf_proto (fd_conf m) = nxt_event_set_fd_hash_proto m" "conf_key (fd_conf m) = ev_fd"
  by (simp_all add: fd_conf_def)

text \<open>Different descriptors have different hashes.\<close>

lemma fd_hash_inj: "nxt_murmur_hash2 (le_bytes a) = nxt_murmur_hash2 (le_bytes b) \<longleftrightarrow> a = b"
proof
  assume "nxt_murmur_hash2 (le_bytes a) = nxt_murmur_hash2 (le_bytes b)"
  then have "le_bytes a = le_bytes b" by (intro murmur_hash2_inj) (simp_all add: le_bytes_def)
  then show "a = b" by (rule le_bytes_inj)
qed simp

lemma fd_conf_ok:
  assumes "0 < m" and "m \<le> 10"
  shows "conf_ok (fd_conf m)"
proof -
  have "proto_ok (nxt_event_set_fd_hash_proto m)"
    using large_memalign_ok [OF assms] by (simp add: nxt_event_set_fd_hash_proto_def)
  then show ?thesis
    by (simp add: conf_ok_def) (simp add: fd_conf_def fd_hash_inj nxt_event_set_fd_hash_proto_def NXT_LVLHSH_LARGE_MEMALIGN_def
        NXT_LVLHSH_BUCKET_SIZE_def nxt_fd_event_hash_test_def)
qed

definition fd_wf :: "nat \<Rightarrow> fd_table \<Rightarrow> bool" where
  "fd_wf m st \<longleftrightarrow> hash_wf (fd_conf m) st"

definition fd_map :: "nat \<Rightarrow> fd_table \<Rightarrow> nxt_fd \<rightharpoonup> fd_event" where
  "fd_map m st = hash_get (fd_conf m) st"

lemma fd_get: "nxt_fd_event_hash_get m st fd = (fd_map m st fd, if fd_map m st fd = None then [Not_found_in_hash fd] else [])"
  by (simp add: nxt_fd_event_hash_get_def fd_map_def hash_get_def fd_query_conf [of _ _ m] split: option.split)

lemma fd_add:
  "nxt_fd_event_hash_add m st fd ev =
     (case hash_add (fd_conf m) fd ev st of
        (rc, st') \<Rightarrow> if rc = NXT_OK then (NXT_OK, st', []) else (NXT_ERROR, st', [Already_in_hash (ev_fd ev)]))"
  by (simp add: nxt_fd_event_hash_add_def hash_add_def fd_query_conf [of _ _ m] split: prod.split)

lemma fd_delete:
  "nxt_fd_event_hash_delete m st fd ignore =
     (case hash_del (fd_conf m) fd st of (v, st') \<Rightarrow> (st', if v = None \<and> \<not> ignore then [Not_found_in_hash fd] else []))"
  by (simp add: nxt_fd_event_hash_delete_def hash_del_def fd_query_conf [of _ _ m] split: prod.split)

lemma destroy_all:
  assumes "proto_ok (nxt_event_set_fd_hash_proto m)"
  shows "slot_ok (nxt_event_set_fd_hash_proto m) 0 s \<Longrightarrow>
    \<exists>mem'. nxt_fd_event_hash_destroy m (s, mem) = Some (Null, mem') \<and> m_live mem' = m_live mem - int (blocks s)"
proof (induction "length (entries (nxt_event_set_fd_hash_proto m) s)" arbitrary: s mem rule: less_induct)
  case less
  let ?p = "nxt_event_set_fd_hash_proto m"
  show ?case
  proof (cases "s = Null")
    case True
    then show ?thesis
      by (subst nxt_fd_event_hash_destroy.simps) (simp add: nxt_lvlhsh_retrieve_def lvlhsh_peek_def)
  next
    case False
    obtain v s' mem' where r: "nxt_lvlhsh_retrieve ?p s mem = (v, s', mem')" by (metis prod_cases3)
    have p: "entries ?p s \<noteq> []" "v = first_value (entries ?p s)" "slot_ok ?p 0 s'" "entries ?p s' = tl (entries ?p s)"
      "m_live mem' - int (blocks s') = m_live mem - int (blocks s)"
      using peek_ok [OF assms less.prems False, of True mem] r by (auto simp: nxt_lvlhsh_retrieve_def peek_spec_def smaller_def)
    then obtain e es where e: "entries ?p s = e # es" by (meson list.exhaust)
    then have "valid e" by (intro entries_valid [of e ?p s]) simp
    then have v: "v \<noteq> None" using p(2) e by (simp add: nxt_lvlhsh_valid_entry_def)
    have "length (entries ?p s') < length (entries ?p s)" using p(4) e by simp
    from less.hyps [OF this p(3), of mem'] p(5) r v show ?thesis
      by (subst nxt_fd_event_hash_destroy.simps) auto
  qed
qed

section \<open>Properties\<close>

text \<open>An example: three events, two of them for one descriptor, and a last deletion.\<close>

definition fd_ev :: "nat \<Rightarrow> nxt_fd \<Rightarrow> fd_event" where
  "fd_ev a fd = \<lparr>ev_addr = a, ev_fd = fd\<rparr>"

definition fd_empty :: fd_table where
  "fd_empty = (Null, \<lparr>m_avail = 4, m_live = 0, m_junk = (\<lambda>_ _. \<lparr>entry_key = 0, entry_value = None\<rparr>)\<rparr>)"

definition fd_example :: fd_table where
  "fd_example = fst (snd (nxt_fd_event_hash_add 10 (fst (snd (nxt_fd_event_hash_add 10 fd_empty 3 (fd_ev 1 3)))) 4 (fd_ev 2 4)))"

lemma fd_wf_empty: "0 < m \<Longrightarrow> m \<le> 10 \<Longrightarrow> fd_wf m (Null, mem)"
  by (simp add: fd_wf_def hash_wf_empty fd_conf_ok)

lemma fd_add_wf:
  assumes "fd_wf m st"
  shows "fd_wf m (fst (snd (nxt_fd_event_hash_add m st (ev_fd ev) ev)))"
proof -
  obtain rc st' where a: "hash_add (fd_conf m) (conf_key (fd_conf m) ev) ev st = (rc, st')" by (metis surj_pair)
  from lvlhsh.add_wf [OF assms [unfolded fd_wf_def] a] a show ?thesis by (simp add: fd_add fd_wf_def)
qed

lemma fd_example_wf: "fd_wf 10 fd_example"
  using fd_add_wf [of 10 _ "fd_ev 2 4"] fd_add_wf [of 10 fd_empty "fd_ev 1 3"] fd_wf_empty [of 10]
  by (simp add: fd_example_def fd_empty_def fd_ev_def)

text \<open>C18: the table of events is a map from descriptors to events, although the hash does not compare
  descriptors.  A search returns the event of the descriptor, and logs that there is none exactly
  then.  An addition for a descriptor that has an event changes nothing; one for another descriptor
  adds the event, or fails for want of memory, with the same message.  A deletion removes the event of the
  descriptor and no other.\<close>

theorem nxt_fd_event_hash_map:
  assumes "fd_wf m st"
  shows "nxt_fd_event_hash_get m st fd = (fd_map m st fd, if fd_map m st fd = None then [Not_found_in_hash fd] else []) \<and>
    (case nxt_fd_event_hash_add m st (ev_fd ev) ev of (rc, st', alerts) \<Rightarrow>
       fd_wf m st' \<and>
       (if fd_map m st (ev_fd ev) \<noteq> None then rc = NXT_ERROR \<and> st' = st \<and> alerts = [Already_in_hash (ev_fd ev)]
        else rc = NXT_OK \<and> fd_map m st' = (fd_map m st)(ev_fd ev \<mapsto> ev) \<and> alerts = [] \<or>
             rc = NXT_ERROR \<and> fd_map m st' = fd_map m st \<and> alerts = [Already_in_hash (ev_fd ev)])) \<and>
    (case nxt_fd_event_hash_delete m st fd ignore of (st', alerts) \<Rightarrow>
       fd_wf m st' \<and> fd_map m st' = (fd_map m st)(fd := None) \<and>
       alerts = (if fd_map m st fd = None \<and> \<not> ignore then [Not_found_in_hash fd] else []))"
proof (intro conjI)
  note wf = assms [unfolded fd_wf_def]
  show "nxt_fd_event_hash_get m st fd = (fd_map m st fd, if fd_map m st fd = None then [Not_found_in_hash fd] else [])" by (rule fd_get)
  obtain rc st' where a: "hash_add (fd_conf m) (conf_key (fd_conf m) ev) ev st = (rc, st')" by (metis surj_pair)
  show "case nxt_fd_event_hash_add m st (ev_fd ev) ev of (rc, st', alerts) \<Rightarrow>
       fd_wf m st' \<and>
       (if fd_map m st (ev_fd ev) \<noteq> None then rc = NXT_ERROR \<and> st' = st \<and> alerts = [Already_in_hash (ev_fd ev)]
        else rc = NXT_OK \<and> fd_map m st' = (fd_map m st)(ev_fd ev \<mapsto> ev) \<and> alerts = [] \<or>
             rc = NXT_ERROR \<and> fd_map m st' = fd_map m st \<and> alerts = [Already_in_hash (ev_fd ev)])"
    using lvlhsh.add_wf [OF wf a] lvlhsh.add_new [OF wf _ a] lvlhsh.add_old [OF wf, of ev] a
    by (cases "hash_get (fd_conf m) st (ev_fd ev)") (auto simp: fd_add fd_wf_def fd_map_def)
  obtain v st'' where d: "hash_del (fd_conf m) fd st = (v, st'')" by (metis surj_pair)
  show "case nxt_fd_event_hash_delete m st fd ignore of (st', alerts) \<Rightarrow>
       fd_wf m st' \<and> fd_map m st' = (fd_map m st)(fd := None) \<and>
       alerts = (if fd_map m st fd = None \<and> \<not> ignore then [Not_found_in_hash fd] else [])"
    using lvlhsh.del_wf [OF wf d] lvlhsh.del_get [OF wf d] d by (simp add: fd_delete fd_wf_def fd_map_def)
qed

theorem nxt_fd_event_hash_map_witness:
  "nxt_fd_event_hash_get 10 fd_example 4 = (Some (fd_ev 2 4), []) \<and>
   fst (nxt_fd_event_hash_add 10 fd_example 4 (fd_ev 3 4)) = NXT_ERROR \<and>
   fd_map 10 (fst (nxt_fd_event_hash_delete 10 fd_example 3 False)) = (fd_map 10 fd_example)(3 := None)"
proof -
  have g: "nxt_fd_event_hash_get 10 fd_example 4 = (Some (fd_ev 2 4), [])"
    "ev_fd (fd_ev 3 4) = 4" by code_simp+
  then have "fd_map 10 fd_example 4 \<noteq> None" by (simp add: fd_get split: if_splits)
  with nxt_fd_event_hash_map [OF fd_example_wf, of 3 "fd_ev 3 4" False] g show ?thesis
    by (auto split: prod.splits)
qed

text \<open>C19: destroying the table ends, with an empty hash and all its blocks freed.\<close>

theorem nxt_fd_event_hash_destroy_ends:
  assumes "fd_wf m st"
  shows "\<exists>mem. nxt_fd_event_hash_destroy m st = Some (Null, mem) \<and> m_live mem = m_live (snd st) - int (blocks (fst st))"
  using destroy_all [of m "fst st" "snd st"] assms by (auto simp: fd_wf_def hash_wf_def conf_ok_def)

theorem nxt_fd_event_hash_destroy_ends_witness:
  "\<exists>mem. nxt_fd_event_hash_destroy 10 fd_example = Some (Null, mem) \<and> m_live mem = 0"
proof -
  have "m_live (snd fd_example) = 1" "blocks (fst fd_example) = 1" by code_simp+
  with nxt_fd_event_hash_destroy_ends [OF fd_example_wf] show ?thesis by simp
qed

end
